(* ===== verification/Prelude.thy ===== *)
theory Prelude
  imports Main "HOL-Library.Word" "HOL-Library.Multiset"
begin

text \<open>
  Shared vocabulary of the development: the error values and the result type that model
  the process exits (\<open>ASSERT\<close>) and the undefined behaviour of the C++ code, the bind
  operator that threads them through straight-line code, and the generic lemmas on lists
  and on 64-bit words that the components use.
\<close>

section \<open>Errors and results\<close>

text \<open>
  The first five errors are the \<open>ASSERT\<close> checks of Common/macros.h, each of which prints
  a message and calls \<open>exit\<close>. \<open>BadPointer\<close> stands for undefined behaviour: reading or
  writing through a pointer that is null, dangling or outside its pool. \<open>OutOfFuel\<close> is
  the value of a bounded loop that has not finished within its bound; every loop bound of
  the development is proved to be large enough.
\<close>

datatype error =
    PoolBlockNotFree
  | PoolOutOfSpace
  | PoolForeignElement
  | PoolDoubleFree
  | QueueInvalidRead
  | BadPointer
  | OutOfFuel

type_synonym 'a result = "error + 'a"

fun rbind :: "'a result \<Rightarrow> ('a \<Rightarrow> 'b result) \<Rightarrow> 'b result" where
  "rbind (Inl e) f = Inl e"
| "rbind (Inr x) f = f x"

lemma rbind_eq_Inr: "rbind r f = Inr y \<longleftrightarrow> (\<exists>x. r = Inr x \<and> f x = Inr y)"
  by (cases r) auto

lemma rbind_eq_Inl: "rbind r f = Inl e \<longleftrightarrow> r = Inl e \<or> (\<exists>x. r = Inr x \<and> f x = Inl e)"
  by (cases r) auto

lemma rbind_assoc: "rbind (rbind r f) g = rbind r (\<lambda>x. rbind (f x) g)"
  by (cases r) auto

text \<open>What a fallible run promises: an allowed error, or a result with the property.\<close>

definition ends_with :: "(error \<Rightarrow> bool) \<Rightarrow> ('a \<Rightarrow> bool) \<Rightarrow> 'a result \<Rightarrow> bool" where
  "ends_with E P r = (case r of Inl e \<Rightarrow> E e | Inr x \<Rightarrow> P x)"

lemma ends_with_simps [simp]:
  "ends_with E P (Inl e) = E e"
  "ends_with E P (Inr x) = P x"
  by (simp_all add: ends_with_def)

lemma ends_with_rbind:
  assumes "ends_with E P r" and "\<And>x. r = Inr x \<Longrightarrow> P x \<Longrightarrow> ends_with E Q (f x)"
  shows "ends_with E Q (rbind r f)"
  using assms by (cases r) auto

lemma ends_with_mono:
  assumes "ends_with E P r" and "\<And>e. E e \<Longrightarrow> E' e" and "\<And>x. P x \<Longrightarrow> Q x"
  shows "ends_with E' Q r"
  using assms by (cases r) auto

section \<open>Collections of facts\<close>

named_theorems queue_simps \<open>effects of the ring-buffer operations on its contents\<close>
named_theorems pool_simps \<open>effects of the memory-pool operations on the live objects\<close>
named_theorems book_simps \<open>field-wise effects of the order-book helpers\<close>
named_theorems spec_defs \<open>definitions of the abstract order-book operations\<close>

section \<open>Lists\<close>

lemma sorted_wrt_mid:
  "sorted_wrt R (xs @ ys) \<Longrightarrow> sorted_wrt R (xs @ zs @ ys) \<longleftrightarrow>
     sorted_wrt R zs \<and> (\<forall>x\<in>set xs. \<forall>z\<in>set zs. R x z) \<and> (\<forall>z\<in>set zs. \<forall>y\<in>set ys. R z y)"
  by (auto simp: sorted_wrt_append)

lemma distinct_sorted_wrt: "distinct xs \<longleftrightarrow> sorted_wrt (\<noteq>) xs"
  by (induction xs) auto

lemma distinct_concat_map_mem:
  "distinct (concat (map f xs)) \<Longrightarrow> x \<in> set xs \<Longrightarrow> distinct (f x)"
  by (induction xs) auto

lemma foldl_snoc_contents:
  assumes "\<And>q x. P q \<Longrightarrow> P (f q x) \<and> c (f q x) = c q @ [x]"
  shows "P q \<Longrightarrow> P (foldl f q xs) \<and> c (foldl f q xs) = c q @ xs"
  using assms by (induction xs arbitrary: q) auto

section \<open>A map and its inverse\<close>

definition inverse_maps :: "('k \<rightharpoonup> 'i) \<Rightarrow> ('i \<rightharpoonup> 'k) \<Rightarrow> bool" where
  "inverse_maps m f \<longleftrightarrow> (\<forall>k i. m k = Some i \<longleftrightarrow> f i = Some k)"

lemma inverse_maps_inj: "inverse_maps m f \<Longrightarrow> f i = Some k \<Longrightarrow> f j = Some k \<Longrightarrow> i = j"
  unfolding inverse_maps_def by (metis option.inject)

lemma inverse_maps_delete:
  assumes inv: "inverse_maps m f" and fi: "f i = Some k"
  shows "inverse_maps (m(k := None)) (f(i := None))"
  unfolding inverse_maps_def
proof (intro allI)
  fix k' j
  have iff: "m k' = Some j \<longleftrightarrow> f j = Some k'" "m k = Some j \<longleftrightarrow> f j = Some k" "m k = Some i"
    using inv fi by (simp_all add: inverse_maps_def)
  show "(m(k := None)) k' = Some j \<longleftrightarrow> (f(i := None)) j = Some k'"
    by (cases "j = i") (metis iff fi fun_upd_apply option.distinct(1) option.inject)+
qed

lemma inverse_maps_insert:
  assumes inv: "inverse_maps m f" and fi: "f i = None" and mk: "m k = None"
  shows "inverse_maps (m(k \<mapsto> i)) (f(i \<mapsto> k))"
  unfolding inverse_maps_def
proof (intro allI)
  fix k' j
  have "m k' = Some j \<longleftrightarrow> f j = Some k'" "m k = Some j \<longleftrightarrow> f j = Some k"
    using inv by (simp_all add: inverse_maps_def)
  then show "(m(k \<mapsto> i)) k' = Some j \<longleftrightarrow> (f(i \<mapsto> k)) j = Some k'"
    using fi mk by auto
qed

lemma find_unique:
  assumes "x \<in> set xs" and "P x" and "\<And>y. y \<in> set xs \<Longrightarrow> P y \<Longrightarrow> y = x"
  shows "List.find P xs = Some x"
proof (cases "List.find P xs")
  case None
  with assms(1,2) show ?thesis by (auto simp: find_None_iff)
next
  case (Some y)
  then have "y \<in> set xs" "P y" by (auto simp: find_Some_iff)
  with assms(3) Some show ?thesis by simp
qed

section \<open>Indices of a circular buffer\<close>

lemma mod_add_cancel_less:
  fixes r j k n :: nat
  assumes "j \<le> k" "k < n" "(r + j) mod n = (r + k) mod n"
  shows "j = k"
proof -
  have "n dvd (r + k) - (r + j)"
    using assms(1,3) by (subst mod_eq_dvd_iff_nat [symmetric]) auto
  then show ?thesis
    using assms(1,2) by (auto dest: dvd_imp_le)
qed

section \<open>64-bit words\<close>

lemma unat_sub_min:
  fixes a b :: "64 word"
  shows "unat (a - min a b) = unat a - min (unat a) (unat b)"
    and "unat (b - min a b) = unat b - min (unat a) (unat b)"
  by (auto simp: min_def unat_sub word_le_nat_alt)

lemma unat_min: "unat (min a b) = min (unat a) (unat (b :: 64 word))"
  by (simp add: min_def word_le_nat_alt)

lemma sub_min_zero:
  fixes a b :: "64 word"
  shows "a - min a b = 0 \<longleftrightarrow> a \<le> b" and "b - min a b = 0 \<longleftrightarrow> b \<le> a"
  by (auto simp: min_def)

lemma word64_pos [simp]: "0 < (w :: 64 word) \<longleftrightarrow> w \<noteq> 0"
  using word_gt_0 [of w] by simp

lemma of_nat64_eq_0: "n < 2 ^ 64 \<Longrightarrow> (of_nat n :: 64 word) = 0 \<longleftrightarrow> n = 0"
  by (auto simp: word_of_nat_eq_0_iff dest: dvd_imp_le)

end
