(* ===== verification/Types.thy ===== *)
theory Types
  imports Prelude
begin

text \<open>
  The vocabulary of the exchange: the scalar types and enumerations of Common/types.h, the
  request, response and market-data records of order_request.h, order_response.h and
  market_update.h, and their text renderings (\<open>toString\<close>).

  Unsigned 64-bit fields are \<open>64 word\<close>. A \<open>Price\<close> (int64) and a \<open>Nanos\<close> (int64) are \<open>int\<close>:
  the code compares, copies and prints prices and times, so no operation can leave the 64-bit
  range; the only arithmetic on them is the difference of two clock readings in the snapshot timer.
\<close>

section \<open>Scalars (Common/types.h)\<close>

type_synonym OrderId = "64 word"
type_synonym ClientId = "64 word"
type_synonym Price = int
type_synonym Qty = "64 word"
type_synonym Symbol = string
type_synonym Nanos = int

definition Invalid_OrderId :: OrderId where "Invalid_OrderId = - 1"
definition Invalid_ClientId :: ClientId where "Invalid_ClientId = - 1"
definition Invalid_Price :: Price where "Invalid_Price = - (2 ^ 63)"
definition Invalid_Qty :: Qty where "Invalid_Qty = - 1"
definition Invalid_Nanos :: Nanos where "Invalid_Nanos = 2 ^ 63 - 1"

definition NANOS_TO_MICROS :: Nanos where "NANOS_TO_MICROS = 1000"
definition MICROS_TO_MILLIS :: Nanos where "MICROS_TO_MILLIS = 1000"
definition MILLIS_TO_SECS :: Nanos where "MILLIS_TO_SECS = 1000"
definition NANOS_TO_MILLIS :: Nanos where "NANOS_TO_MILLIS = NANOS_TO_MICROS * MICROS_TO_MILLIS"
definition NANOS_TO_SECS :: Nanos where "NANOS_TO_SECS = NANOS_TO_MILLIS * MILLIS_TO_SECS"

datatype Side = Side_INVALID | BUY | SELL

fun sideToString :: "Side \<Rightarrow> string" where
  "sideToString BUY = ''BUY''"
| "sideToString SELL = ''SELL''"
| "sideToString Side_INVALID = ''INVALID''"

datatype OrderType = OT_INVALID | LIMIT | MARKET | IOC | CANCEL | MODIFY

fun orderTypeToString :: "OrderType \<Rightarrow> string" where
  "orderTypeToString LIMIT = ''LIMIT''"
| "orderTypeToString MARKET = ''MARKET''"
| "orderTypeToString IOC = ''IOC''"
| "orderTypeToString CANCEL = ''CANCEL''"
| "orderTypeToString MODIFY = ''MODIFY''"
| "orderTypeToString OT_INVALID = ''INVALID''"

section \<open>Decimal rendering of integers (operator<< on a stream)\<close>

fun show_nat :: "nat \<Rightarrow> string" where
  "show_nat n =
     (if n < 10 then [char_of (48 + n)] else show_nat (n div 10) @ [char_of (48 + n mod 10)])"

declare show_nat.simps [simp del]

definition show_u64 :: "64 word \<Rightarrow> string" where
  "show_u64 w = show_nat (unat w)"

definition show_i64 :: "int \<Rightarrow> string" where
  "show_i64 i = (if i < 0 then ''-'' @ show_nat (nat (- i)) else show_nat (nat i))"

section \<open>Requests (order_request.h)\<close>

record EngineOrderRequest =
  req_order_type :: OrderType
  req_client_id :: ClientId
  req_symbol :: Symbol
  req_order_id :: OrderId
  req_side :: Side
  req_price :: Price
  req_qty :: Qty
  req_recv_time :: Nanos

definition EngineOrderRequest_toString :: "EngineOrderRequest \<Rightarrow> string" where
  "EngineOrderRequest_toString r =
     ''EngineOrderRequest ['' @ ''type:'' @ orderTypeToString (req_order_type r)
     @ '' client:'' @ show_u64 (req_client_id r)
     @ '' symbol:'' @ req_symbol r
     @ '' oid:'' @ show_u64 (req_order_id r)
     @ '' side:'' @ sideToString (req_side r)
     @ '' qty:'' @ show_u64 (req_qty r)
     @ '' price:'' @ show_i64 (req_price r)
     @ '' rx:'' @ show_i64 (req_recv_time r) @ '']''"

section \<open>Responses (order_response.h)\<close>

datatype ResponseStatus =
    RS_INVALID | ACCEPTED | REJECTED | FILLED | CANCELED | CANCEL_REJECTED | MODIFIED | MODIFY_REJECTED

fun responseStatusToString :: "ResponseStatus \<Rightarrow> string" where
  "responseStatusToString ACCEPTED = ''ACCEPTED''"
| "responseStatusToString REJECTED = ''REJECTED''"
| "responseStatusToString FILLED = ''FILLED''"
| "responseStatusToString CANCELED = ''CANCELED''"
| "responseStatusToString CANCEL_REJECTED = ''CANCEL_REJECTED''"
| "responseStatusToString MODIFIED = ''MODIFIED''"
| "responseStatusToString MODIFY_REJECTED = ''MODIFY_REJECTED''"
| "responseStatusToString RS_INVALID = ''INVALID''"

record EngineOrderResponse =
  rsp_status :: ResponseStatus
  rsp_client_id :: ClientId
  rsp_symbol :: Symbol
  rsp_client_order_id :: OrderId
  rsp_market_order_id :: OrderId
  rsp_side :: Side
  rsp_price :: Price
  rsp_exec_qty :: Qty
  rsp_leaves_qty :: Qty

text \<open>Aggregate initialisation of a response, in field order.\<close>

definition mk_response ::
  "ResponseStatus \<Rightarrow> ClientId \<Rightarrow> Symbol \<Rightarrow> OrderId \<Rightarrow> OrderId \<Rightarrow> Side \<Rightarrow> Price \<Rightarrow> Qty \<Rightarrow> Qty
     \<Rightarrow> EngineOrderResponse" where
  "mk_response st cid sy coid moid sd pr ex lv =
     \<lparr>rsp_status = st, rsp_client_id = cid, rsp_symbol = sy, rsp_client_order_id = coid,
      rsp_market_order_id = moid, rsp_side = sd, rsp_price = pr, rsp_exec_qty = ex,
      rsp_leaves_qty = lv\<rparr>"

lemma mk_response_simps [simp]:
  "rsp_status (mk_response st cid sy coid moid sd pr ex lv) = st"
  "rsp_client_id (mk_response st cid sy coid moid sd pr ex lv) = cid"
  "rsp_symbol (mk_response st cid sy coid moid sd pr ex lv) = sy"
  "rsp_client_order_id (mk_response st cid sy coid moid sd pr ex lv) = coid"
  "rsp_market_order_id (mk_response st cid sy coid moid sd pr ex lv) = moid"
  "rsp_side (mk_response st cid sy coid moid sd pr ex lv) = sd"
  "rsp_price (mk_response st cid sy coid moid sd pr ex lv) = pr"
  "rsp_exec_qty (mk_response st cid sy coid moid sd pr ex lv) = ex"
  "rsp_leaves_qty (mk_response st cid sy coid moid sd pr ex lv) = lv"
  by (simp_all add: mk_response_def)

definition EngineOrderResponse_toString :: "EngineOrderResponse \<Rightarrow> string" where
  "EngineOrderResponse_toString r =
     ''EngineOrderResponse ['' @ ''status:'' @ responseStatusToString (rsp_status r)
     @ '' client:'' @ show_u64 (rsp_client_id r)
     @ '' symbol:'' @ rsp_symbol r
     @ '' coid:'' @ show_u64 (rsp_client_order_id r)
     @ '' moid:'' @ show_u64 (rsp_market_order_id r)
     @ '' side:'' @ sideToString (rsp_side r)
     @ '' exec:'' @ show_u64 (rsp_exec_qty r)
     @ '' leaves:'' @ show_u64 (rsp_leaves_qty r)
     @ '' price:'' @ show_i64 (rsp_price r) @ '']''"

section \<open>Market data (market_update.h)\<close>

datatype MarketUpdateType = MU_INVALID | MU_ADD | MU_MODIFY | MU_CANCEL | MU_TRADE

fun marketUpdateTypeToString :: "MarketUpdateType \<Rightarrow> string" where
  "marketUpdateTypeToString MU_ADD = ''ADD''"
| "marketUpdateTypeToString MU_MODIFY = ''MODIFY''"
| "marketUpdateTypeToString MU_CANCEL = ''CANCEL''"
| "marketUpdateTypeToString MU_TRADE = ''TRADE''"
| "marketUpdateTypeToString MU_INVALID = ''INVALID''"

record BookUpdate =
  upd_type :: MarketUpdateType
  upd_order_id :: OrderId
  upd_symbol :: Symbol
  upd_side :: Side
  upd_price :: Price
  upd_qty :: Qty

definition mk_update ::
  "MarketUpdateType \<Rightarrow> OrderId \<Rightarrow> Symbol \<Rightarrow> Side \<Rightarrow> Price \<Rightarrow> Qty \<Rightarrow> BookUpdate" where
  "mk_update ty oid sy sd pr q =
     \<lparr>upd_type = ty, upd_order_id = oid, upd_symbol = sy, upd_side = sd, upd_price = pr,
      upd_qty = q\<rparr>"

lemma mk_update_simps [simp]:
  "upd_type (mk_update ty oid sy sd pr q) = ty"
  "upd_order_id (mk_update ty oid sy sd pr q) = oid"
  "upd_symbol (mk_update ty oid sy sd pr q) = sy"
  "upd_side (mk_update ty oid sy sd pr q) = sd"
  "upd_price (mk_update ty oid sy sd pr q) = pr"
  "upd_qty (mk_update ty oid sy sd pr q) = q"
  by (simp_all add: mk_update_def)

definition BookUpdate_toString :: "BookUpdate \<Rightarrow> string" where
  "BookUpdate_toString u =
     ''BookUpdate ['' @ ''type:'' @ marketUpdateTypeToString (upd_type u)
     @ '' oid:'' @ show_u64 (upd_order_id u)
     @ '' symbol:'' @ upd_symbol u
     @ '' side:'' @ sideToString (upd_side u)
     @ '' qty:'' @ show_u64 (upd_qty u)
     @ '' price:'' @ show_i64 (upd_price u) @ '']''"

end
