(* ===== verification/LFQueue.thy ===== *)
theory LFQueue
  imports Prelude
begin

text \<open>
  The ring buffer of Common/lock_free_queue.h, seen by one producer and one consumer whose
  operations do not overlap. The operations are translated as they are written: nothing in
  them checks that a slot is free before it is overwritten. A queue represents the list
  \<open>contents\<close> of its unread elements as long as it holds at most as many elements as it has
  slots; the locale \<open>fifo\<close> states the contract its clients rely on, and the drain loop that
  four components share is verified once inside it.
\<close>

section \<open>The ring buffer\<close>

record 'a LFQueue =
  q_store :: "'a list"
  next_write_index :: nat
  next_read_index :: nat
  num_elements :: nat

definition new_LFQueue :: "nat \<Rightarrow> 'a \<Rightarrow> 'a LFQueue" where
  "new_LFQueue num_elems dflt =
     \<lparr>q_store = replicate num_elems dflt, next_write_index = 0, next_read_index = 0,
      num_elements = 0\<rparr>"

text \<open>Assignment through the pointer \<open>getNextToWriteTo()\<close> returns.\<close>

definition writeNext :: "'a \<Rightarrow> 'a LFQueue \<Rightarrow> 'a LFQueue" where
  "writeNext v q = q\<lparr>q_store := (q_store q)[next_write_index q := v]\<rparr>"

definition updateWriteIndex :: "'a LFQueue \<Rightarrow> 'a LFQueue" where
  "updateWriteIndex q =
     q\<lparr>next_write_index := (next_write_index q + 1) mod length (q_store q),
       num_elements := num_elements q + 1\<rparr>"

definition qsize :: "'a LFQueue \<Rightarrow> nat" where
  "qsize q = num_elements q"

definition getNextToRead :: "'a LFQueue \<Rightarrow> 'a option" where
  "getNextToRead q = (if qsize q \<noteq> 0 then Some (q_store q ! next_read_index q) else None)"

definition updateReadIndex :: "'a LFQueue \<Rightarrow> 'a LFQueue result" where
  "updateReadIndex q =
     (let q' = q\<lparr>next_read_index := (next_read_index q + 1) mod length (q_store q)\<rparr>
      in if num_elements q' \<noteq> 0 then Inr (q'\<lparr>num_elements := num_elements q' - 1\<rparr>)
         else Inl QueueInvalidRead)"

text \<open>The producer idiom \<open>*(q.getNextToWriteTo()) = v; q.updateWriteIndex();\<close>\<close>

definition push :: "'a \<Rightarrow> 'a LFQueue \<Rightarrow> 'a LFQueue" where
  "push v q = updateWriteIndex (writeNext v q)"

definition push_all :: "'a list \<Rightarrow> 'a LFQueue \<Rightarrow> 'a LFQueue" where
  "push_all vs q = foldl (\<lambda>q v. push v q) q vs"

text \<open>
  The consumer idiom shared by \<open>Logger::flushQueue\<close>, \<open>OrderGatewayServer::drainResponses\<close>,
  \<open>MarketDataFeed::run\<close> and \<open>BookSnapshotService::run\<close>: read the next element, run the body on
  it, advance the read index, until the queue is empty. The fuel bounds the iterations.
\<close>

fun drain_with ::
  "('q \<Rightarrow> 'a option) \<Rightarrow> ('q \<Rightarrow> 'q result) \<Rightarrow> ('a \<Rightarrow> 's \<Rightarrow> 's) \<Rightarrow> nat \<Rightarrow> 'q \<Rightarrow> 's \<Rightarrow> ('q \<times> 's) result"
where
  "drain_with peek adv body 0 q s = (if peek q = None then Inr (q, s) else Inl OutOfFuel)"
| "drain_with peek adv body (Suc fuel) q s =
     (case peek q of
        None \<Rightarrow> Inr (q, s)
      | Some x \<Rightarrow> rbind (adv q) (\<lambda>q'. drain_with peek adv body fuel q' (body x s)))"

definition drain :: "('a \<Rightarrow> 's \<Rightarrow> 's) \<Rightarrow> 'a LFQueue \<Rightarrow> 's \<Rightarrow> ('a LFQueue \<times> 's) result" where
  "drain body q s = drain_with getNextToRead updateReadIndex body (qsize q) q s"

section \<open>What a queue represents\<close>

definition capacity :: "'a LFQueue \<Rightarrow> nat" where
  "capacity q = length (q_store q)"

definition contents :: "'a LFQueue \<Rightarrow> 'a list" where
  "contents q =
     map (\<lambda>k. q_store q ! ((next_read_index q + k) mod capacity q)) [0..<num_elements q]"

definition queue_inv :: "'a LFQueue \<Rightarrow> bool" where
  "queue_inv q \<longleftrightarrow> 0 < capacity q \<and> next_read_index q < capacity q \<and>
     num_elements q \<le> capacity q \<and>
     next_write_index q = (next_read_index q + num_elements q) mod capacity q"

definition read_inv :: "'a LFQueue \<Rightarrow> bool" where
  "read_inv q \<longleftrightarrow> next_read_index q < capacity q"

definition has_room :: "'a LFQueue \<Rightarrow> bool" where
  "has_room q \<longleftrightarrow> num_elements q < capacity q"

lemma queue_inv_read_inv [intro]: "queue_inv q \<Longrightarrow> read_inv q"
  by (simp add: queue_inv_def read_inv_def)

lemma queue_inv_LFQueue [simp]: "0 < n \<Longrightarrow> queue_inv (new_LFQueue n d)"
  by (simp add: queue_inv_def new_LFQueue_def capacity_def)

lemma contents_LFQueue [simp]: "contents (new_LFQueue n d) = []"
  by (simp add: contents_def new_LFQueue_def)

lemma num_elements_LFQueue [simp]: "num_elements (new_LFQueue n d) = 0"
  by (simp add: new_LFQueue_def)

lemma capacity_simps [simp]:
  "capacity (new_LFQueue n d) = n"
  "capacity (push v q) = capacity q"
  by (simp_all add: capacity_def new_LFQueue_def push_def writeNext_def updateWriteIndex_def)

lemma length_contents [simp]: "length (contents q) = num_elements q"
  by (simp add: contents_def)

lemma contents_empty: "contents q = [] \<longleftrightarrow> num_elements q = 0"
  by (simp flip: length_0_conv)

lemma num_elements_push [simp]: "num_elements (push v q) = num_elements q + 1"
  by (simp add: push_def writeNext_def updateWriteIndex_def)

lemma contents_push:
  assumes "queue_inv q" and "has_room q"
  shows "contents (push v q) = contents q @ [v]"
proof -
  let ?n = "capacity q" and ?r = "next_read_index q" and ?k = "num_elements q"
  have w: "next_write_index q = (?r + ?k) mod ?n" and n: "0 < ?n" and k: "?k < ?n"
    using assms by (auto simp: queue_inv_def has_room_def)
  have other: "(q_store q)[next_write_index q := v] ! ((?r + j) mod ?n) = q_store q ! ((?r + j) mod ?n)"
    if "j < ?k" for j
  proof (rule nth_list_update_neq)
    show "next_write_index q \<noteq> (?r + j) mod ?n"
      using that k w mod_add_cancel_less [of j ?k ?n ?r] by auto
  qed
  have "next_write_index q < length (q_store q)"
    using w n by (simp add: capacity_def)
  then have own: "(q_store q)[next_write_index q := v] ! ((?r + ?k) mod ?n) = v"
    using w by simp
  show ?thesis
    using other own
    by (auto simp: contents_def push_def writeNext_def updateWriteIndex_def capacity_def)
qed

lemma queue_inv_push: "queue_inv q \<Longrightarrow> has_room q \<Longrightarrow> queue_inv (push v q)"
  by (auto simp: queue_inv_def has_room_def push_def writeNext_def updateWriteIndex_def capacity_def
      mod_Suc_eq)

lemma contents_Cons:
  assumes "read_inv q" and "num_elements q \<noteq> 0"
  shows "contents q = q_store q ! next_read_index q #
    map (\<lambda>k. q_store q ! ((next_read_index q + k) mod capacity q)) [1..<num_elements q]"
  using assms by (auto simp: contents_def read_inv_def upt_conv_Cons)

lemma getNextToRead_contents:
  "read_inv q \<Longrightarrow> getNextToRead q = (case contents q of [] \<Rightarrow> None | x # _ \<Rightarrow> Some x)"
  by (cases "num_elements q = 0")
    (auto simp: getNextToRead_def qsize_def contents_Cons, simp add: contents_def)

lemma updateReadIndex_eq:
  assumes "num_elements q \<noteq> 0"
  shows "updateReadIndex q = Inr (q\<lparr>next_read_index := (next_read_index q + 1) mod capacity q,
    num_elements := num_elements q - 1\<rparr>)"
  using assms by (simp add: updateReadIndex_def Let_def capacity_def)

lemma updateReadIndex_contents:
  assumes "read_inv q" and "contents q = x # xs"
  shows "\<exists>q'. updateReadIndex q = Inr q' \<and> contents q' = xs \<and> read_inv q'"
proof -
  let ?n = "capacity q" and ?r = "next_read_index q" and ?k = "num_elements q"
  let ?q = "q\<lparr>next_read_index := (?r + 1) mod ?n, num_elements := ?k - 1\<rparr>"
  have k: "?k \<noteq> 0"
    using assms(2) length_contents [of q] by auto
  then have "[1..<?k] = map Suc [0..<?k - 1]"
    by (simp add: map_Suc_upt)
  then have "contents ?q = map (\<lambda>j. q_store q ! ((?r + j) mod ?n)) [1..<?k]"
    by (simp add: contents_def capacity_def mod_add_left_eq mod_Suc_eq)
  then have "contents ?q = xs"
    using contents_Cons [OF assms(1) k] assms(2) by simp
  moreover have "read_inv ?q"
    using assms(1) by (auto simp: read_inv_def capacity_def intro: mod_less_divisor)
  ultimately show ?thesis
    using updateReadIndex_eq [OF k] by blast
qed

lemma updateReadIndex_inv:
  assumes "queue_inv q" and "updateReadIndex q = Inr q'"
  shows "queue_inv q' \<and> capacity q' = capacity q"
proof (cases "num_elements q")
  case 0
  with assms(2) show ?thesis by (simp add: updateReadIndex_def)
next
  case (Suc k)
  with assms show ?thesis
    by (auto simp: updateReadIndex_eq queue_inv_def capacity_def mod_add_left_eq)
qed

section \<open>The queue contract and its clients\<close>

text \<open>
  What a producer and a consumer rely on: a write to a queue with room appends, the next
  element to read is the oldest one, and advancing drops exactly that one.
\<close>

locale fifo =
  fixes enq :: "'a \<Rightarrow> 'q \<Rightarrow> 'q"
    and peek :: "'q \<Rightarrow> 'a option"
    and adv :: "'q \<Rightarrow> 'q result"
    and elems :: "'q \<Rightarrow> 'a list"
    and invar :: "'q \<Rightarrow> bool"
    and room :: "'q \<Rightarrow> bool"
  assumes elems_enq: "invar q \<Longrightarrow> room q \<Longrightarrow> elems (enq x q) = elems q @ [x]"
    and invar_enq: "invar q \<Longrightarrow> room q \<Longrightarrow> invar (enq x q)"
    and peek_elems: "invar q \<Longrightarrow> peek q = (case elems q of [] \<Rightarrow> None | x # _ \<Rightarrow> Some x)"
    and adv_elems: "invar q \<Longrightarrow> elems q = x # xs \<Longrightarrow>
      \<exists>q'. adv q = Inr q' \<and> elems q' = xs \<and> invar q'"
begin

lemma drain_all:
  "invar q \<Longrightarrow> length (elems q) \<le> fuel \<Longrightarrow>
     \<exists>q'. drain_with peek adv body fuel q s = Inr (q', fold body (elems q) s) \<and> elems q' = [] \<and> invar q'"
proof (induction fuel arbitrary: q s)
  case 0
  then show ?case by (simp add: peek_elems)
next
  case (Suc fuel)
  show ?case
  proof (cases "elems q")
    case Nil
    with Suc.prems show ?thesis by (simp add: peek_elems)
  next
    case (Cons x xs)
    then obtain q' where q': "adv q = Inr q'" "elems q' = xs" "invar q'"
      using adv_elems [OF Suc.prems(1)] by blast
    with Suc.prems Cons Suc.IH [of q' "body x s"] show ?thesis
      by (auto simp: peek_elems)
  qed
qed

end

text \<open>A bounded queue: room is a number of slots that no operation changes.\<close>

locale bounded_fifo = fifo enq peek adv elems invar room
  for enq :: "'a \<Rightarrow> 'q \<Rightarrow> 'q" and peek adv elems invar room +
  fixes slots :: "'q \<Rightarrow> nat"
  assumes room_iff: "invar q \<Longrightarrow> room q \<longleftrightarrow> length (elems q) < slots q"
    and slots_enq: "slots (enq x q) = slots q"
begin

lemma enq_many:
  "invar q \<Longrightarrow> length (elems q) + length xs \<le> slots q \<Longrightarrow>
     elems (foldl (\<lambda>q x. enq x q) q xs) = elems q @ xs \<and> invar (foldl (\<lambda>q x. enq x q) q xs)"
proof (induction xs arbitrary: q)
  case Nil
  then show ?case by simp
next
  case (Cons x xs)
  then have "room q" by (simp add: room_iff)
  with Cons show ?case
    using Cons.IH [of "enq x q"] by (simp add: elems_enq invar_enq slots_enq)
qed

text \<open>What a batch of writes followed by a drain delivers.\<close>

lemma enq_many_drain:
  assumes "invar q" and "elems q = []" and "length xs \<le> slots q" and "length xs \<le> fuel"
  shows "\<exists>q'. drain_with peek adv body fuel (foldl (\<lambda>q x. enq x q) q xs) s = Inr (q', fold body xs s)
    \<and> elems q' = [] \<and> invar q'"
  using enq_many [of q xs] drain_all [of "foldl (\<lambda>q x. enq x q) q xs" fuel body s] assms by auto

end

interpretation ring: bounded_fifo push getNextToRead updateReadIndex contents queue_inv has_room capacity
proof (unfold_locales, goal_cases)
  case (4 q x xs)
  then show ?case
    using updateReadIndex_contents [OF queue_inv_read_inv [OF 4(1)] 4(2)] updateReadIndex_inv [OF 4(1)]
    by auto
qed (auto simp: contents_push queue_inv_push getNextToRead_contents queue_inv_read_inv has_room_def)

text \<open>The consumer's half of the contract needs no bound on the number of elements.\<close>

interpretation reader: fifo push getNextToRead updateReadIndex contents read_inv "\<lambda>_. False"
  by unfold_locales (simp_all add: getNextToRead_contents updateReadIndex_contents)

lemma push_all_contents [queue_simps]:
  "queue_inv q \<Longrightarrow> num_elements q + length vs \<le> capacity q \<Longrightarrow> contents (push_all vs q) = contents q @ vs"
  using ring.enq_many [of q vs] by (simp add: push_all_def)

lemma push_all_inv [queue_simps]:
  "queue_inv q \<Longrightarrow> num_elements q + length vs \<le> capacity q \<Longrightarrow> queue_inv (push_all vs q)"
  using ring.enq_many [of q vs] by (simp add: push_all_def)

lemma push_all_simps [simp]:
  "push_all [] q = q"
  "push_all (v # vs) q = push_all vs (push v q)"
  "push_all (vs @ ws) q = push_all ws (push_all vs q)"
  by (simp_all add: push_all_def)

lemma push_all_capacity [simp]: "capacity (push_all vs q) = capacity q"
  by (induction vs arbitrary: q) auto

lemma push_all_num [simp]: "num_elements (push_all vs q) = num_elements q + length vs"
  by (induction vs arbitrary: q) auto

lemma drain_contents:
  "read_inv q \<Longrightarrow> \<exists>q'. drain body q s = Inr (q', fold body (contents q) s) \<and> contents q' = []"
  using reader.drain_all [of q "num_elements q" body s] by (auto simp: drain_def qsize_def)

lemma drain_contents_inv:
  "queue_inv q \<Longrightarrow> \<exists>q'. drain body q s = Inr (q', fold body (contents q) s) \<and> contents q' = [] \<and> queue_inv q'"
  using ring.drain_all [of q "num_elements q" body s] by (simp add: drain_def qsize_def)

lemma fold_snoc [simp]: "fold (\<lambda>x out. out @ [x]) xs acc = acc @ xs"
  by (induction xs arbitrary: acc) auto

lemma contents_push_full:
  assumes "queue_inv q" and "num_elements q = capacity q" and "contents q = x # xs"
  shows "contents (push v q) = v # xs @ [v]" and "read_inv (push v q)"
proof -
  let ?n = "capacity q" and ?r = "next_read_index q"
  have n: "0 < ?n" "?r < ?n" and w: "next_write_index q = ?r"
    using assms by (auto simp: queue_inv_def)
  have xs: "xs = map (\<lambda>k. q_store q ! ((?r + k) mod ?n)) [1..<?n]"
    using contents_Cons [of q] assms n(1) by auto
  have other: "(q_store q)[?r := v] ! ((?r + k) mod ?n) = q_store q ! ((?r + k) mod ?n)"
    if "k \<in> set [1..<?n]" for k
  proof (rule nth_list_update_neq)
    show "?r \<noteq> (?r + k) mod ?n"
      using that n mod_add_cancel_less [of 0 k ?n ?r] by auto
  qed
  have "[0..<Suc ?n] = 0 # [1..<?n] @ [?n]"
    using n(1) by (simp add: upt_conv_Cons)
  then show "contents (push v q) = v # xs @ [v]"
    using w n other xs assms(2)
    by (auto simp: contents_def push_def writeNext_def updateWriteIndex_def capacity_def)
  show "read_inv (push v q)"
    using n(2) by (simp add: read_inv_def capacity_def push_def writeNext_def updateWriteIndex_def)
qed

section \<open>Properties\<close>

text \<open>
  The ring buffer is a first-in first-out channel: any batch that fits into the free slots
  of a well-formed queue is delivered by a later drain, completely, once and in order, after
  the elements that were already waiting, and leaves the queue empty.
\<close>

lemma ring_delivers_in_order:
  assumes "queue_inv q" and "num_elements q + length vs \<le> capacity q"
  shows "\<exists>q'. drain (\<lambda>x out. out @ [x]) (push_all vs q) [] = Inr (q', contents q @ vs) \<and>
    contents q' = [] \<and> queue_inv q'"
  using drain_contents_inv [of "push_all vs q" "\<lambda>x out. out @ [x]" "[]"] assms
  by (simp add: queue_simps)

text \<open>
  C35 A write to a full ring buffer is neither refused nor reported: it replaces the oldest
  unread element, so that element is never delivered; the consumer reads the newest element
  first, ahead of older ones, and reads it a second time at the end.
\<close>

theorem ring_overflow_loses_oldest:
  assumes "queue_inv q" and "num_elements q = capacity q" and "contents q = x # xs"
  shows "\<exists>q'. drain (\<lambda>y out. out @ [y]) (push v q) [] = Inr (q', v # xs @ [v]) \<and> contents q' = []"
  using drain_contents [OF contents_push_full(2) [OF assms, of v], of "\<lambda>y out. out @ [y]" "[]"]
    contents_push_full(1) [OF assms, of v] by simp

theorem ring_overflow_loses_oldest_witness:
  "\<exists>q'. drain (\<lambda>y out. out @ [y]) (push (9::nat) (push_all [7, 8] (new_LFQueue 2 0))) [] =
     Inr (q', [9, 8, 9]) \<and> contents q' = []"
proof -
  have n: "num_elements (new_LFQueue 2 (0::nat)) = 0" by (simp add: new_LFQueue_def)
  have "contents (push_all [7, 8] (new_LFQueue 2 (0::nat))) = [7, 8]"
    using n by (subst push_all_contents) simp_all
  moreover have "queue_inv (push_all [7, 8] (new_LFQueue 2 (0::nat)))"
    using n by (intro push_all_inv) simp_all
  ultimately show ?thesis
    using ring_overflow_loses_oldest [of "push_all [7, 8] (new_LFQueue 2 (0::nat))" 7 "[8]" 9] n
    by simp
qed

end
