(* ===== verification/MemPool.thy ===== *)
theory MemPool
  imports Prelude
begin

text \<open>
  The fixed-size pool allocator of Common/memory_pool.h. A pointer into a pool is the index of
  its block. \<open>live\<close> is the heap a pool represents: the objects of the blocks in use. The locale
  \<open>allocator\<close> is the contract the order book relies on; its interpretation discharges it for
  the translated operations.
\<close>

section \<open>The pool\<close>

record 'a ObjectBlock =
  blk_object :: 'a
  is_free :: bool

record 'a MemPool =
  p_store :: "'a ObjectBlock list"
  next_free_index :: nat

definition new_MemPool :: "nat \<Rightarrow> 'a \<Rightarrow> 'a MemPool" where
  "new_MemPool num_elems dflt =
     \<lparr>p_store = replicate num_elems \<lparr>blk_object = dflt, is_free = True\<rparr>, next_free_index = 0\<rparr>"

text \<open>
  The search loop of \<open>updateNextFreeIndex\<close>: step to the next block, wrapping round at the end,
  until a free one is found; coming back to the starting block means that the pool is full.
\<close>

fun next_free_loop :: "'a ObjectBlock list \<Rightarrow> nat \<Rightarrow> nat \<Rightarrow> nat \<Rightarrow> nat result" where
  "next_free_loop st initial 0 i = Inl OutOfFuel"
| "next_free_loop st initial (Suc fuel) i =
     (if is_free (st ! i) then Inr i
      else let i' = (if i + 1 = length st then 0 else i + 1)
           in if initial = i' then Inl PoolOutOfSpace else next_free_loop st initial fuel i')"

definition updateNextFreeIndex :: "'a MemPool \<Rightarrow> 'a MemPool result" where
  "updateNextFreeIndex p =
     rbind (next_free_loop (p_store p) (next_free_index p) (length (p_store p)) (next_free_index p))
       (\<lambda>i. Inr (p\<lparr>next_free_index := i\<rparr>))"

definition allocate :: "'a \<Rightarrow> 'a MemPool \<Rightarrow> (nat \<times> 'a MemPool) result" where
  "allocate x p =
     (let i = next_free_index p in
      if \<not> is_free (p_store p ! i) then Inl PoolBlockNotFree
      else rbind (updateNextFreeIndex
                    (p\<lparr>p_store := (p_store p)[i := \<lparr>blk_object = x, is_free = False\<rparr>]\<rparr>))
             (\<lambda>p'. Inr (i, p')))"

definition deallocate :: "nat \<Rightarrow> 'a MemPool \<Rightarrow> 'a MemPool result" where
  "deallocate i p =
     (if \<not> i < length (p_store p) then Inl PoolForeignElement
      else if is_free (p_store p ! i) then Inl PoolDoubleFree
      else Inr (p\<lparr>p_store := (p_store p)[i := (p_store p ! i)\<lparr>is_free := True\<rparr>]\<rparr>))"

section \<open>The heap of a pool\<close>

definition live :: "'a MemPool \<Rightarrow> nat \<rightharpoonup> 'a" where
  "live p i =
     (if i < length (p_store p) \<and> \<not> is_free (p_store p ! i) then Some (blk_object (p_store p ! i))
      else None)"

definition pool_size :: "'a MemPool \<Rightarrow> nat" where
  "pool_size p = length (p_store p)"

text \<open>Between operations the next block to hand out exists and is free.\<close>

definition pool_inv :: "'a MemPool \<Rightarrow> bool" where
  "pool_inv p \<longleftrightarrow> next_free_index p < pool_size p \<and> live p (next_free_index p) = None"

text \<open>A store through a pointer into the pool.\<close>

definition pool_write :: "nat \<Rightarrow> 'a \<Rightarrow> 'a MemPool \<Rightarrow> 'a MemPool" where
  "pool_write i x p = p\<lparr>p_store := (p_store p)[i := (p_store p ! i)\<lparr>blk_object := x\<rparr>]\<rparr>"

lemma live_MemPool [simp]: "live (new_MemPool n d) = Map.empty"
  by (auto simp: live_def new_MemPool_def)

lemma pool_size_simps [simp]:
  "pool_size (new_MemPool n d) = n"
  "pool_size (pool_write i x p) = pool_size p"
  by (simp_all add: pool_size_def new_MemPool_def pool_write_def)

lemma pool_inv_MemPool [simp]: "0 < n \<Longrightarrow> pool_inv (new_MemPool n d)"
  by (simp add: pool_inv_def) (simp add: new_MemPool_def)

lemma live_pool_write [pool_simps]:
  "live p i \<noteq> None \<Longrightarrow> live (pool_write i x p) = (live p)(i \<mapsto> x)"
  by (auto simp: live_def pool_write_def nth_list_update fun_eq_iff split: if_splits)

lemma pool_inv_write [pool_simps]:
  "live p i \<noteq> None \<Longrightarrow> pool_inv (pool_write i x p) = pool_inv p"
  by (auto simp: pool_inv_def live_pool_write) (auto simp: pool_write_def)

lemma dom_live: "dom (live p) = {i. i < pool_size p \<and> \<not> is_free (p_store p ! i)}"
  by (auto simp: live_def pool_size_def split: if_splits)

lemma dom_live_sub: "dom (live p) \<subseteq> {..<pool_size p}"
  by (auto simp: dom_live)

lemma finite_dom_live [simp]: "finite (dom (live p))"
  by (rule finite_subset [OF dom_live_sub]) simp

lemma card_live_le: "card (dom (live p)) \<le> pool_size p"
  using card_mono [of "{..<pool_size p}" "dom (live p)"] dom_live_sub [of p] by simp

section \<open>The search for a free block\<close>

text \<open>
  The loop visits \<open>i, i + 1, \<dots>\<close> cyclically and stops before it reaches \<open>initial\<close> again. With
  \<open>d\<close> blocks still to be visited it needs at most \<open>d\<close> iterations.
\<close>

lemma next_free_loop_cases:
  assumes "i < length st" and "0 < d" and "d \<le> length st" and "initial = (i + d) mod length st"
    and "d \<le> fuel"
  shows "(\<exists>j. next_free_loop st initial fuel i = Inr j \<and> j < length st \<and> is_free (st ! j)) \<or>
    (next_free_loop st initial fuel i = Inl PoolOutOfSpace \<and>
     (\<forall>k<d. \<not> is_free (st ! ((i + k) mod length st))))"
  using assms
proof (induction fuel arbitrary: i d)
  case 0
  then show ?case by simp
next
  case (Suc fuel)
  let ?n = "length st"
  obtain e where d: "d = Suc e"
    using Suc.prems(2) by (cases d) auto
  define i' where "i' = (if i + 1 = ?n then 0 else i + 1)"
  have i': "i' = (i + 1) mod ?n" "i' < ?n"
    using Suc.prems(1) by (auto simp: i'_def)
  have shift: "(i' + k) mod ?n = (i + Suc k) mod ?n" for k
    by (simp add: i'(1) mod_add_left_eq)
  show ?case
  proof (cases "is_free (st ! i)")
    case True
    with Suc.prems show ?thesis by auto
  next
    case False
    have busy: "\<not> is_free (st ! ((i + k) mod ?n))" if "k = 0 \<or> (\<exists>j. k = Suc j \<and> \<not> is_free (st ! ((i' + j) mod ?n)))" for k
      using that False Suc.prems(1) shift by auto
    show ?thesis
    proof (cases "initial = i'")
      case True
      then have "e = 0"
        using mod_add_cancel_less [of 0 e ?n "i + 1"] Suc.prems(3,4) d i'(1) by simp
      with False True Suc.prems(1) d show ?thesis by (simp add: Let_def i'_def)
    next
      case ne: False
      then have "0 < e"
        using Suc.prems(4) d i'(1) by (cases e) auto
      moreover have "initial = (i' + e) mod ?n"
        using Suc.prems(4) d shift by simp
      ultimately have "(\<exists>j. next_free_loop st initial fuel i' = Inr j \<and> j < ?n \<and> is_free (st ! j)) \<or>
        (next_free_loop st initial fuel i' = Inl PoolOutOfSpace \<and>
         (\<forall>k<e. \<not> is_free (st ! ((i' + k) mod ?n))))"
        using Suc.IH [OF i'(2), of e] Suc.prems(3,5) d by simp
      moreover have "next_free_loop st initial (Suc fuel) i = next_free_loop st initial fuel i'"
        using False ne by (simp add: Let_def i'_def)
      moreover have "\<forall>k<d. \<not> is_free (st ! ((i + k) mod ?n))"
        if "\<forall>k<e. \<not> is_free (st ! ((i' + k) mod ?n))"
        using that busy d by (metis less_Suc_eq_0_disj)
      ultimately show ?thesis by auto
    qed
  qed
qed

lemma next_free_loop_full:
  assumes "i < length st"
  shows "(\<exists>j. next_free_loop st i (length st) i = Inr j \<and> j < length st \<and> is_free (st ! j)) \<or>
    (next_free_loop st i (length st) i = Inl PoolOutOfSpace \<and> (\<forall>j<length st. \<not> is_free (st ! j)))"
proof -
  let ?n = "length st"
  have "\<exists>k<?n. j = (i + k) mod ?n" if "j < ?n" for j
    using that assms by (intro exI [of _ "if i \<le> j then j - i else ?n - i + j"]) auto
  moreover have "i = (i + ?n) mod ?n" using assms by simp
  ultimately show ?thesis
    using next_free_loop_cases [of i st ?n i ?n] assms by (metis le_refl length_greater_0_conv list.size(3) not_less_zero)
qed

lemma updateNextFreeIndex_cases:
  assumes "next_free_index p < pool_size p"
  shows "(\<exists>j. updateNextFreeIndex p = Inr (p\<lparr>next_free_index := j\<rparr>) \<and> j < pool_size p \<and> live p j = None) \<or>
    (updateNextFreeIndex p = Inl PoolOutOfSpace \<and> dom (live p) = {..<pool_size p})"
proof -
  have none: "live p j = None \<longleftrightarrow> is_free (p_store p ! j)" if "j < pool_size p" for j
    using that by (simp add: live_def pool_size_def)
  have "(\<exists>j. updateNextFreeIndex p = Inr (p\<lparr>next_free_index := j\<rparr>) \<and> j < pool_size p \<and> live p j = None) \<or>
    (updateNextFreeIndex p = Inl PoolOutOfSpace \<and> (\<forall>j<pool_size p. live p j \<noteq> None))"
    using next_free_loop_full [of "next_free_index p" "p_store p"] assms none
    unfolding updateNextFreeIndex_def pool_size_def by auto
  moreover have "dom (live p) = {..<pool_size p}" if "\<forall>j<pool_size p. live p j \<noteq> None"
    using that dom_live_sub [of p] by blast
  ultimately show ?thesis by blast
qed

lemma live_next_free_index [simp]: "live (p\<lparr>next_free_index := j\<rparr>) = live p"
  by (simp add: live_def fun_eq_iff)

section \<open>The allocator contract\<close>

text \<open>
  What a client relies on. Allocation hands out a block that is not in use and initialises
  it; its only failure is exhaustion, which cannot happen while at least two blocks are free.
  Deallocation of a block in use always succeeds and touches no other block.
\<close>

locale allocator =
  fixes alloc :: "'a \<Rightarrow> 'p \<Rightarrow> (nat \<times> 'p) result"
    and dealloc :: "nat \<Rightarrow> 'p \<Rightarrow> 'p result"
    and heap :: "'p \<Rightarrow> nat \<rightharpoonup> 'a"
    and cap :: "'p \<Rightarrow> nat"
    and invar :: "'p \<Rightarrow> bool"
  assumes alloc_Inr: "invar p \<Longrightarrow> alloc x p = Inr (i, p') \<Longrightarrow>
      heap p i = None \<and> heap p' = (heap p)(i \<mapsto> x) \<and> invar p' \<and> cap p' = cap p"
    and alloc_Inl: "invar p \<Longrightarrow> alloc x p = Inl e \<Longrightarrow> e = PoolOutOfSpace \<and> card (dom (heap p)) + 1 = cap p"
    and alloc_exhausted: "invar p \<Longrightarrow> card (dom (heap p)) + 1 = cap p \<Longrightarrow> alloc x p = Inl PoolOutOfSpace"
    and dealloc_live: "invar p \<Longrightarrow> heap p i \<noteq> None \<Longrightarrow>
      \<exists>p'. dealloc i p = Inr p' \<and> heap p' = (heap p)(i := None) \<and> invar p' \<and> cap p' = cap p"
    and heap_bounded: "invar p \<Longrightarrow> finite (dom (heap p)) \<and> card (dom (heap p)) < cap p"
begin

lemma alloc_succeeds:
  assumes "invar p" and "card (dom (heap p)) + 1 < cap p"
  shows "\<exists>i p'. alloc x p = Inr (i, p') \<and> heap p i = None \<and> heap p' = (heap p)(i \<mapsto> x) \<and>
    invar p' \<and> cap p' = cap p"
proof (cases "alloc x p")
  case (Inl e)
  then show ?thesis using alloc_Inl [OF assms(1)] assms(2) by force
next
  case (Inr r)
  then show ?thesis using alloc_Inr [OF assms(1)] by (cases r) blast
qed

lemma alloc_dealloc_roundtrip:
  assumes "invar p" and "alloc x p = Inr (i, p')"
  shows "\<exists>p''. dealloc i p' = Inr p'' \<and> heap p'' = heap p \<and> invar p''"
proof -
  have fresh: "heap p i = None" and heap': "heap p' = (heap p)(i \<mapsto> x)" and inv': "invar p'"
    using alloc_Inr [OF assms] by auto
  then obtain p'' where "dealloc i p' = Inr p''" "heap p'' = (heap p')(i := None)" "invar p''"
    using dealloc_live [OF inv', of i] by auto
  with fresh heap' show ?thesis by (auto simp: fun_eq_iff)
qed

end

lemma allocate_cases:
  assumes "pool_inv p"
  shows "(\<exists>p'. allocate x p = Inr (next_free_index p, p') \<and> live p (next_free_index p) = None \<and>
      live p' = (live p)(next_free_index p \<mapsto> x) \<and> pool_inv p' \<and> pool_size p' = pool_size p \<and>
      card (dom (live p)) + 1 < pool_size p) \<or>
    (allocate x p = Inl PoolOutOfSpace \<and> card (dom (live p)) + 1 = pool_size p)"
proof -
  let ?i = "next_free_index p"
  let ?p = "p\<lparr>p_store := (p_store p)[?i := \<lparr>blk_object = x, is_free = False\<rparr>]\<rparr>"
  have i: "?i < pool_size p" and free: "is_free (p_store p ! ?i)" and none: "live p ?i = None"
    using assms by (auto simp: pool_inv_def live_def pool_size_def split: if_splits)
  have live: "live ?p = (live p)(?i \<mapsto> x)"
    using i by (auto simp: live_def nth_list_update pool_size_def fun_eq_iff)
  have size: "pool_size ?p = pool_size p"
    by (simp add: pool_size_def)
  have eq: "allocate x p = rbind (updateNextFreeIndex ?p) (\<lambda>p'. Inr (?i, p'))"
    using free by (simp add: allocate_def Let_def)
  have card: "card (dom (live ?p)) = card (dom (live p)) + 1"
    using none by (simp add: live domIff)
  consider (found) j where "updateNextFreeIndex ?p = Inr (?p\<lparr>next_free_index := j\<rparr>)"
      "j < pool_size p" "live ?p j = None"
    | (full) "updateNextFreeIndex ?p = Inl PoolOutOfSpace" "dom (live ?p) = {..<pool_size p}"
    using updateNextFreeIndex_cases [of ?p] i size by auto
  then show ?thesis
  proof cases
    case found
    have "dom (live ?p) \<subset> {..<pool_size p}"
    proof (rule psubsetI)
      show "dom (live ?p) \<subseteq> {..<pool_size p}"
        using dom_live_sub [of ?p] size by simp
      show "dom (live ?p) \<noteq> {..<pool_size p}"
        using found(2,3) by (metis domIff lessThan_iff)
    qed
    then have "card (dom (live ?p)) < pool_size p"
      using psubset_card_mono [of "{..<pool_size p}"] by simp
    with found none live size eq card show ?thesis
      by (intro disjI1 exI [of _ "?p\<lparr>next_free_index := j\<rparr>"])
        (auto simp: pool_inv_def pool_size_def)
  next
    case full
    then have "card (dom (live ?p)) = pool_size p" by simp
    with full eq card show ?thesis by simp
  qed
qed

lemma deallocate_live:
  assumes "pool_inv p" and "live p i \<noteq> None"
  shows "\<exists>p'. deallocate i p = Inr p' \<and> live p' = (live p)(i := None) \<and> pool_inv p' \<and>
    pool_size p' = pool_size p"
  using assms
  by (auto simp: deallocate_def live_def pool_inv_def pool_size_def nth_list_update fun_eq_iff
      split: if_splits)

lemma pool_inv_card: "pool_inv p \<Longrightarrow> card (dom (live p)) < pool_size p"
proof -
  assume "pool_inv p"
  then have "dom (live p) \<noteq> {..<pool_size p}"
    by (metis domIff lessThan_iff pool_inv_def)
  then have "dom (live p) \<subset> {..<pool_size p}"
    using dom_live_sub [of p] by (rule psubsetI [rotated])
  then show ?thesis
    using psubset_card_mono [of "{..<pool_size p}"] by simp
qed

interpretation pool: allocator allocate deallocate live pool_size pool_inv
proof (unfold_locales, goal_cases)
  case (1 p x i p')
  then show ?case using allocate_cases [of p x] by auto
next
  case (2 p x e)
  then show ?case using allocate_cases [of p x] by auto
next
  case (3 p x)
  then show ?case using allocate_cases [of p x] by auto
next
  case (4 p i)
  then show ?case by (rule deallocate_live)
next
  case (5 p)
  then show ?case by (simp add: pool_inv_card)
qed

section \<open>Properties\<close>

text \<open>
  Allocating a block and returning it is invisible: the block was free, holds the new object
  while it is in use, no other object is touched, and after the return the pool holds the same
  objects as before and is well formed.
\<close>

lemma allocate_deallocate_roundtrip:
  assumes "pool_inv p" and "allocate x p = Inr (i, p')"
  shows "live p i = None \<and> live p' = (live p)(i \<mapsto> x) \<and>
    (\<exists>p''. deallocate i p' = Inr p'' \<and> live p'' = live p \<and> pool_inv p'')"
  using pool.alloc_Inr [OF assms] pool.alloc_dealloc_roundtrip [OF assms] by blast

text \<open>
  C37 A pool of n blocks serves only n - 1 objects: allocation fails exactly when one block is
  left, although that block is free, and the failure is the out-of-space exit.
\<close>

theorem pool_gives_up_one_block_early:
  assumes "pool_inv p"
  shows "((\<exists>e. allocate x p = Inl e) \<longleftrightarrow> card (dom (live p)) + 1 = pool_size p) \<and>
    (allocate x p = Inl PoolOutOfSpace \<longleftrightarrow> card (dom (live p)) + 1 = pool_size p)"
  using pool.alloc_Inl [OF assms] pool.alloc_exhausted [OF assms] by blast

theorem pool_gives_up_one_block_early_witness:
  "allocate 7 (new_MemPool 1 (0 :: nat)) = Inl PoolOutOfSpace"
  using pool_gives_up_one_block_early [of "new_MemPool 1 (0 :: nat)" 7] by simp

end
