(* ===== verification/StdMap.thy ===== *)
theory StdMap
  imports Prelude
begin

text \<open>
  The operations of \<open>std::map\<close> the order book uses, on association lists kept in the order of
  the map's comparator: \<open>find\<close>, insertion of a key through \<open>operator[]\<close>, \<open>erase\<close>, \<open>begin\<close> and
  \<open>upper_bound\<close>. The locale \<open>map_order\<close> holds what the book relies on for any comparator that is
  a strict total order; it is interpreted for the two comparators of the book.
\<close>

section \<open>Operations\<close>

definition smap_find :: "'k \<Rightarrow> ('k \<times> 'v) list \<Rightarrow> 'v option" where
  "smap_find k m = map_of m k"

fun smap_insert :: "('k \<Rightarrow> 'k \<Rightarrow> bool) \<Rightarrow> 'k \<Rightarrow> 'v \<Rightarrow> ('k \<times> 'v) list \<Rightarrow> ('k \<times> 'v) list" where
  "smap_insert lt k v [] = [(k, v)]"
| "smap_insert lt k v ((k', v') # m) =
     (if k' = k then (k, v) # m
      else if lt k k' then (k, v) # (k', v') # m
      else (k', v') # smap_insert lt k v m)"

definition smap_erase :: "'k \<Rightarrow> ('k \<times> 'v) list \<Rightarrow> ('k \<times> 'v) list" where
  "smap_erase k m = filter (\<lambda>(k', _). k' \<noteq> k) m"

definition smap_begin :: "('k \<times> 'v) list \<Rightarrow> ('k \<times> 'v) option" where
  "smap_begin m = (case m of [] \<Rightarrow> None | e # _ \<Rightarrow> Some e)"

definition smap_upper_bound :: "('k \<Rightarrow> 'k \<Rightarrow> bool) \<Rightarrow> 'k \<Rightarrow> ('k \<times> 'v) list \<Rightarrow> ('k \<times> 'v) option" where
  "smap_upper_bound lt k m = List.find (\<lambda>(k', _). lt k k') m"

lemma smap_begin_simps [simp]:
  "smap_begin [] = None"
  "smap_begin (e # m) = Some e"
  by (simp_all add: smap_begin_def)

section \<open>Laws for a strict total order\<close>

locale map_order =
  fixes lt :: "'k \<Rightarrow> 'k \<Rightarrow> bool"
  assumes irrefl: "\<not> lt a a"
    and trans: "lt a b \<Longrightarrow> lt b c \<Longrightarrow> lt a c"
    and total: "a \<noteq> b \<Longrightarrow> lt a b \<or> lt b a"
begin

lemma asym: "lt a b \<Longrightarrow> \<not> lt b a"
  using irrefl trans by blast

lemma sorted_distinct: "sorted_wrt lt ks \<Longrightarrow> distinct ks"
  by (induction ks) (auto simp: irrefl)

lemma sorted_mid_notin:
  "sorted_wrt lt (map fst (m1 @ (k, v) # m2)) \<Longrightarrow> k \<notin> fst ` set m1 \<and> k \<notin> fst ` set m2"
  using irrefl by (fastforce simp: sorted_wrt_append)

lemma find_mid:
  assumes "sorted_wrt lt (map fst (m1 @ (k, v) # m2))"
  shows "smap_find k (m1 @ (k, v) # m2) = Some v"
proof -
  have "map_of m1 k = None"
    using sorted_mid_notin [OF assms] by (simp add: map_of_eq_None_iff)
  then show ?thesis
    by (simp add: smap_find_def map_add_def split: option.split)
qed

lemma erase_mid:
  fixes v :: 'b
  assumes "sorted_wrt lt (map fst (m1 @ (k, v) # m2))"
  shows "smap_erase k (m1 @ (k, v) # m2) = m1 @ m2"
proof -
  have "filter (\<lambda>(k', _). k' \<noteq> k) m = m" if "k \<notin> fst ` set m" for m :: "('k \<times> 'b) list"
    using that by (force intro!: filter_True)
  then show ?thesis
    using sorted_mid_notin [OF assms] by (simp add: smap_erase_def)
qed

lemma upper_bound_skip:
  "\<forall>x\<in>set m1. \<not> lt k (fst x) \<Longrightarrow> smap_upper_bound lt k (m1 @ m2) = smap_upper_bound lt k m2"
  by (induction m1) (auto simp: smap_upper_bound_def)

lemma upper_bound_begin:
  "\<forall>x\<in>set m. lt k (fst x) \<Longrightarrow> smap_upper_bound lt k m = smap_begin m"
  by (cases m) (auto simp: smap_upper_bound_def)

text \<open>
  The iterator step of the matching loop: after the level at \<open>k\<close> has been worked on, and
  whether or not it is still in the map, \<open>upper_bound\<close> gives the level after it.
\<close>

lemma upper_bound_next:
  assumes "sorted_wrt lt (map fst (m1 @ (k, v) # m2))" and "m = [] \<or> m = [(k, w)]"
  shows "smap_upper_bound lt k (m1 @ m @ m2) = smap_begin m2"
proof -
  have before: "\<forall>x\<in>set (m1 @ m). \<not> lt k (fst x)"
    using assms asym irrefl by (auto simp: sorted_wrt_append)
  have after: "\<forall>x\<in>set m2. lt k (fst x)"
    using assms(1) by (auto simp: sorted_wrt_append)
  show ?thesis
    using upper_bound_skip [OF before, of m2] upper_bound_begin [OF after] by simp
qed

lemma insert_absent:
  assumes "sorted_wrt lt (map fst m)" and "smap_find k m = None"
  shows "\<exists>m1 m2. m = m1 @ m2 \<and> smap_insert lt k v m = m1 @ (k, v) # m2 \<and>
    (\<forall>x\<in>set m1. lt (fst x) k) \<and> (\<forall>x\<in>set m2. lt k (fst x))"
  using assms
proof (induction m)
  case Nil
  then show ?case by simp
next
  case (Cons e m)
  obtain k' v' where e: "e = (k', v')" by (cases e)
  have ne: "k' \<noteq> k" and rest: "smap_find k m = None"
    using Cons.prems(2) e by (auto simp: smap_find_def split: if_splits)
  show ?case
  proof (cases "lt k k'")
    case True
    then have "\<forall>x\<in>set (e # m). lt k (fst x)"
      using Cons.prems(1) e trans by auto
    then show ?thesis
      using True ne e by (intro exI [of _ "[]"] exI [of _ "e # m"]) auto
  next
    case False
    then have "lt k' k" using total ne by blast
    moreover obtain m1 m2 where "m = m1 @ m2" "smap_insert lt k v m = m1 @ (k, v) # m2"
      "\<forall>x\<in>set m1. lt (fst x) k" "\<forall>x\<in>set m2. lt k (fst x)"
      using Cons.IH Cons.prems(1) rest by auto
    ultimately show ?thesis
      using False ne e by (intro exI [of _ "e # m1"] exI [of _ m2]) auto
  qed
qed

end

section \<open>The comparators of the book\<close>

text \<open>
  \<open>bids_\<close> is ordered by \<open>std::greater\<close> and \<open>asks_\<close> by \<open>std::less\<close>: on either side the price
  that comes first is the better one.
\<close>

definition price_before :: "bool \<Rightarrow> int \<Rightarrow> int \<Rightarrow> bool" where
  "price_before bid p q = (if bid then q < p else p < q)"

interpretation levels_order: map_order "price_before bid" for bid
  by unfold_locales (auto simp: price_before_def split: if_splits)

end
