(* ===== verification/OrderBook.thy ===== *)
theory OrderBook
  imports Types LFQueue MemPool StdMap
begin

text \<open>
  The per-symbol order book of exchange/matcher/book_order.h and order_book.h/.cpp at the level
  of its pointers: resting orders are nodes of doubly linked lists inside a memory pool, price
  levels are pool blocks with head and tail pointers, the two sides are ordered maps from
  prices to levels, and an index maps order ids to nodes. A pointer is the index of its pool
  block, a null pointer is \<open>None\<close>. Every access goes through \<open>read_order\<close>, \<open>write_order\<close>,
  \<open>read_level\<close> or \<open>write_level\<close>, which fail with \<open>BadPointer\<close> on a block that is not in use, so
  that a use after free would show as an error of the model.

  The source repeats each operation for the two sides, with \<open>bids_\<close> and \<open>asks_\<close> and the
  comparison turned round; here the side is a boolean (\<open>True\<close> for bids) that selects the map.
\<close>

section \<open>Orders, levels, the book\<close>

record OrderInfo =
  bo_order_id :: OrderId
  bo_client_id :: ClientId
  bo_symbol :: Symbol
  bo_order_type :: OrderType
  bo_side :: Side
  bo_price :: Price
  bo_original_qty :: Qty
  bo_qty :: Qty
  bo_priority_ts :: Nanos

record BookOrder = OrderInfo +
  bo_prev :: "nat option"
  bo_next :: "nat option"

definition mk_info ::
  "OrderId \<Rightarrow> ClientId \<Rightarrow> Symbol \<Rightarrow> OrderType \<Rightarrow> Side \<Rightarrow> Price \<Rightarrow> Qty \<Rightarrow> Qty \<Rightarrow> Nanos \<Rightarrow> OrderInfo" where
  "mk_info oid cid sy ot sd pr oq q ts =
     \<lparr>bo_order_id = oid, bo_client_id = cid, bo_symbol = sy, bo_order_type = ot, bo_side = sd,
      bo_price = pr, bo_original_qty = oq, bo_qty = q, bo_priority_ts = ts\<rparr>"

text \<open>The constructor of a \<open>BookOrder\<close> leaves both links null.\<close>

definition mk_order ::
  "OrderId \<Rightarrow> ClientId \<Rightarrow> Symbol \<Rightarrow> OrderType \<Rightarrow> Side \<Rightarrow> Price \<Rightarrow> Qty \<Rightarrow> Qty \<Rightarrow> Nanos \<Rightarrow> BookOrder" where
  "mk_order oid cid sy ot sd pr oq q ts =
     OrderInfo.extend (mk_info oid cid sy ot sd pr oq q ts) (BookOrder.fields None None)"

definition BookOrder_toString :: "'a OrderInfo_scheme \<Rightarrow> string" where
  "BookOrder_toString ord =
     ''BookOrder ['' @ ''oid:'' @ show_u64 (bo_order_id ord)
     @ '' client:'' @ show_u64 (bo_client_id ord)
     @ '' symbol:'' @ bo_symbol ord
     @ '' type:'' @ orderTypeToString (bo_order_type ord)
     @ '' side:'' @ sideToString (bo_side ord)
     @ '' price:'' @ show_i64 (bo_price ord)
     @ '' orig_qty:'' @ show_u64 (bo_original_qty ord)
     @ '' qty:'' @ show_u64 (bo_qty ord)
     @ '' ts:'' @ show_i64 (bo_priority_ts ord) @ '']''"

record PriceLevel =
  lv_price :: Price
  lv_head :: "nat option"
  lv_tail :: "nat option"
  lv_order_count :: "64 word"

definition mk_level :: "Price \<Rightarrow> PriceLevel" where
  "mk_level p = \<lparr>lv_price = p, lv_head = None, lv_tail = None, lv_order_count = 0\<rparr>"

record SymbolOrderBook =
  bk_symbol :: Symbol
  bk_response_queue :: "EngineOrderResponse LFQueue"
  bk_update_queue :: "BookUpdate LFQueue"
  bk_bids :: "(Price \<times> nat) list"
  bk_asks :: "(Price \<times> nat) list"
  bk_order_index :: "OrderId \<rightharpoonup> nat"
  bk_order_pool :: "BookOrder MemPool"
  bk_level_pool :: "PriceLevel MemPool"

definition MAX_RESTING_ORDERS :: nat where "MAX_RESTING_ORDERS = 128 * 1024"
definition MAX_PRICE_LEVELS :: nat where "MAX_PRICE_LEVELS = 8 * 1024"

text \<open>The default-constructed objects that fill the pools.\<close>

definition BookOrder_default :: BookOrder where
  "BookOrder_default =
     mk_order Invalid_OrderId Invalid_ClientId '''' OT_INVALID Side_INVALID Invalid_Price Invalid_Qty
       Invalid_Qty 0"

text \<open>
  The constructor, with the two pool sizes as arguments; \<open>new_SymbolOrderBook\<close> is the constructor
  of the source, with its constants.
\<close>

definition mk_book ::
  "nat \<Rightarrow> nat \<Rightarrow> Symbol \<Rightarrow> EngineOrderResponse LFQueue \<Rightarrow> BookUpdate LFQueue \<Rightarrow> SymbolOrderBook" where
  "mk_book n_orders n_levels sy rq uq =
     \<lparr>bk_symbol = sy, bk_response_queue = rq, bk_update_queue = uq, bk_bids = [], bk_asks = [],
      bk_order_index = Map.empty, bk_order_pool = new_MemPool n_orders BookOrder_default,
      bk_level_pool = new_MemPool n_levels (mk_level Invalid_Price)\<rparr>"

definition new_SymbolOrderBook ::
  "Symbol \<Rightarrow> EngineOrderResponse LFQueue \<Rightarrow> BookUpdate LFQueue \<Rightarrow> SymbolOrderBook" where
  "new_SymbolOrderBook = mk_book MAX_RESTING_ORDERS MAX_PRICE_LEVELS"

section \<open>Memory accesses and the two sides\<close>

definition read_order :: "nat \<Rightarrow> SymbolOrderBook \<Rightarrow> BookOrder result" where
  "read_order i b = (case live (bk_order_pool b) i of None \<Rightarrow> Inl BadPointer | Some ord \<Rightarrow> Inr ord)"

definition write_order :: "nat \<Rightarrow> (BookOrder \<Rightarrow> BookOrder) \<Rightarrow> SymbolOrderBook \<Rightarrow> SymbolOrderBook result" where
  "write_order i f b =
     rbind (read_order i b) (\<lambda>ord. Inr (b\<lparr>bk_order_pool := pool_write i (f ord) (bk_order_pool b)\<rparr>))"

definition read_level :: "nat \<Rightarrow> SymbolOrderBook \<Rightarrow> PriceLevel result" where
  "read_level l b = (case live (bk_level_pool b) l of None \<Rightarrow> Inl BadPointer | Some lv \<Rightarrow> Inr lv)"

definition write_level :: "nat \<Rightarrow> (PriceLevel \<Rightarrow> PriceLevel) \<Rightarrow> SymbolOrderBook \<Rightarrow> SymbolOrderBook result" where
  "write_level l f b =
     rbind (read_level l b) (\<lambda>lv. Inr (b\<lparr>bk_level_pool := pool_write l (f lv) (bk_level_pool b)\<rparr>))"

definition levels :: "bool \<Rightarrow> SymbolOrderBook \<Rightarrow> (Price \<times> nat) list" where
  "levels bid b = (if bid then bk_bids b else bk_asks b)"

definition set_levels :: "bool \<Rightarrow> (Price \<times> nat) list \<Rightarrow> SymbolOrderBook \<Rightarrow> SymbolOrderBook" where
  "set_levels bid m b = (if bid then b\<lparr>bk_bids := m\<rparr> else b\<lparr>bk_asks := m\<rparr>)"

section \<open>Outgoing events\<close>

definition sendResponse :: "EngineOrderResponse \<Rightarrow> SymbolOrderBook \<Rightarrow> SymbolOrderBook" where
  "sendResponse resp b = b\<lparr>bk_response_queue := push resp (bk_response_queue b)\<rparr>"

definition sendBookUpdate ::
  "MarketUpdateType \<Rightarrow> OrderId \<Rightarrow> Side \<Rightarrow> Price \<Rightarrow> Qty \<Rightarrow> SymbolOrderBook \<Rightarrow> SymbolOrderBook" where
  "sendBookUpdate ty oid sd pr q b =
     b\<lparr>bk_update_queue := push (mk_update ty oid (bk_symbol b) sd pr q) (bk_update_queue b)\<rparr>"

section \<open>Resting and removing orders\<close>

text \<open>Look the level up in its side's map, creating it when the price is new.\<close>

definition find_or_create_level :: "bool \<Rightarrow> Price \<Rightarrow> SymbolOrderBook \<Rightarrow> (nat \<times> SymbolOrderBook) result" where
  "find_or_create_level bid price b =
     (case smap_find price (levels bid b) of
        None \<Rightarrow>
          rbind (allocate (mk_level price) (bk_level_pool b)) (\<lambda>(level, lp).
            Inr (level, set_levels bid (smap_insert (price_before bid) price level (levels bid b))
                          (b\<lparr>bk_level_pool := lp\<rparr>)))
      | Some level \<Rightarrow> Inr (level, b))"

text \<open>Append the node at the tail of the level's list.\<close>

definition append_tail :: "nat \<Rightarrow> nat \<Rightarrow> SymbolOrderBook \<Rightarrow> SymbolOrderBook result" where
  "append_tail level order b =
     rbind (read_level level b) (\<lambda>lv.
     rbind (write_order order (\<lambda>ord. ord\<lparr>bo_prev := lv_tail lv, bo_next := None\<rparr>) b) (\<lambda>b.
     rbind (case lv_tail lv of
              Some t \<Rightarrow> write_order t (\<lambda>ord. ord\<lparr>bo_next := Some order\<rparr>) b
            | None \<Rightarrow> write_level level (\<lambda>v. v\<lparr>lv_head := Some order\<rparr>) b) (\<lambda>b.
     write_level level
       (\<lambda>v. v\<lparr>lv_tail := Some order, lv_order_count := lv_order_count v + 1\<rparr>) b)))"

definition restOrder ::
  "ClientId \<Rightarrow> OrderId \<Rightarrow> OrderType \<Rightarrow> Side \<Rightarrow> Price \<Rightarrow> Qty \<Rightarrow> Qty \<Rightarrow> Nanos
     \<Rightarrow> SymbolOrderBook \<Rightarrow> SymbolOrderBook result" where
  "restOrder cid oid ot sd price original_qty qty ts b =
     rbind (allocate (mk_order oid cid (bk_symbol b) ot sd price original_qty qty ts) (bk_order_pool b))
       (\<lambda>(order, op).
     rbind (find_or_create_level (sd = BUY) price (b\<lparr>bk_order_pool := op\<rparr>)) (\<lambda>(level, b).
     rbind (append_tail level order b) (\<lambda>b.
     Inr (b\<lparr>bk_order_index := (bk_order_index b)(oid \<mapsto> order)\<rparr>))))"

text \<open>Unlink the node from the list of its level.\<close>

definition unlink :: "nat \<Rightarrow> nat \<Rightarrow> SymbolOrderBook \<Rightarrow> SymbolOrderBook result" where
  "unlink level order b =
     rbind (read_order order b) (\<lambda>ord.
     rbind (case bo_prev ord of
              Some p \<Rightarrow> write_order p (\<lambda>n. n\<lparr>bo_next := bo_next ord\<rparr>) b
            | None \<Rightarrow> write_level level (\<lambda>v. v\<lparr>lv_head := bo_next ord\<rparr>) b) (\<lambda>b.
     rbind (read_order order b) (\<lambda>ord.
     rbind (case bo_next ord of
              Some n \<Rightarrow> write_order n (\<lambda>m. m\<lparr>bo_prev := bo_prev ord\<rparr>) b
            | None \<Rightarrow> write_level level (\<lambda>v. v\<lparr>lv_tail := bo_prev ord\<rparr>) b) (\<lambda>b.
     write_level level (\<lambda>v. v\<lparr>lv_order_count := lv_order_count v - 1\<rparr>) b))))"

text \<open>Erase a level from its side's map and return its block once its list is empty.\<close>

definition drop_level_if_empty :: "bool \<Rightarrow> Price \<Rightarrow> nat \<Rightarrow> SymbolOrderBook \<Rightarrow> SymbolOrderBook result" where
  "drop_level_if_empty bid price level b =
     rbind (read_level level b) (\<lambda>v.
     if lv_order_count v = 0 then
       let b = set_levels bid (smap_erase price (levels bid b)) b in
       rbind (deallocate level (bk_level_pool b)) (\<lambda>lp. Inr (b\<lparr>bk_level_pool := lp\<rparr>))
     else Inr b)"

definition removeOrder :: "nat \<Rightarrow> SymbolOrderBook \<Rightarrow> SymbolOrderBook result" where
  "removeOrder order b =
     rbind (read_order order b) (\<lambda>ord.
     let bid = (bo_side ord = BUY); price = bo_price ord in
     case smap_find price (levels bid b) of
       None \<Rightarrow> Inr b
     | Some level \<Rightarrow>
         rbind (unlink level order b) (\<lambda>b.
         rbind (drop_level_if_empty bid price level b) (\<lambda>b.
         rbind (read_order order b) (\<lambda>ord.
         rbind (deallocate order (bk_order_pool b)) (\<lambda>op.
         Inr (b\<lparr>bk_order_index := (bk_order_index b)(bo_order_id ord := None), bk_order_pool := op\<rparr>))))))"

section \<open>Matching\<close>

text \<open>One fill of the incoming order against the resting order at \<open>node\<close>.\<close>

definition fill_node ::
  "ClientId \<Rightarrow> OrderId \<Rightarrow> Side \<Rightarrow> Price \<Rightarrow> nat \<Rightarrow> Qty \<Rightarrow> SymbolOrderBook \<Rightarrow> (Qty \<times> SymbolOrderBook) result"
where
  "fill_node cid oid sd level_price node leaves b =
     rbind (read_order node b) (\<lambda>n.
     let fill_qty = min leaves (bo_qty n); leaves = leaves - fill_qty in
     rbind (write_order node (\<lambda>ord. ord\<lparr>bo_qty := bo_qty ord - fill_qty\<rparr>) b) (\<lambda>b.
     rbind (read_order node b) (\<lambda>n.
     let b = sendResponse (mk_response FILLED cid (bk_symbol b) oid oid sd level_price fill_qty leaves) b;
         b = sendResponse (mk_response FILLED (bo_client_id n) (bk_symbol b) (bo_order_id n) (bo_order_id n)
                             (bo_side n) level_price fill_qty (bo_qty n)) b;
         b = sendBookUpdate MU_TRADE (bo_order_id n) (bo_side n) level_price fill_qty b in
     if bo_qty n = 0 then
       rbind (removeOrder node b) (\<lambda>b.
         Inr (leaves, sendBookUpdate MU_CANCEL (bo_order_id n) (bo_side n) level_price 0 b))
     else Inr (leaves, sendBookUpdate MU_MODIFY (bo_order_id n) (bo_side n) level_price (bo_qty n) b))))"

text \<open>The inner loop over the nodes of one level.\<close>

fun match_level ::
  "ClientId \<Rightarrow> OrderId \<Rightarrow> Side \<Rightarrow> Price \<Rightarrow> nat \<Rightarrow> nat option \<Rightarrow> Qty \<Rightarrow> SymbolOrderBook
     \<Rightarrow> (Qty \<times> SymbolOrderBook) result"
where
  "match_level cid oid sd level_price fuel None leaves b = Inr (leaves, b)"
| "match_level cid oid sd level_price 0 (Some node) leaves b = Inl OutOfFuel"
| "match_level cid oid sd level_price (Suc fuel) (Some node) leaves b =
     rbind (read_order node b) (\<lambda>n.
     rbind (if bo_client_id n \<noteq> cid \<and> 0 < leaves then fill_node cid oid sd level_price node leaves b
            else Inr (leaves, b)) (\<lambda>(leaves, b).
     match_level cid oid sd level_price fuel (bo_next n) leaves b))"

text \<open>
  The price test of the outer loop: a buy order stops at the first ask above its limit, a sell
  order at the first bid below it.
\<close>

definition beyond_limit :: "Side \<Rightarrow> bool \<Rightarrow> Price \<Rightarrow> Price \<Rightarrow> bool" where
  "beyond_limit sd has_limit_price limit_price level_price =
     (has_limit_price \<and> (if sd = BUY then limit_price < level_price else limit_price > level_price))"

text \<open>The outer loop over the levels of the opposite side, best price first.\<close>

fun match_levels ::
  "ClientId \<Rightarrow> OrderId \<Rightarrow> Side \<Rightarrow> Price \<Rightarrow> bool \<Rightarrow> nat \<Rightarrow> (Price \<times> nat) option \<Rightarrow> Qty \<Rightarrow> SymbolOrderBook
     \<Rightarrow> (Qty \<times> SymbolOrderBook) result"
where
  "match_levels cid oid sd limit_price has_limit_price fuel None leaves b = Inr (leaves, b)"
| "match_levels cid oid sd limit_price has_limit_price 0 (Some it) leaves b = Inl OutOfFuel"
| "match_levels cid oid sd limit_price has_limit_price (Suc fuel) (Some (level_price, level)) leaves b =
     (if \<not> 0 < leaves then Inr (leaves, b)
      else if beyond_limit sd has_limit_price limit_price level_price then Inr (leaves, b)
      else
        rbind (read_level level b) (\<lambda>v.
        rbind (match_level cid oid sd level_price (pool_size (bk_order_pool b)) (lv_head v) leaves b)
          (\<lambda>(leaves, b).
        match_levels cid oid sd limit_price has_limit_price fuel
          (smap_upper_bound (price_before (sd \<noteq> BUY)) level_price (levels (sd \<noteq> BUY) b)) leaves b)))"

definition matchIncoming ::
  "ClientId \<Rightarrow> OrderId \<Rightarrow> Side \<Rightarrow> Price \<Rightarrow> bool \<Rightarrow> Qty \<Rightarrow> SymbolOrderBook \<Rightarrow> (Qty \<times> SymbolOrderBook) result"
where
  "matchIncoming cid oid sd limit_price has_limit_price leaves b =
     match_levels cid oid sd limit_price has_limit_price (length (levels (sd \<noteq> BUY) b))
       (smap_begin (levels (sd \<noteq> BUY) b)) leaves b"

section \<open>Order entry\<close>

definition addLimitOrder ::
  "Nanos \<Rightarrow> ClientId \<Rightarrow> OrderId \<Rightarrow> Side \<Rightarrow> Price \<Rightarrow> Qty \<Rightarrow> SymbolOrderBook \<Rightarrow> SymbolOrderBook result" where
  "addLimitOrder now cid oid sd price qty b =
     (if bk_order_index b oid \<noteq> None then
        Inr (sendResponse (mk_response REJECTED cid (bk_symbol b) oid Invalid_OrderId sd price 0 qty) b)
      else
        let b = sendResponse (mk_response ACCEPTED cid (bk_symbol b) oid oid sd price 0 qty) b in
        rbind (matchIncoming cid oid sd price True qty b) (\<lambda>(leaves, b).
        if 0 < leaves then
          rbind (restOrder cid oid LIMIT sd price qty leaves now b) (\<lambda>b.
          Inr (sendBookUpdate MU_ADD oid sd price leaves b))
        else Inr b))"

definition addMarketOrder ::
  "ClientId \<Rightarrow> OrderId \<Rightarrow> Side \<Rightarrow> Qty \<Rightarrow> SymbolOrderBook \<Rightarrow> SymbolOrderBook result" where
  "addMarketOrder cid oid sd qty b =
     (if bk_order_index b oid \<noteq> None then
        Inr (sendResponse (mk_response REJECTED cid (bk_symbol b) oid Invalid_OrderId sd Invalid_Price 0 qty) b)
      else
        let b = sendResponse (mk_response ACCEPTED cid (bk_symbol b) oid oid sd Invalid_Price 0 qty) b in
        rbind (matchIncoming cid oid sd Invalid_Price False qty b) (\<lambda>(leaves, b).
        if 0 < leaves then
          Inr (sendResponse (mk_response CANCELED cid (bk_symbol b) oid oid sd Invalid_Price (qty - leaves) leaves) b)
        else Inr b))"

definition addIOCOrder ::
  "ClientId \<Rightarrow> OrderId \<Rightarrow> Side \<Rightarrow> Price \<Rightarrow> Qty \<Rightarrow> SymbolOrderBook \<Rightarrow> SymbolOrderBook result" where
  "addIOCOrder cid oid sd price qty b =
     (if bk_order_index b oid \<noteq> None then
        Inr (sendResponse (mk_response REJECTED cid (bk_symbol b) oid Invalid_OrderId sd price 0 qty) b)
      else
        let b = sendResponse (mk_response ACCEPTED cid (bk_symbol b) oid oid sd price 0 qty) b in
        rbind (matchIncoming cid oid sd price True qty b) (\<lambda>(leaves, b).
        if 0 < leaves then
          Inr (sendResponse (mk_response CANCELED cid (bk_symbol b) oid oid sd price (qty - leaves) leaves) b)
        else Inr b))"

definition cancel_reject :: "ResponseStatus \<Rightarrow> ClientId \<Rightarrow> OrderId \<Rightarrow> SymbolOrderBook \<Rightarrow> SymbolOrderBook" where
  "cancel_reject st cid oid b =
     sendResponse (mk_response st cid (bk_symbol b) oid Invalid_OrderId Side_INVALID Invalid_Price
                     Invalid_Qty Invalid_Qty) b"

text \<open>The lookup that guards cancel and modify: the order must rest and belong to the client.\<close>

definition find_own :: "ClientId \<Rightarrow> OrderId \<Rightarrow> SymbolOrderBook \<Rightarrow> (nat \<times> BookOrder) option result" where
  "find_own cid oid b =
     (case bk_order_index b oid of
        None \<Rightarrow> Inr None
      | Some i \<Rightarrow> rbind (read_order i b) (\<lambda>ord. Inr (if bo_client_id ord \<noteq> cid then None else Some (i, ord))))"

definition cancelOrder :: "ClientId \<Rightarrow> OrderId \<Rightarrow> SymbolOrderBook \<Rightarrow> SymbolOrderBook result" where
  "cancelOrder cid oid b =
     rbind (find_own cid oid b) (\<lambda>r.
     case r of
       None \<Rightarrow> Inr (cancel_reject CANCEL_REJECTED cid oid b)
     | Some (order, ord) \<Rightarrow>
         rbind (removeOrder order b) (\<lambda>b.
         let b = sendResponse (mk_response CANCELED cid (bk_symbol b) oid oid (bo_side ord) (bo_price ord) 0 0) b in
         Inr (sendBookUpdate MU_CANCEL oid (bo_side ord) (bo_price ord) (bo_qty ord) b)))"

definition modifyOrder ::
  "Nanos \<Rightarrow> ClientId \<Rightarrow> OrderId \<Rightarrow> Price \<Rightarrow> Qty \<Rightarrow> SymbolOrderBook \<Rightarrow> SymbolOrderBook result" where
  "modifyOrder now cid oid new_price new_qty b =
     rbind (find_own cid oid b) (\<lambda>r.
     case r of
       None \<Rightarrow> Inr (cancel_reject MODIFY_REJECTED cid oid b)
     | Some (order, ord) \<Rightarrow>
         if new_qty = 0 \<or> new_qty = Invalid_Qty \<or> new_price \<le> 0 then
           Inr (cancel_reject MODIFY_REJECTED cid oid b)
         else
           let side = bo_side ord; order_type = bo_order_type ord; old_price = bo_price ord; old_qty = bo_qty ord in
           if new_price \<noteq> old_price then
             rbind (removeOrder order b) (\<lambda>b.
             let b = sendResponse (mk_response MODIFIED cid (bk_symbol b) oid oid side new_price 0 new_qty) b in
             rbind (matchIncoming cid oid side new_price True new_qty b) (\<lambda>(leaves, b).
             if 0 < leaves then
               rbind (restOrder cid oid order_type side new_price new_qty leaves now b) (\<lambda>b.
               Inr (sendBookUpdate MU_ADD oid side new_price leaves b))
             else Inr b))
           else if new_qty < old_qty then
             rbind (write_order order (\<lambda>ord. ord\<lparr>bo_qty := new_qty, bo_original_qty := new_qty\<rparr>) b) (\<lambda>b.
             let b = sendResponse (mk_response MODIFIED cid (bk_symbol b) oid oid side old_price 0 new_qty) b in
             Inr (sendBookUpdate MU_MODIFY oid side old_price new_qty b))
           else if new_qty > old_qty then
             rbind (removeOrder order b) (\<lambda>b.
             rbind (restOrder cid oid order_type side old_price new_qty new_qty now b) (\<lambda>b.
             let b = sendResponse (mk_response MODIFIED cid (bk_symbol b) oid oid side old_price 0 new_qty) b in
             Inr (sendBookUpdate MU_MODIFY oid side old_price new_qty b)))
           else
             Inr (sendResponse (mk_response MODIFIED cid (bk_symbol b) oid oid side old_price 0 old_qty) b))"

end
