(* ===== verification/BookSpec.thy ===== *)
theory BookSpec
  imports OrderBook
begin

text \<open>
  The abstract specification of the order book: each side is one list of resting orders in
  price-time priority, with no levels, pointers, index or pools. An operation maps an abstract
  book to the new book, the responses it sends and the market updates it publishes. The
  theory proves what makes the specification right (sortedness, unique ids, positive
  quantities, no crossed orders of different clients, price and time priority, conservation
  of quantity); BookRefinement shows that the pointer-level book implements it.
\<close>

section \<open>The abstract book\<close>

record abook =
  ab_symbol :: Symbol
  ab_bids :: "OrderInfo list"
  ab_asks :: "OrderInfo list"

definition side_orders :: "bool \<Rightarrow> abook \<Rightarrow> OrderInfo list" where
  "side_orders bid a = (if bid then ab_bids a else ab_asks a)"

definition set_side :: "bool \<Rightarrow> OrderInfo list \<Rightarrow> abook \<Rightarrow> abook" where
  "set_side bid os a = (if bid then a\<lparr>ab_bids := os\<rparr> else a\<lparr>ab_asks := os\<rparr>)"

definition all_orders :: "abook \<Rightarrow> OrderInfo list" where
  "all_orders a = ab_bids a @ ab_asks a"

definition empty_abook :: "Symbol \<Rightarrow> abook" where
  "empty_abook sy = \<lparr>ab_symbol = sy, ab_bids = [], ab_asks = []\<rparr>"

definition lookup_order :: "OrderId \<Rightarrow> abook \<Rightarrow> OrderInfo option" where
  "lookup_order oid a = List.find (\<lambda>r. bo_order_id r = oid) (all_orders a)"

text \<open>A new order goes behind every order whose price is at least as good.\<close>

definition insert_order :: "bool \<Rightarrow> OrderInfo \<Rightarrow> OrderInfo list \<Rightarrow> OrderInfo list" where
  "insert_order bid x os =
     takeWhile (\<lambda>r. \<not> price_before bid (bo_price x) (bo_price r)) os @ x #
     dropWhile (\<lambda>r. \<not> price_before bid (bo_price x) (bo_price r)) os"

definition delete_order :: "OrderId \<Rightarrow> OrderInfo list \<Rightarrow> OrderInfo list" where
  "delete_order oid os = filter (\<lambda>r. bo_order_id r \<noteq> oid) os"

definition rest :: "OrderInfo \<Rightarrow> abook \<Rightarrow> abook" where
  "rest x a = (let bid = (bo_side x = BUY) in set_side bid (insert_order bid x (side_orders bid a)) a)"

definition unrest :: "OrderInfo \<Rightarrow> abook \<Rightarrow> abook" where
  "unrest x a =
     (let bid = (bo_side x = BUY) in set_side bid (delete_order (bo_order_id x) (side_orders bid a)) a)"

section \<open>Matching\<close>

text \<open>The two responses and the two market updates of one fill.\<close>

definition fill_responses ::
  "Symbol \<Rightarrow> ClientId \<Rightarrow> OrderId \<Rightarrow> Side \<Rightarrow> OrderInfo \<Rightarrow> Qty \<Rightarrow> Qty \<Rightarrow> EngineOrderResponse list" where
  "fill_responses sy cid oid sd r fill leaves =
     [mk_response FILLED cid sy oid oid sd (bo_price r) fill leaves,
      mk_response FILLED (bo_client_id r) sy (bo_order_id r) (bo_order_id r) (bo_side r) (bo_price r) fill
        (bo_qty r - fill)]"

definition fill_updates :: "Symbol \<Rightarrow> OrderInfo \<Rightarrow> Qty \<Rightarrow> BookUpdate list" where
  "fill_updates sy r fill =
     [mk_update MU_TRADE (bo_order_id r) sy (bo_side r) (bo_price r) fill,
      if bo_qty r - fill = 0 then mk_update MU_CANCEL (bo_order_id r) sy (bo_side r) (bo_price r) 0
      else mk_update MU_MODIFY (bo_order_id r) sy (bo_side r) (bo_price r) (bo_qty r - fill)]"

definition after_fill :: "OrderInfo \<Rightarrow> Qty \<Rightarrow> OrderInfo list" where
  "after_fill r fill = (if bo_qty r - fill = 0 then [] else [r\<lparr>bo_qty := bo_qty r - fill\<rparr>])"

type_synonym match_result =
  "OrderInfo list \<times> Qty \<times> EngineOrderResponse list \<times> BookUpdate list"

text \<open>
  Walk the opposite side in priority order: stop when nothing is left to fill or the price is
  beyond the limit, skip the client's own orders, fill against every other order.
\<close>

fun match_orders ::
  "Symbol \<Rightarrow> ClientId \<Rightarrow> OrderId \<Rightarrow> Side \<Rightarrow> (Price \<Rightarrow> bool) \<Rightarrow> Qty \<Rightarrow> OrderInfo list \<Rightarrow> match_result" where
  "match_orders sy cid oid sd beyond leaves [] = ([], leaves, [], [])"
| "match_orders sy cid oid sd beyond leaves (r # os) =
     (if leaves = 0 \<or> beyond (bo_price r) then (r # os, leaves, [], [])
      else if bo_client_id r = cid then
        (case match_orders sy cid oid sd beyond leaves os of
           (os', l', rs, us) \<Rightarrow> (r # os', l', rs, us))
      else
        let fill = min leaves (bo_qty r) in
        case match_orders sy cid oid sd beyond (leaves - fill) os of
          (os', l', rs, us) \<Rightarrow>
            (after_fill r fill @ os', l', fill_responses sy cid oid sd r fill (leaves - fill) @ rs,
             fill_updates sy r fill @ us))"

type_synonym op_result = "abook \<times> EngineOrderResponse list \<times> BookUpdate list"

definition match_book ::
  "ClientId \<Rightarrow> OrderId \<Rightarrow> Side \<Rightarrow> Price \<Rightarrow> bool \<Rightarrow> Qty \<Rightarrow> abook \<Rightarrow> Qty \<times> op_result" where
  "match_book cid oid sd limit_price has_limit_price qty a =
     (case match_orders (ab_symbol a) cid oid sd (beyond_limit sd has_limit_price limit_price) qty
             (side_orders (sd \<noteq> BUY) a) of
        (os, leaves, rs, us) \<Rightarrow> (leaves, set_side (sd \<noteq> BUY) os a, rs, us))"

section \<open>Order entry\<close>

text \<open>Match, then rest the remainder: shared by a limit order and a repriced order.\<close>

definition match_and_rest ::
  "Nanos \<Rightarrow> ClientId \<Rightarrow> OrderId \<Rightarrow> OrderType \<Rightarrow> Side \<Rightarrow> Price \<Rightarrow> Qty \<Rightarrow> abook \<Rightarrow> op_result" where
  "match_and_rest now cid oid ot sd price qty a =
     (case match_book cid oid sd price True qty a of
        (leaves, a', rs, us) \<Rightarrow>
          if 0 < leaves then
            (rest (mk_info oid cid (ab_symbol a) ot sd price qty leaves now) a', rs,
             us @ [mk_update MU_ADD oid (ab_symbol a) sd price leaves])
          else (a', rs, us))"

definition spec_limit :: "Nanos \<Rightarrow> ClientId \<Rightarrow> OrderId \<Rightarrow> Side \<Rightarrow> Price \<Rightarrow> Qty \<Rightarrow> abook \<Rightarrow> op_result" where
  "spec_limit now cid oid sd price qty a =
     (if lookup_order oid a \<noteq> None then
        (a, [mk_response REJECTED cid (ab_symbol a) oid Invalid_OrderId sd price 0 qty], [])
      else
        case match_and_rest now cid oid LIMIT sd price qty a of
          (a', rs, us) \<Rightarrow> (a', mk_response ACCEPTED cid (ab_symbol a) oid oid sd price 0 qty # rs, us))"

text \<open>Market and IOC orders: the remainder is cancelled, with the executed quantity reported.\<close>

definition spec_immediate ::
  "ClientId \<Rightarrow> OrderId \<Rightarrow> Side \<Rightarrow> Price \<Rightarrow> bool \<Rightarrow> Qty \<Rightarrow> abook \<Rightarrow> op_result" where
  "spec_immediate cid oid sd price has_limit qty a =
     (if lookup_order oid a \<noteq> None then
        (a, [mk_response REJECTED cid (ab_symbol a) oid Invalid_OrderId sd price 0 qty], [])
      else
        case match_book cid oid sd price has_limit qty a of
          (leaves, a', rs, us) \<Rightarrow>
            (a', mk_response ACCEPTED cid (ab_symbol a) oid oid sd price 0 qty # rs @
               (if 0 < leaves then
                  [mk_response CANCELED cid (ab_symbol a) oid oid sd price (qty - leaves) leaves]
                else []), us))"

definition own_order :: "ClientId \<Rightarrow> OrderId \<Rightarrow> abook \<Rightarrow> OrderInfo option" where
  "own_order cid oid a =
     (case lookup_order oid a of
        None \<Rightarrow> None
      | Some r \<Rightarrow> if bo_client_id r \<noteq> cid then None else Some r)"

definition reject_response :: "ResponseStatus \<Rightarrow> ClientId \<Rightarrow> OrderId \<Rightarrow> abook \<Rightarrow> EngineOrderResponse" where
  "reject_response st cid oid a =
     mk_response st cid (ab_symbol a) oid Invalid_OrderId Side_INVALID Invalid_Price Invalid_Qty Invalid_Qty"

definition spec_cancel :: "ClientId \<Rightarrow> OrderId \<Rightarrow> abook \<Rightarrow> op_result" where
  "spec_cancel cid oid a =
     (case own_order cid oid a of
        None \<Rightarrow> (a, [reject_response CANCEL_REJECTED cid oid a], [])
      | Some r \<Rightarrow>
          (unrest r a, [mk_response CANCELED cid (ab_symbol a) oid oid (bo_side r) (bo_price r) 0 0],
           [mk_update MU_CANCEL oid (ab_symbol a) (bo_side r) (bo_price r) (bo_qty r)]))"

definition update_qty :: "OrderId \<Rightarrow> Qty \<Rightarrow> OrderInfo list \<Rightarrow> OrderInfo list" where
  "update_qty oid q os =
     map (\<lambda>r. if bo_order_id r = oid then r\<lparr>bo_qty := q, bo_original_qty := q\<rparr> else r) os"

text \<open>The new price and quantity that a modify refuses.\<close>

abbreviation bad_modify :: "Price \<Rightarrow> Qty \<Rightarrow> bool" where
  "bad_modify p q \<equiv> q = 0 \<or> q = Invalid_Qty \<or> p \<le> 0"

definition spec_modify :: "Nanos \<Rightarrow> ClientId \<Rightarrow> OrderId \<Rightarrow> Price \<Rightarrow> Qty \<Rightarrow> abook \<Rightarrow> op_result" where
  "spec_modify now cid oid new_price new_qty a =
     (case own_order cid oid a of
        None \<Rightarrow> (a, [reject_response MODIFY_REJECTED cid oid a], [])
      | Some r \<Rightarrow>
          let sd = bo_side r; bid = (sd = BUY);
              modified = (\<lambda>p q. mk_response MODIFIED cid (ab_symbol a) oid oid sd p 0 q);
              changed = mk_update MU_MODIFY oid (ab_symbol a) sd (bo_price r) new_qty in
          if new_qty = 0 \<or> new_qty = Invalid_Qty \<or> new_price \<le> 0 then
            (a, [reject_response MODIFY_REJECTED cid oid a], [])
          else if new_price \<noteq> bo_price r then
            (case match_and_rest now cid oid (bo_order_type r) sd new_price new_qty (unrest r a) of
               (a', rs, us) \<Rightarrow> (a', modified new_price new_qty # rs, us))
          else if new_qty < bo_qty r then
            (set_side bid (update_qty oid new_qty (side_orders bid a)) a,
             [modified (bo_price r) new_qty], [changed])
          else if new_qty > bo_qty r then
            (rest (mk_info oid cid (ab_symbol a) (bo_order_type r) sd (bo_price r) new_qty new_qty now)
               (unrest r a),
             [modified (bo_price r) new_qty], [changed])
          else (a, [modified (bo_price r) (bo_qty r)], []))"

lemmas [spec_defs] = match_book_def match_and_rest_def spec_limit_def spec_immediate_def
  spec_cancel_def spec_modify_def

section \<open>Matching laws\<close>

lemma match_orders_zero [simp]: "match_orders sy cid oid sd beyond 0 os = (os, 0, [], [])"
  by (cases os) auto

lemma match_orders_append:
  assumes "\<And>r. r \<in> set os1 \<Longrightarrow> \<not> beyond (bo_price r)"
    and "match_orders sy cid oid sd (\<lambda>_. False) leaves os1 = (os1', l1, r1, u1)"
    and "match_orders sy cid oid sd beyond l1 os2 = (os2', l2, r2, u2)"
  shows "match_orders sy cid oid sd beyond leaves (os1 @ os2) = (os1' @ os2', l2, r1 @ r2, u1 @ u2)"
  using assms
proof (induction os1 arbitrary: leaves os1' r1 u1)
  case (Cons r os1)
  show ?case
  proof (cases "leaves = 0")
    case True
    with Cons.prems show ?thesis by auto
  next
    case False
    with Cons show ?thesis
      by (cases "bo_client_id r = cid") (auto simp: Let_def split: prod.splits)
  qed
qed simp

section \<open>Sides, lookups and sizes\<close>

lemma set_side_simps [simp]:
  "ab_symbol (set_side bid os a) = ab_symbol a"
  "side_orders bid' (set_side bid os a) = (if bid' = bid then os else side_orders bid' a)"
  by (auto simp: set_side_def side_orders_def)

lemma abook_eqI: "ab_symbol a = ab_symbol a' \<Longrightarrow> (\<And>bid. side_orders bid a = side_orders bid a') \<Longrightarrow> a = a'"
  by (cases a; cases a') (metis abook.simps(1,2,3) side_orders_def)

definition order_count :: "abook \<Rightarrow> nat" where
  "order_count a = length (all_orders a)"

definition level_count :: "abook \<Rightarrow> nat" where
  "level_count a = card (bo_price ` set (side_orders True a)) + card (bo_price ` set (side_orders False a))"

definition no_larger :: "abook \<Rightarrow> abook \<Rightarrow> bool" where
  "no_larger a' a \<longleftrightarrow> order_count a' \<le> order_count a \<and> level_count a' \<le> level_count a"

lemma no_larger_refl [simp]: "no_larger a a"
  by (simp add: no_larger_def)

lemma no_larger_trans: "no_larger a'' a' \<Longrightarrow> no_larger a' a \<Longrightarrow> no_larger a'' a"
  by (simp add: no_larger_def)

lemma order_count_sides: "order_count a = length (side_orders True a) + length (side_orders False a)"
  by (simp add: order_count_def all_orders_def side_orders_def)

lemma no_larger_set_side:
  assumes "length os \<le> length (side_orders bid a)" and "bo_price ` set os \<subseteq> bo_price ` set (side_orders bid a)"
  shows "no_larger (set_side bid os a) a"
  using assms(1) card_mono [OF _ assms(2)]
  by (cases bid) (simp_all add: no_larger_def order_count_sides level_count_def)

lemma match_orders_no_larger:
  assumes "match_orders sy cid oid sd beyond leaves os = (os', l', rs, us)"
  shows "length os' \<le> length os \<and> bo_price ` set os' \<subseteq> bo_price ` set os"
  using assms
proof (induction os arbitrary: leaves os' rs us)
  case (Cons r os)
  then show ?case
    by (fastforce simp: Let_def after_fill_def split: if_splits prod.splits)
qed simp

lemma match_book_no_larger:
  "match_book cid oid sd lp hl qty a = (l', a', rs, us) \<Longrightarrow> no_larger a' a"
  using match_orders_no_larger by (force simp: match_book_def intro: no_larger_set_side split: prod.splits)

lemma unrest_no_larger: "no_larger (unrest r a) a"
  unfolding unrest_def Let_def by (rule no_larger_set_side) (auto simp: delete_order_def)

lemma insert_order_split:
  assumes "\<And>r. r \<in> set os1 \<Longrightarrow> \<not> price_before bid (bo_price x) (bo_price r)"
    and "\<And>r. r \<in> set os2 \<Longrightarrow> price_before bid (bo_price x) (bo_price r)"
  shows "insert_order bid x (os1 @ os2) = os1 @ x # os2"
  using assms by (cases os2) (simp_all add: insert_order_def)

lemma lookup_None_iff: "lookup_order oid a = None \<longleftrightarrow> oid \<notin> bo_order_id ` set (all_orders a)"
  by (auto simp: lookup_order_def find_None_iff)

lemma all_orders_sides: "set (all_orders a) = set (side_orders True a) \<union> set (side_orders False a)"
  by (simp add: all_orders_def side_orders_def)

lemma match_orders_ids:
  assumes "match_orders sy cid oid sd beyond leaves os = (os', l', rs, us)"
  shows "bo_order_id ` set os' \<subseteq> bo_order_id ` set os"
  using assms
proof (induction os arbitrary: leaves os' rs us)
  case (Cons r os)
  then show ?case
    by (fastforce simp: Let_def after_fill_def split: if_splits prod.splits)
qed simp

lemma match_book_lookup_None:
  assumes "match_book cid oid sd lp hl qty a = (l', a', rs, us)" and "lookup_order x a = None"
  shows "lookup_order x a' = None"
proof -
  obtain os where "match_orders (ab_symbol a) cid oid sd (beyond_limit sd hl lp) qty (side_orders (sd \<noteq> BUY) a) = (os, l', rs, us)"
    "a' = set_side (sd \<noteq> BUY) os a"
    using assms(1) by (auto simp: match_book_def split: prod.splits)
  moreover from this have "bo_order_id ` set os \<subseteq> bo_order_id ` set (side_orders (sd \<noteq> BUY) a)"
    using match_orders_ids by blast
  ultimately show ?thesis
    using assms(2) by (cases "sd = BUY") (auto simp: lookup_None_iff all_orders_sides)
qed

lemma match_book_symbol: "match_book cid oid sd lp hl qty a = (l', a', rs, us) \<Longrightarrow> ab_symbol a' = ab_symbol a"
  by (auto simp: match_book_def split: prod.splits)

end
