(* ===== verification/BookHeap.thy ===== *)
theory BookHeap
  imports BookSpec
begin

text \<open>
  How a pointer-level book of OrderBook represents an abstract book of BookSpec. A pair of ghost
  lists names, for each side, the levels in map order with the pool index of the level and of
  its order nodes; \<open>book_rel\<close> states that the pools, links, maps and index of a concrete book
  are exactly the ones these lists describe. The theory proves that unlinking, appending and
  rewriting a node keep \<open>book_rel\<close> and change the ghost lists in the expected way; the matching
  and order-entry operations follow in BookRefinement.
\<close>

section \<open>Doubly linked lists in a heap\<close>

abbreviation orders_of :: "SymbolOrderBook \<Rightarrow> nat \<rightharpoonup> BookOrder" where
  "orders_of b \<equiv> live (bk_order_pool b)"

abbreviation levels_of :: "SymbolOrderBook \<Rightarrow> nat \<rightharpoonup> PriceLevel" where
  "levels_of b \<equiv> live (bk_level_pool b)"

definition first_of :: "nat list \<Rightarrow> nat option \<Rightarrow> nat option" where
  "first_of xs n = (case xs of [] \<Rightarrow> n | i # _ \<Rightarrow> Some i)"

definition last_of :: "nat option \<Rightarrow> nat list \<Rightarrow> nat option" where
  "last_of p xs = (if xs = [] then p else Some (last xs))"

lemma first_of_simps [simp]:
  "first_of [] n = n" "first_of (i # xs) n = Some i"
  by (simp_all add: first_of_def)

lemma last_of_simps [simp]:
  "last_of p [] = p" "last_of p (xs @ [i]) = Some i" "last_of p (i # xs) = last_of (Some i) xs"
  by (simp_all add: last_of_def)

lemma first_of_hd [simp]: "xs \<noteq> [] \<Longrightarrow> first_of xs n = Some (hd xs)"
  by (cases xs) simp_all

lemma last_of_last [simp]: "xs \<noteq> [] \<Longrightarrow> last_of p xs = Some (last xs)"
  by (simp add: last_of_def)

lemma first_of_append: "first_of (xs @ ys) n = first_of xs (first_of ys n)"
  by (cases xs) simp_all

fun dll :: "(nat \<rightharpoonup> BookOrder) \<Rightarrow> nat option \<Rightarrow> nat list \<Rightarrow> nat option \<Rightarrow> bool" where
  "dll h p [] n \<longleftrightarrow> True"
| "dll h p (i # xs) n \<longleftrightarrow>
     (\<exists>r. h i = Some r \<and> bo_prev r = p \<and> bo_next r = first_of xs n) \<and> dll h (Some i) xs n"

lemma dll_append: "dll h p (xs @ ys) n \<longleftrightarrow> dll h p xs (first_of ys n) \<and> dll h (last_of p xs) ys n"
proof (induction xs arbitrary: p)
  case (Cons i xs)
  then show ?case by (auto simp: first_of_append)
qed simp

lemma dll_cong:
  assumes "\<And>i. i \<in> set xs \<Longrightarrow>
    map_option (\<lambda>r. (bo_prev r, bo_next r)) (h' i) = map_option (\<lambda>r. (bo_prev r, bo_next r)) (h i)"
  shows "dll h' p xs n \<longleftrightarrow> dll h p xs n"
  using assms
proof (induction xs arbitrary: p)
  case (Cons i xs)
  have "(\<exists>r. h' i = Some r \<and> bo_prev r = p \<and> bo_next r = m) \<longleftrightarrow>
      (\<exists>r. h i = Some r \<and> bo_prev r = p \<and> bo_next r = m)" for m
    using Cons.prems [of i] by (cases "h i"; cases "h' i") auto
  with Cons show ?case by simp
qed simp

lemma dll_frame [simp]: "i \<notin> set xs \<Longrightarrow> dll (h(i := v)) p xs n \<longleftrightarrow> dll h p xs n"
  by (rule dll_cong) auto

lemma dll_set_next:
  assumes "dll h p (xs @ [i]) n" and "h i = Some r" and "i \<notin> set xs"
  shows "dll (h(i \<mapsto> r\<lparr>bo_next := n'\<rparr>)) p (xs @ [i]) n'"
  using assms by (auto simp: dll_append)

lemma dll_set_prev:
  assumes "dll h p (i # xs) n" and "h i = Some r" and "i \<notin> set xs"
  shows "dll (h(i \<mapsto> r\<lparr>bo_prev := p'\<rparr>)) p' (i # xs) n"
  using assms by auto

section \<open>Ghost lists and the representation relation\<close>

type_synonym ghost = "(Price \<times> nat \<times> nat list) list"

definition gnodes :: "ghost \<Rightarrow> nat list" where
  "gnodes g = concat (map (\<lambda>(p, l, xs). xs) g)"

definition glevels :: "ghost \<Rightarrow> nat list" where
  "glevels g = map (\<lambda>(p, l, xs). l) g"

lemma gnodes_simps [simp]:
  "gnodes [] = []" "gnodes ((p, l, xs) # g) = xs @ gnodes g" "gnodes (g1 @ g2) = gnodes g1 @ gnodes g2"
  by (simp_all add: gnodes_def)

lemma glevels_simps [simp]:
  "glevels [] = []" "glevels ((p, l, xs) # g) = l # glevels g" "glevels (g1 @ g2) = glevels g1 @ glevels g2"
  by (simp_all add: glevels_def)

definition gkeys :: "ghost \<Rightarrow> (Price \<times> nat) list" where
  "gkeys g = map (\<lambda>(p, l, xs). (p, l)) g"

lemma gkeys_simps [simp]:
  "gkeys [] = []" "gkeys ((p, l, xs) # g) = (p, l) # gkeys g" "gkeys (g1 @ g2) = gkeys g1 @ gkeys g2"
  "map fst (gkeys g) = map fst g"
  by (simp_all add: gkeys_def case_prod_unfold)

text \<open>One level: its block and the list of its nodes.\<close>

definition level_ok ::
  "(nat \<rightharpoonup> BookOrder) \<Rightarrow> (nat \<rightharpoonup> PriceLevel) \<Rightarrow> bool \<Rightarrow> Price \<times> nat \<times> nat list \<Rightarrow> bool" where
  "level_ok oh lh bid e = (case e of (p, l, xs) \<Rightarrow>
     xs \<noteq> [] \<and>
     lh l = Some \<lparr>lv_price = p, lv_head = Some (hd xs), lv_tail = Some (last xs),
                  lv_order_count = of_nat (length xs)\<rparr> \<and>
     dll oh None xs None \<and>
     (\<forall>i\<in>set xs. \<exists>r. oh i = Some r \<and> bo_price r = p \<and> (bo_side r = BUY \<longleftrightarrow> bid)))"

definition maps_ok :: "SymbolOrderBook \<Rightarrow> (bool \<Rightarrow> ghost) \<Rightarrow> bool" where
  "maps_ok b G \<longleftrightarrow> (\<forall>bid. levels bid b = gkeys (G bid) \<and>
     sorted_wrt (price_before bid) (map fst (G bid)))"

definition heaps_ok :: "SymbolOrderBook \<Rightarrow> (bool \<Rightarrow> ghost) \<Rightarrow> bool" where
  "heaps_ok b G \<longleftrightarrow>
     (\<forall>bid. \<forall>e\<in>set (G bid). level_ok (orders_of b) (levels_of b) bid e) \<and>
     distinct (gnodes (G True) @ gnodes (G False)) \<and>
     distinct (glevels (G True) @ glevels (G False)) \<and>
     dom (orders_of b) = set (gnodes (G True)) \<union> set (gnodes (G False)) \<and>
     dom (levels_of b) = set (glevels (G True)) \<union> set (glevels (G False))"

definition index_ok :: "SymbolOrderBook \<Rightarrow> bool" where
  "index_ok b \<longleftrightarrow> inverse_maps (bk_order_index b) (map_option bo_order_id \<circ> orders_of b)"

definition pools_ok :: "SymbolOrderBook \<Rightarrow> bool" where
  "pools_ok b \<longleftrightarrow> pool_inv (bk_order_pool b) \<and> pool_inv (bk_level_pool b) \<and>
     pool_size (bk_order_pool b) < 2 ^ 64"

definition book_rel :: "SymbolOrderBook \<Rightarrow> (bool \<Rightarrow> ghost) \<Rightarrow> bool" where
  "book_rel b G \<longleftrightarrow> maps_ok b G \<and> heaps_ok b G \<and> index_ok b \<and> pools_ok b"

definition info :: "SymbolOrderBook \<Rightarrow> nat \<Rightarrow> OrderInfo" where
  "info b i = OrderInfo.truncate (the (orders_of b i))"

definition abs_book :: "SymbolOrderBook \<Rightarrow> (bool \<Rightarrow> ghost) \<Rightarrow> abook" where
  "abs_book b G = \<lparr>ab_symbol = bk_symbol b, ab_bids = map (info b) (gnodes (G True)),
     ab_asks = map (info b) (gnodes (G False))\<rparr>"

definition represents :: "SymbolOrderBook \<Rightarrow> abook \<Rightarrow> bool" where
  "represents b a \<longleftrightarrow> (\<exists>G. book_rel b G \<and> a = abs_book b G)"

text \<open>The frame of an operation: what it sends, and what it leaves alone.\<close>

definition effect ::
  "SymbolOrderBook \<Rightarrow> EngineOrderResponse list \<Rightarrow> BookUpdate list \<Rightarrow> SymbolOrderBook \<Rightarrow> bool" where
  "effect b rs us b' \<longleftrightarrow> bk_symbol b' = bk_symbol b \<and>
     bk_response_queue b' = push_all rs (bk_response_queue b) \<and>
     bk_update_queue b' = push_all us (bk_update_queue b) \<and>
     pool_size (bk_order_pool b') = pool_size (bk_order_pool b) \<and>
     pool_size (bk_level_pool b') = pool_size (bk_level_pool b)"

lemma effect_refl [simp]: "effect b [] [] b"
  by (simp add: effect_def)

lemma effect_trans:
  "effect b rs us b' \<Longrightarrow> effect b' rs' us' b'' \<Longrightarrow> effect b (rs @ rs') (us @ us') b''"
  by (simp add: effect_def)

section \<open>Field-wise facts\<close>

lemma send_simps [simp]:
  "bk_symbol (sendResponse x b) = bk_symbol b"
  "bk_order_pool (sendResponse x b) = bk_order_pool b"
  "bk_level_pool (sendResponse x b) = bk_level_pool b"
  "bk_order_index (sendResponse x b) = bk_order_index b"
  "levels bid (sendResponse x b) = levels bid b"
  "bk_symbol (sendBookUpdate ty oid sd pr q b) = bk_symbol b"
  "bk_order_pool (sendBookUpdate ty oid sd pr q b) = bk_order_pool b"
  "bk_level_pool (sendBookUpdate ty oid sd pr q b) = bk_level_pool b"
  "bk_order_index (sendBookUpdate ty oid sd pr q b) = bk_order_index b"
  "levels bid (sendBookUpdate ty oid sd pr q b) = levels bid b"
  by (simp_all add: sendResponse_def sendBookUpdate_def levels_def)

lemma set_levels_simps [simp]:
  "bk_symbol (set_levels bid m b) = bk_symbol b"
  "bk_response_queue (set_levels bid m b) = bk_response_queue b"
  "bk_update_queue (set_levels bid m b) = bk_update_queue b"
  "bk_order_pool (set_levels bid m b) = bk_order_pool b"
  "bk_level_pool (set_levels bid m b) = bk_level_pool b"
  "bk_order_index (set_levels bid m b) = bk_order_index b"
  "levels bid' (set_levels bid m b) = (if bid' = bid then m else levels bid' b)"
  by (auto simp: set_levels_def levels_def)

lemma levels_upd [simp]:
  "levels bid (b\<lparr>bk_order_pool := op\<rparr>) = levels bid b"
  "levels bid (b\<lparr>bk_level_pool := lp\<rparr>) = levels bid b"
  "levels bid (b\<lparr>bk_order_index := ix\<rparr>) = levels bid b"
  by (simp_all add: levels_def)

lemma book_rel_cong:
  assumes "bk_order_pool b' = bk_order_pool b" "bk_level_pool b' = bk_level_pool b"
    "bk_order_index b' = bk_order_index b" "\<And>bid. levels bid b' = levels bid b"
  shows "book_rel b' G \<longleftrightarrow> book_rel b G"
  using assms by (simp add: book_rel_def maps_ok_def heaps_ok_def index_ok_def pools_ok_def)

lemma book_rel_send [simp]:
  "book_rel (sendResponse x b) G \<longleftrightarrow> book_rel b G"
  "book_rel (sendBookUpdate ty oid sd pr q b) G \<longleftrightarrow> book_rel b G"
  by (rule book_rel_cong; simp)+

lemma info_send [simp]:
  "info (sendResponse x b) = info b"
  "info (sendBookUpdate ty oid sd pr q b) = info b"
  by (simp_all add: info_def fun_eq_iff)

lemma effect_sendResponse: "effect b rs us b' \<Longrightarrow> effect b (rs @ [x]) us (sendResponse x b')"
  by (simp add: effect_def) (simp add: sendResponse_def)

lemma effect_sendBookUpdate:
  "effect b rs us b' \<Longrightarrow>
     effect b rs (us @ [mk_update ty oid (bk_symbol b) sd pr q]) (sendBookUpdate ty oid sd pr q b')"
  by (simp add: effect_def) (simp add: sendBookUpdate_def)

lemma access_live [book_simps]:
  "orders_of b i = Some r \<Longrightarrow> read_order i b = Inr r"
  "orders_of b i = Some r \<Longrightarrow> write_order i f b = Inr (b\<lparr>bk_order_pool := pool_write i (f r) (bk_order_pool b)\<rparr>)"
  "levels_of b l = Some v \<Longrightarrow> read_level l b = Inr v"
  "levels_of b l = Some v \<Longrightarrow> write_level l g b = Inr (b\<lparr>bk_level_pool := pool_write l (g v) (bk_level_pool b)\<rparr>)"
  by (simp_all add: read_order_def write_order_def read_level_def write_level_def)

definition skeleton :: "SymbolOrderBook \<Rightarrow> SymbolOrderBook \<Rightarrow> bool" where
  "skeleton b b' \<longleftrightarrow> effect b [] [] b' \<and> bk_order_index b' = bk_order_index b \<and>
     (\<forall>bid. levels bid b' = levels bid b)"

definition same_info :: "(nat \<rightharpoonup> BookOrder) \<Rightarrow> (nat \<rightharpoonup> BookOrder) \<Rightarrow> bool" where
  "same_info h h' \<longleftrightarrow> (\<forall>j. map_option OrderInfo.truncate (h' j) = map_option OrderInfo.truncate (h j))"

lemma skeleton_refl [simp]: "skeleton b b"
  by (simp add: skeleton_def)

lemma skeleton_writes [simp]:
  "skeleton b (b'\<lparr>bk_order_pool := pool_write i r (bk_order_pool b')\<rparr>) \<longleftrightarrow> skeleton b b'"
  "skeleton b (b'\<lparr>bk_level_pool := pool_write l v (bk_level_pool b')\<rparr>) \<longleftrightarrow> skeleton b b'"
  by (simp_all add: skeleton_def effect_def)

lemma truncate_links [simp]:
  "OrderInfo.truncate (r\<lparr>bo_prev := p\<rparr>) = OrderInfo.truncate r"
  "OrderInfo.truncate (r\<lparr>bo_next := n\<rparr>) = OrderInfo.truncate r"
  by (simp_all add: OrderInfo.truncate_def)

lemmas unlink_simps = unlink_def book_simps pool_simps pools_ok_def same_info_def skeleton_def
  effect_def first_of_append

lemma truncate_sel [simp]:
  "bo_order_id (OrderInfo.truncate r) = bo_order_id r"
  "bo_client_id (OrderInfo.truncate r) = bo_client_id r"
  "bo_symbol (OrderInfo.truncate r) = bo_symbol r"
  "bo_order_type (OrderInfo.truncate r) = bo_order_type r"
  "bo_side (OrderInfo.truncate r) = bo_side r"
  "bo_price (OrderInfo.truncate r) = bo_price r"
  "bo_original_qty (OrderInfo.truncate r) = bo_original_qty r"
  "bo_qty (OrderInfo.truncate r) = bo_qty r"
  "bo_priority_ts (OrderInfo.truncate r) = bo_priority_ts r"
  by (simp_all add: OrderInfo.truncate_def)

lemma same_info_ids:
  "same_info h h' \<Longrightarrow> map_option bo_order_id (h' j) = map_option bo_order_id (h j)"
  by (auto simp: same_info_def map_option_case split: option.splits) (metis option.simps truncate_sel(1))+

lemma unlink_ok:
  assumes lev: "level_ok (orders_of b) (levels_of b) bid (p, l, xs @ i # ys)"
    and dist: "distinct (xs @ i # ys)" and pools: "pools_ok b"
  shows "\<exists>b'. unlink l i b = Inr b' \<and> skeleton b b' \<and> pools_ok b' \<and>
    levels_of b' = (levels_of b)(l \<mapsto> \<lparr>lv_price = p, lv_head = first_of (xs @ ys) None,
      lv_tail = last_of None (xs @ ys), lv_order_count = of_nat (length (xs @ ys))\<rparr>) \<and>
    dll (orders_of b') None (xs @ ys) None \<and> same_info (orders_of b) (orders_of b') \<and>
    (\<forall>j. j \<notin> set (xs @ ys) \<longrightarrow> orders_of b' j = orders_of b j)"
proof -
  have lv: "levels_of b l = Some \<lparr>lv_price = p, lv_head = Some (hd (xs @ i # ys)), lv_tail = Some (last (xs @ i # ys)),
                  lv_order_count = of_nat (length (xs @ i # ys))\<rparr>"
    and d: "dll (orders_of b) None (xs @ i # ys) None"
    using lev by (auto simp: level_ok_def)
  show ?thesis
  proof (cases xs rule: rev_cases)
    case Nil
    note xs = this
    show ?thesis
    proof (cases ys)
      case Nil
      with xs lv d dist pools show ?thesis
        by (auto simp: unlink_simps)
    next
      case (Cons m ys')
      with xs lv d dist pools show ?thesis
        by (auto simp: unlink_simps)
    qed
  next
    case (snoc xs' k)
    note xs = this
    show ?thesis
    proof (cases ys)
      case Nil
      with xs lv d dist pools show ?thesis
        by (auto simp: unlink_simps hd_append dll_append)
    next
      case (Cons m ys')
      with xs lv d dist pools show ?thesis
        by (auto simp: unlink_simps hd_append dll_append)
    qed
  qed
qed


section \<open>Replacing a stretch of levels\<close>

lemma level_ok_cong:
  assumes "\<And>j. j \<in> set (gnodes [e]) \<Longrightarrow> oh' j = oh j" and "\<And>l. l \<in> set (glevels [e]) \<Longrightarrow> lh' l = lh l"
  shows "level_ok oh' lh' bid e \<longleftrightarrow> level_ok oh lh bid e"
proof -
  obtain p l xs where e: "e = (p, l, xs)" by (cases e) auto
  have "dll oh' None xs None \<longleftrightarrow> dll oh None xs None"
    using assms(1) e by (intro dll_cong) simp
  then show ?thesis using assms e by (simp add: level_ok_def)
qed

lemma maps_okD:
  assumes "maps_ok b G" and "G bid = g"
  shows "levels bid b = gkeys g" and "sorted_wrt (price_before bid) (map fst (gkeys g))"
    and "sorted_wrt (price_before bid) (map fst g)"
  using assms by (auto simp: maps_ok_def)

lemma heaps_ok_splice:
  assumes ok: "heaps_ok b G" and G: "G bid = g1 @ es @ g2"
    and lev: "\<And>e. e \<in> set es' \<Longrightarrow> level_ok (orders_of b') (levels_of b') bid e"
    and oh: "\<And>j. j \<notin> set (gnodes es) \<union> set (gnodes es') \<Longrightarrow> orders_of b' j = orders_of b j"
    and lh: "\<And>l. l \<notin> set (glevels es) \<union> set (glevels es') \<Longrightarrow> levels_of b' l = levels_of b l"
    and nodes: "distinct (gnodes es')" "set (gnodes es') \<inter> (dom (orders_of b) - set (gnodes es)) = {}"
    and levs: "distinct (glevels es')" "set (glevels es') \<inter> (dom (levels_of b) - set (glevels es)) = {}"
    and dom: "dom (orders_of b') = dom (orders_of b) - set (gnodes es) \<union> set (gnodes es')"
      "dom (levels_of b') = dom (levels_of b) - set (glevels es) \<union> set (glevels es')"
  shows "heaps_ok b' (G(bid := g1 @ es' @ g2))"
proof -
  let ?G = "G(bid := g1 @ es' @ g2)"
  have old: "\<And>bid e. e \<in> set (G bid) \<Longrightarrow> level_ok (orders_of b) (levels_of b) bid e"
    using ok by (auto simp: heaps_ok_def)
  have dn: "distinct (gnodes g1 @ gnodes es @ gnodes g2 @ gnodes (G (\<not> bid)))"
    and dl: "distinct (glevels g1 @ glevels es @ glevels g2 @ glevels (G (\<not> bid)))"
    using ok G by (cases bid; auto simp: heaps_ok_def)+
  have rest: "dom (orders_of b) - set (gnodes es) = set (gnodes (g1 @ g2)) \<union> set (gnodes (G (\<not> bid)))"
    "dom (levels_of b) - set (glevels es) = set (glevels (g1 @ g2)) \<union> set (glevels (G (\<not> bid)))"
    using ok G dn dl by (cases bid; auto simp: heaps_ok_def)+
  have other: "level_ok (orders_of b') (levels_of b') bid' e"
    if e: "e \<in> set (G bid')" "e \<in> set (g1 @ g2) \<or> e \<in> set (G (\<not> bid))" for e bid'
  proof -
    have "set (gnodes [e]) \<subseteq> dom (orders_of b) - set (gnodes es)"
      "set (glevels [e]) \<subseteq> dom (levels_of b) - set (glevels es)"
      using e(2) unfolding rest by (auto simp: gnodes_def glevels_def)
    then have "level_ok (orders_of b') (levels_of b') bid' e = level_ok (orders_of b) (levels_of b) bid' e"
      using oh lh nodes(2) levs(2) by (intro level_ok_cong) blast+
    then show ?thesis using old e(1) by blast
  qed
  have "\<forall>bid'. \<forall>e\<in>set (?G bid'). level_ok (orders_of b') (levels_of b') bid' e"
  proof (intro allI ballI)
    fix bid' e
    assume "e \<in> set (?G bid')"
    then consider "bid' = bid" "e \<in> set es'" | "e \<in> set (G bid')" "e \<in> set (g1 @ g2) \<or> e \<in> set (G (\<not> bid))"
      using G by (cases "bid' = bid") auto
    then show "level_ok (orders_of b') (levels_of b') bid' e"
      using lev other by cases auto
  qed
  moreover have "distinct (gnodes g1 @ gnodes es' @ gnodes g2 @ gnodes (G (\<not> bid)))"
    using dn nodes rest(1) by auto
  moreover have "distinct (glevels g1 @ glevels es' @ glevels g2 @ glevels (G (\<not> bid)))"
    using dl levs rest(2) by auto
  moreover have "dom (orders_of b') = set (gnodes (g1 @ es' @ g2)) \<union> set (gnodes (G (\<not> bid)))"
    unfolding dom(1) rest by auto
  moreover have "dom (levels_of b') = set (glevels (g1 @ es' @ g2)) \<union> set (glevels (G (\<not> bid)))"
    unfolding dom(2) rest by auto
  ultimately show ?thesis
    unfolding heaps_ok_def by (cases bid) auto
qed

lemma maps_ok_splice:
  assumes "maps_ok b G" and "G bid = g1 @ es @ g2"
    and "levels bid b' = gkeys (g1 @ es' @ g2)"
    and "levels (\<not> bid) b' = levels (\<not> bid) b"
    and "sorted_wrt (price_before bid) (map fst (g1 @ es' @ g2))"
  shows "maps_ok b' (G(bid := g1 @ es' @ g2))"
  using assms by (cases bid) (auto simp: maps_ok_def all_bool_eq)

lemma book_relD:
  assumes "book_rel b G" and "G bid = g1 @ (p, l, xs) # g2"
  shows "level_ok (orders_of b) (levels_of b) bid (p, l, xs)" and "distinct xs"
    and "smap_find p (levels bid b) = Some l"
    and "length xs \<le> pool_size (bk_order_pool b)" and "length xs < 2 ^ 64"
proof -
  show "level_ok (orders_of b) (levels_of b) bid (p, l, xs)"
    using assms by (auto simp: book_rel_def heaps_ok_def)
  show d: "distinct xs"
    using assms by (cases bid) (auto simp: book_rel_def heaps_ok_def)
  have "levels bid b = gkeys g1 @ (p, l) # gkeys g2"
    "sorted_wrt (price_before bid) (map fst (gkeys g1 @ (p, l) # gkeys g2))"
    using assms maps_okD [of b G bid] by (auto simp: book_rel_def)
  then show "smap_find p (levels bid b) = Some l"
    using levels_order.find_mid by metis
  have "set xs \<subseteq> dom (orders_of b)"
    using assms by (cases bid) (auto simp: book_rel_def heaps_ok_def)
  then have "card (set xs) \<le> card (dom (orders_of b))"
    by (intro card_mono) simp_all
  then show len: "length xs \<le> pool_size (bk_order_pool b)"
    using card_live_le [of "bk_order_pool b"] d by (simp add: distinct_card)
  then show "length xs < 2 ^ 64"
    using assms(1) by (simp add: book_rel_def pools_ok_def)
qed

definition glev :: "Price \<Rightarrow> nat \<Rightarrow> nat list \<Rightarrow> ghost" where
  "glev p l xs = (if xs = [] then [] else [(p, l, xs)])"

lemma glev_simps [simp]:
  "gnodes (glev p l xs) = xs"
  "glev p l [] = []" "xs \<noteq> [] \<Longrightarrow> glev p l xs = [(p, l, xs)]"
  by (simp_all add: glev_def)

lemma set_levels_pool:
  "bk_level_pool (set_levels bid m b) = bk_level_pool b"
  "(set_levels bid m b)\<lparr>bk_level_pool := lp\<rparr> = set_levels bid m (b\<lparr>bk_level_pool := lp\<rparr>)"
  by (cases b; simp add: set_levels_def)+

lemma drop_level_simp:
  "drop_level_if_empty bid price level b =
     rbind (read_level level b) (\<lambda>v.
     if lv_order_count v = 0 then
       rbind (deallocate level (bk_level_pool b)) (\<lambda>lp.
         Inr (set_levels bid (smap_erase price (levels bid b)) (b\<lparr>bk_level_pool := lp\<rparr>)))
     else Inr b)"
  by (simp add: drop_level_if_empty_def set_levels_pool Let_def cong: if_cong)

lemma drop_level_ok:
  assumes v: "levels_of b l = Some v" "lv_order_count v = of_nat (length xs)" and len: "length xs < 2 ^ 64"
    and pools: "pools_ok b"
  shows "\<exists>b'. drop_level_if_empty bid p l b = Inr b' \<and> effect b [] [] b' \<and> pools_ok b' \<and>
    bk_order_pool b' = bk_order_pool b \<and> bk_order_index b' = bk_order_index b \<and>
    levels_of b' = (if xs = [] then (levels_of b)(l := None) else levels_of b) \<and>
    levels bid b' = (if xs = [] then smap_erase p (levels bid b) else levels bid b) \<and>
    levels (\<not> bid) b' = levels (\<not> bid) b"
proof (cases "xs = []")
  case True
  then have "lv_order_count v = 0" using v(2) by simp
  moreover obtain lp where "deallocate l (bk_level_pool b) = Inr lp" "live lp = (levels_of b)(l := None)"
    "pool_inv lp" "pool_size lp = pool_size (bk_level_pool b)"
    using pool.dealloc_live [of "bk_level_pool b" l] v(1) pools by (auto simp: pools_ok_def)
  ultimately show ?thesis
    using True v(1) pools by (simp add: drop_level_simp book_simps effect_def pools_ok_def)
next
  case False
  then have "lv_order_count v \<noteq> 0" using v(2) len by (simp add: of_nat64_eq_0)
  with False v(1) pools show ?thesis
    by (simp add: drop_level_simp book_simps)
qed

lemma same_info_live:
  assumes "same_info h h'" and "h j = Some r"
  shows "\<exists>r'. h' j = Some r' \<and> OrderInfo.truncate r' = OrderInfo.truncate r"
  using assms unfolding same_info_def by (metis map_option_eq_Some)

lemma same_info_dom: "same_info h h' \<Longrightarrow> dom h' = dom h"
  unfolding same_info_def by (metis dom_map_option_comp comp_def ext)

lemma info_eqI:
  "map_option OrderInfo.truncate (orders_of b' j) = map_option OrderInfo.truncate (orders_of b j) \<Longrightarrow>
     info b' j = info b j"
  by (cases "orders_of b j"; cases "orders_of b' j") (auto simp: info_def)


text \<open>Removing one node from its level: heaps, maps and index of the new book.\<close>

lemma level_ok_remove:
  assumes lev: "level_ok oh lh bid (p, l, xs @ i # ys)" and dist: "distinct (xs @ i # ys)"
    and ne: "xs @ ys \<noteq> []" and h1: "same_info oh h1" "dll h1 None (xs @ ys) None"
    and lh': "lh' l = Some \<lparr>lv_price = p, lv_head = first_of (xs @ ys) None,
      lv_tail = last_of None (xs @ ys), lv_order_count = of_nat (length (xs @ ys))\<rparr>"
  shows "level_ok (h1(i := None)) lh' bid (p, l, xs @ ys)"
proof -
  have "\<exists>r. (h1(i := None)) j = Some r \<and> bo_price r = p \<and> (bo_side r = BUY \<longleftrightarrow> bid)"
    if j: "j \<in> set (xs @ ys)" for j
  proof -
    obtain r where r: "oh j = Some r" "bo_price r = p" "(bo_side r = BUY) = bid"
      using lev j by (auto simp: level_ok_def)
    obtain r' where "h1 j = Some r'" "OrderInfo.truncate r' = OrderInfo.truncate r"
      using same_info_live [OF h1(1) r(1)] by blast
    moreover have "j \<noteq> i" using dist j by auto
    ultimately show ?thesis
      using r(2,3) truncate_sel(5,6) [of r'] truncate_sel(5,6) [of r] by simp
  qed
  moreover have "dll (h1(i := None)) None (xs @ ys) None"
    using h1(2) dist by simp
  ultimately show ?thesis
    using ne lh' by (simp add: level_ok_def)
qed

lemma heaps_ok_remove:
  assumes rel: "book_rel b G" and G: "G bid = g1 @ (p, l, xs @ i # ys) # g2"
    and h1: "same_info (orders_of b) h1" "dll h1 None (xs @ ys) None"
      "\<forall>j. j \<notin> set (xs @ ys) \<longrightarrow> h1 j = orders_of b j"
    and oh: "orders_of b' = h1(i := None)"
    and lh: "levels_of b' = (levels_of b)(l := if xs @ ys = [] then None else
      Some \<lparr>lv_price = p, lv_head = first_of (xs @ ys) None, lv_tail = last_of None (xs @ ys),
            lv_order_count = of_nat (length (xs @ ys))\<rparr>)"
  shows "heaps_ok b' (G(bid := g1 @ glev p l (xs @ ys) @ g2))"
proof (rule heaps_ok_splice [where es = "[(p, l, xs @ i # ys)]" and b = b])
  let ?zs = "xs @ ys"
  note lev = book_relD [OF rel G]
  show "heaps_ok b G" "G bid = g1 @ [(p, l, xs @ i # ys)] @ g2"
    using rel G by (auto simp: book_rel_def)
  show "orders_of b' j = orders_of b j"
    if "j \<notin> set (gnodes [(p, l, xs @ i # ys)]) \<union> set (gnodes (glev p l ?zs))" for j
    using that oh h1(3) by simp
  show "levels_of b' m = levels_of b m"
    if "m \<notin> set (glevels [(p, l, xs @ i # ys)]) \<union> set (glevels (glev p l ?zs))" for m
    using that lh by simp
  show "level_ok (orders_of b') (levels_of b') bid e" if "e \<in> set (glev p l ?zs)" for e
    using that level_ok_remove [OF lev(1,2) _ h1(1,2)] lh oh by (cases "?zs = []") simp_all
  show "distinct (gnodes (glev p l ?zs))" "distinct (glevels (glev p l ?zs))"
    using lev(2) by (auto simp: glev_def)
  show "set (gnodes (glev p l ?zs)) \<inter> (dom (orders_of b) - set (gnodes [(p, l, xs @ i # ys)])) = {}"
    "set (glevels (glev p l ?zs)) \<inter> (dom (levels_of b) - set (glevels [(p, l, xs @ i # ys)])) = {}"
    by (auto simp: glev_def)
  have "set (xs @ i # ys) \<subseteq> dom (orders_of b)"
    using lev(1) by (auto simp: level_ok_def)
  moreover have "dom (orders_of b') = dom (orders_of b) - {i}"
    using oh same_info_dom [OF h1(1)] by simp
  ultimately show "dom (orders_of b') =
      dom (orders_of b) - set (gnodes [(p, l, xs @ i # ys)]) \<union> set (gnodes (glev p l ?zs))"
    using lev(2) by auto
  show "dom (levels_of b') =
      dom (levels_of b) - set (glevels [(p, l, xs @ i # ys)]) \<union> set (glevels (glev p l ?zs))"
    unfolding lh by (cases "?zs = []") (auto simp: glev_def)
qed

lemma maps_ok_remove:
  assumes ok: "maps_ok b G" and G: "G bid = g1 @ (p, l, xs) # g2"
    and l1: "levels bid b' = (if zs = [] then smap_erase p (levels bid b) else levels bid b)"
    and l2: "levels (\<not> bid) b' = levels (\<not> bid) b"
  shows "maps_ok b' (G(bid := g1 @ glev p l zs @ g2))"
proof (rule maps_ok_splice [OF ok _ _ l2])
  show "G bid = g1 @ [(p, l, xs)] @ g2" using G by simp
  have lb: "levels bid b = gkeys g1 @ (p, l) # gkeys g2"
    and st: "sorted_wrt (price_before bid) (map fst (gkeys g1 @ (p, l) # gkeys g2))"
    using maps_okD [OF ok G] by auto
  show "levels bid b' = gkeys (g1 @ glev p l zs @ g2)"
    using lb levels_order.erase_mid [OF st] l1 by (auto simp: glev_def)
  show "sorted_wrt (price_before bid) (map fst (g1 @ glev p l zs @ g2))"
    using st by (auto simp: glev_def sorted_wrt_append)
qed

lemma index_ok_remove:
  assumes ok: "index_ok b" and r: "orders_of b i = Some r" and h1: "same_info (orders_of b) h1"
    and oh: "orders_of b' = h1(i := None)"
    and ix: "bk_order_index b' = (bk_order_index b)(bo_order_id r := None)"
  shows "index_ok b'"
proof -
  have "map_option bo_order_id \<circ> orders_of b' = (map_option bo_order_id \<circ> orders_of b)(i := None)"
    using oh same_info_ids [OF h1] by (simp add: fun_eq_iff)
  then show ?thesis
    using ok r ix inverse_maps_delete [of "bk_order_index b" _ i "bo_order_id r"]
    by (simp add: index_ok_def)
qed

lemma removeOrder_ok:
  assumes rel: "book_rel b G" and G: "G bid = g1 @ (p, l, xs @ i # ys) # g2"
  shows "\<exists>b'. removeOrder i b = Inr b' \<and> effect b [] [] b' \<and>
    book_rel b' (G(bid := g1 @ glev p l (xs @ ys) @ g2)) \<and> (\<forall>j. j \<noteq> i \<longrightarrow> info b' j = info b j)"
proof -
  note lev = book_relD [OF rel G]
  let ?zs = "xs @ ys"
  have pools: "pools_ok b" and ix: "index_ok b" and mp: "maps_ok b G"
    using rel by (simp_all add: book_rel_def)
  obtain r where r: "orders_of b i = Some r" "bo_price r = p" "(bo_side r = BUY) = bid"
    using lev(1) by (auto simp: level_ok_def)
  obtain b1 where b1: "unlink l i b = Inr b1" "skeleton b b1" "pools_ok b1"
    "levels_of b1 = (levels_of b)(l \<mapsto> \<lparr>lv_price = p, lv_head = first_of ?zs None,
      lv_tail = last_of None ?zs, lv_order_count = of_nat (length ?zs)\<rparr>)"
    "dll (orders_of b1) None ?zs None" "same_info (orders_of b) (orders_of b1)"
    "\<forall>j. j \<notin> set ?zs \<longrightarrow> orders_of b1 j = orders_of b j"
    using unlink_ok [OF lev(1,2) pools] by auto
  obtain b2 where b2: "drop_level_if_empty bid p l b1 = Inr b2" "effect b1 [] [] b2" "pools_ok b2"
    "bk_order_pool b2 = bk_order_pool b1" "bk_order_index b2 = bk_order_index b1"
    "levels_of b2 = (if ?zs = [] then (levels_of b1)(l := None) else levels_of b1)"
    "levels bid b2 = (if ?zs = [] then smap_erase p (levels bid b1) else levels bid b1)"
    "levels (\<not> bid) b2 = levels (\<not> bid) b1"
    using drop_level_ok [of b1 l _ ?zs bid p] b1(3,4) lev(5) by auto
  have r1: "orders_of b1 i = Some r"
    using b1(7) r(1) lev(2) by simp
  obtain op where op: "deallocate i (bk_order_pool b2) = Inr op" "live op = (orders_of b1)(i := None)"
    "pool_inv op" "pool_size op = pool_size (bk_order_pool b2)"
    using pool.dealloc_live [of "bk_order_pool b2" i] r1 b2(3,4) by (auto simp: pools_ok_def)
  let ?b = "b2\<lparr>bk_order_index := (bk_order_index b)(bo_order_id r := None), bk_order_pool := op\<rparr>"
  have "removeOrder i b = Inr ?b"
    using r r1 lev(3) b1(1,2) b2(1,4,5) op(1)
    by (simp add: removeOrder_def book_simps Let_def skeleton_def)
  moreover have "effect b [] [] ?b"
    using b1(2) b2(2) op(4) by (simp add: effect_def skeleton_def)
  moreover have "info ?b j = info b j" if "j \<noteq> i" for j
    using that b1(6) op(2) by (intro info_eqI) (simp add: same_info_def)
  moreover have "maps_ok ?b (G(bid := g1 @ glev p l ?zs @ g2))"
    using maps_ok_remove [OF mp G] b1(2) b2(7,8) by (simp add: skeleton_def)
  moreover have "heaps_ok ?b (G(bid := g1 @ glev p l ?zs @ g2))"
    using heaps_ok_remove [OF rel G b1(6,5,7), of ?b] op(2) b2(6) b1(4) by simp
  moreover have "index_ok ?b"
    using index_ok_remove [OF ix r(1) b1(6), of ?b] op(2) by simp
  ultimately show ?thesis
    using b2(3) op(3,4) by (auto simp: book_rel_def pools_ok_def)
qed

section \<open>Appending a node\<close>

lemma append_tail_ok:
  assumes lv: "levels_of b l = Some \<lparr>lv_price = p, lv_head = first_of xs None, lv_tail = last_of None xs,
      lv_order_count = of_nat (length xs)\<rparr>"
    and d: "dll (orders_of b) None xs None" and i: "i \<notin> set xs" "orders_of b i = Some r"
    and dist: "distinct xs" and pools: "pools_ok b"
  shows "\<exists>b'. append_tail l i b = Inr b' \<and> skeleton b b' \<and> pools_ok b' \<and>
    levels_of b' = (levels_of b)(l \<mapsto> \<lparr>lv_price = p, lv_head = Some (hd (xs @ [i])),
      lv_tail = Some i, lv_order_count = of_nat (length (xs @ [i]))\<rparr>) \<and>
    dll (orders_of b') None (xs @ [i]) None \<and> same_info (orders_of b) (orders_of b') \<and>
    (\<forall>j. j \<notin> set (xs @ [i]) \<longrightarrow> orders_of b' j = orders_of b j)"
proof (cases xs rule: rev_cases)
  case Nil
  with assms show ?thesis
    by (auto simp: append_tail_def unlink_simps)
next
  case (snoc ys k)
  with assms show ?thesis
    by (auto simp: append_tail_def unlink_simps hd_append dll_append)
qed

lemma write_links_ok:
  assumes rel: "book_rel b G" and r: "orders_of b i = Some r"
    and f: "bo_prev (f r) = bo_prev r" "bo_next (f r) = bo_next r" "bo_price (f r) = bo_price r"
      "bo_side (f r) = bo_side r" "bo_order_id (f r) = bo_order_id r"
  shows "\<exists>b'. write_order i f b = Inr b' \<and> effect b [] [] b' \<and> book_rel b' G \<and>
    info b' = (info b)(i := OrderInfo.truncate (f r)) \<and> orders_of b' = (orders_of b)(i \<mapsto> f r)"
proof -
  let ?b = "b\<lparr>bk_order_pool := pool_write i (f r) (bk_order_pool b)\<rparr>"
  have oh: "orders_of ?b = (orders_of b)(i \<mapsto> f r)"
    using r by (simp add: pool_simps)
  have lev: "level_ok (orders_of ?b) (levels_of ?b) bid e" if "level_ok (orders_of b) (levels_of b) bid e" for bid e
  proof -
    have "dll (orders_of ?b) None xs None = dll (orders_of b) None xs None" for xs
      using f r oh by (intro dll_cong) auto
    then show ?thesis
      using that r f oh by (auto simp: level_ok_def split: prod.splits)
  qed
  have "map_option bo_order_id \<circ> orders_of ?b = map_option bo_order_id \<circ> orders_of b"
    using r f oh by (auto simp: fun_eq_iff)
  moreover have "dom (orders_of ?b) = dom (orders_of b)"
    using r oh by auto
  ultimately have "book_rel ?b G"
    using rel lev r
    by (auto simp: book_rel_def maps_ok_def heaps_ok_def index_ok_def pools_ok_def pool_simps)
  moreover have "info ?b = (info b)(i := OrderInfo.truncate (f r))"
    using oh by (auto simp: info_def fun_eq_iff)
  ultimately show ?thesis
    using r oh by (simp add: access_live(2) effect_def)
qed

lemma gkeys_split:
  assumes "gkeys g = m1 @ m2"
  shows "\<exists>g1 g2. g = g1 @ g2 \<and> gkeys g1 = m1 \<and> gkeys g2 = m2"
  using assms by (auto simp: gkeys_def map_eq_append_conv)

lemma gkeys_member:
  assumes "smap_find p (gkeys g) = Some l"
  shows "\<exists>g1 xs g2. g = g1 @ (p, l, xs) # g2"
proof -
  have "(p, l) \<in> set (gkeys g)"
    using assms map_of_SomeD by (fastforce simp: smap_find_def)
  then obtain xs where "(p, l, xs) \<in> set g"
    by (auto simp: gkeys_def)
  then show ?thesis
    using split_list by fast
qed

text \<open>
  Looking up or creating the level of a price: the ghost list splits around that level, which
  has the nodes \<open>xs\<close> (none when the level is new).
\<close>

lemma find_or_create_level_cases:
  assumes maps: "maps_ok b G" and pools: "pools_ok b"
    and lev: "\<And>e. e \<in> set (G bid) \<Longrightarrow> level_ok oh (levels_of b) bid e"
  obtains
    (full) "find_or_create_level bid p b = Inl PoolOutOfSpace"
      "card (dom (levels_of b)) + 1 = pool_size (bk_level_pool b)"
  | (found) l b' g1 xs g2 where "find_or_create_level bid p b = Inr (l, b')" "effect b [] [] b'" "pools_ok b'"
      "bk_order_pool b' = bk_order_pool b" "bk_order_index b' = bk_order_index b"
      "G bid = g1 @ glev p l xs @ g2" "levels bid b' = gkeys g1 @ (p, l) # gkeys g2"
      "levels (\<not> bid) b' = levels (\<not> bid) b"
      "sorted_wrt (price_before bid) (map fst g1 @ p # map fst g2)"
      "xs = [] \<longrightarrow> levels_of b l = None"
      "levels_of b' = (levels_of b)(l \<mapsto> \<lparr>lv_price = p, lv_head = first_of xs None,
        lv_tail = last_of None xs, lv_order_count = of_nat (length xs)\<rparr>)"
proof (cases "smap_find p (levels bid b)")
  case (Some l)
  then obtain g1 xs g2 where G: "G bid = g1 @ (p, l, xs) # g2"
    using gkeys_member maps_okD(1) [OF maps refl] by metis
  note md = maps_okD [OF maps G]
  have "level_ok oh (levels_of b) bid (p, l, xs)" using lev G by simp
  then have "xs \<noteq> []" "levels_of b l = Some \<lparr>lv_price = p, lv_head = first_of xs None,
      lv_tail = last_of None xs, lv_order_count = of_nat (length xs)\<rparr>"
    by (auto simp: level_ok_def)
  moreover have "find_or_create_level bid p b = Inr (l, b)"
    using Some by (simp add: find_or_create_level_def)
  ultimately show ?thesis
    using G md pools
    by (intro found [of l b g1 xs g2]) auto
next
  case None
  note md = maps_okD [OF maps refl, of bid]
  have inv: "pool_inv (bk_level_pool b)" using pools by (simp add: pools_ok_def)
  show ?thesis
  proof (cases "allocate (mk_level p) (bk_level_pool b)")
    case (Inl e)
    then show ?thesis
      using None pool.alloc_Inl [OF inv Inl] by (intro full) (simp_all add: find_or_create_level_def)
  next
    case (Inr x)
    obtain l lp where x: "x = (l, lp)" by (cases x)
    note al = pool.alloc_Inr [OF inv Inr [unfolded x]]
    obtain m1 m2 where m: "gkeys (G bid) = m1 @ m2"
      "smap_insert (price_before bid) p l (levels bid b) = m1 @ (p, l) # m2"
      "\<forall>x\<in>set m1. price_before bid (fst x) p" "\<forall>x\<in>set m2. price_before bid p (fst x)"
      using levels_order.insert_absent [OF md(2) [folded md(1)] None, of l] md(1) by auto
    obtain g1 g2 where g: "G bid = g1 @ g2" "gkeys g1 = m1" "gkeys g2 = m2"
      using gkeys_split [OF m(1)] by blast
    let ?b = "set_levels bid (m1 @ (p, l) # m2) (b\<lparr>bk_level_pool := lp\<rparr>)"
    have "find_or_create_level bid p b = Inr (l, ?b)"
      using None Inr x m(2) by (simp add: find_or_create_level_def)
    moreover have "sorted_wrt (price_before bid) (map fst g1 @ p # map fst g2)"
    proof -
      have "\<forall>x\<in>set (map fst g1). price_before bid x p" "\<forall>x\<in>set (map fst g2). price_before bid p x"
        using m(3,4) g(2,3) gkeys_simps(4) [of g1] gkeys_simps(4) [of g2] by (metis imageE set_map)+
      then show ?thesis
        using md(3) g(1) levels_order.trans by (auto simp: sorted_wrt_append)
    qed
    ultimately show ?thesis
      using al g pools
      by (intro found [of l ?b g1 "[]" g2]) (auto simp: effect_def pools_ok_def mk_level_def)
  qed
qed


lemma heaps_ok_append:
  assumes ok: "heaps_ok b G" and G: "G bid = g1 @ glev p l xs @ g2"
    and i: "orders_of b i = None" and l: "xs = [] \<longrightarrow> levels_of b l = None"
    and oh: "same_info ((orders_of b)(i \<mapsto> r)) (orders_of b')" "dll (orders_of b') None (xs @ [i]) None"
      "\<forall>j. j \<notin> set (xs @ [i]) \<longrightarrow> orders_of b' j = orders_of b j"
    and r: "bo_price r = p" "(bo_side r = BUY) = bid"
    and lh: "levels_of b' = (levels_of b)(l \<mapsto> \<lparr>lv_price = p, lv_head = Some (hd (xs @ [i])),
      lv_tail = Some i, lv_order_count = of_nat (length (xs @ [i]))\<rparr>)"
  shows "heaps_ok b' (G(bid := g1 @ [(p, l, xs @ [i])] @ g2))"
proof (rule heaps_ok_splice [OF ok G])
  have old: "xs \<noteq> [] \<Longrightarrow> level_ok (orders_of b) (levels_of b) bid (p, l, xs)"
    using ok G by (auto simp: heaps_ok_def)
  have xs: "set xs \<subseteq> dom (orders_of b)"
    using old by (cases "xs = []") (auto simp: level_ok_def)
  have dist: "distinct xs"
    using ok G by (cases bid) (auto simp: heaps_ok_def)
  have priced: "\<exists>r'. orders_of b' j = Some r' \<and> bo_price r' = p \<and> (bo_side r' = BUY \<longleftrightarrow> bid)"
    if j: "j \<in> set (xs @ [i])" for j
  proof -
    obtain r0 where r0: "((orders_of b)(i \<mapsto> r)) j = Some r0" "bo_price r0 = p" "(bo_side r0 = BUY) = bid"
      using j old r by (cases "xs = []"; cases "j = i") (auto simp: level_ok_def)
    obtain r' where "orders_of b' j = Some r'" "OrderInfo.truncate r' = OrderInfo.truncate r0"
      using same_info_live [OF oh(1) r0(1)] by blast
    then show ?thesis
      using r0(2,3) truncate_sel(5,6) [of r'] truncate_sel(5,6) [of r0] by simp
  qed
  show "level_ok (orders_of b') (levels_of b') bid e" if "e \<in> set [(p, l, xs @ [i])]" for e
    using that oh(2) lh priced by (simp add: level_ok_def)
  show "orders_of b' j = orders_of b j"
    if "j \<notin> set (gnodes (glev p l xs)) \<union> set (gnodes [(p, l, xs @ [i])])" for j
    using that oh(3) by simp
  show "levels_of b' m = levels_of b m"
    if "m \<notin> set (glevels (glev p l xs)) \<union> set (glevels [(p, l, xs @ [i])])" for m
    using that lh by simp
  show "distinct (gnodes [(p, l, xs @ [i])])" "distinct (glevels [(p, l, xs @ [i])])"
    using xs i dist by (auto simp: domIff)
  show "set (gnodes [(p, l, xs @ [i])]) \<inter> (dom (orders_of b) - set (gnodes (glev p l xs))) = {}"
    using i by auto
  show "set (glevels [(p, l, xs @ [i])]) \<inter> (dom (levels_of b) - set (glevels (glev p l xs))) = {}"
    using l by (cases "xs = []") (auto simp: glev_def)
  show "dom (orders_of b') = dom (orders_of b) - set (gnodes (glev p l xs)) \<union> set (gnodes [(p, l, xs @ [i])])"
    using same_info_dom [OF oh(1)] xs by auto
  show "dom (levels_of b') = dom (levels_of b) - set (glevels (glev p l xs)) \<union> set (glevels [(p, l, xs @ [i])])"
    unfolding lh by (auto simp: glev_def)
qed

lemma index_ok_append:
  assumes ok: "index_ok b" and i: "orders_of b i = None" and fresh: "bk_order_index b (bo_order_id r) = None"
    and oh: "same_info ((orders_of b)(i \<mapsto> r)) (orders_of b')"
    and ix: "bk_order_index b' = (bk_order_index b)(bo_order_id r \<mapsto> i)"
  shows "index_ok b'"
proof -
  have "map_option bo_order_id \<circ> orders_of b' = (map_option bo_order_id \<circ> orders_of b)(i \<mapsto> bo_order_id r)"
    using same_info_ids [OF oh] by (simp add: fun_eq_iff)
  then show ?thesis
    using ok i fresh ix inverse_maps_insert [of "bk_order_index b" _ i "bo_order_id r"]
    by (simp add: index_ok_def)
qed

text \<open>An allocation can only fail in a book whose pools are down to their last free block.\<close>

definition exhausted :: "SymbolOrderBook \<Rightarrow> bool" where
  "exhausted b \<longleftrightarrow> card (dom (orders_of b)) + 1 = pool_size (bk_order_pool b) \<or>
     card (dom (levels_of b)) + 1 = pool_size (bk_level_pool b)"

lemma mk_order_simps [simp]:
  "OrderInfo.truncate (mk_order oid cid sy ot sd pr oq q ts) = mk_info oid cid sy ot sd pr oq q ts"
  "bo_order_id (mk_order oid cid sy ot sd pr oq q ts) = oid"
  "bo_price (mk_order oid cid sy ot sd pr oq q ts) = pr"
  "bo_side (mk_order oid cid sy ot sd pr oq q ts) = sd"
  by (simp_all add: mk_order_def mk_info_def OrderInfo.truncate_def OrderInfo.extend_def BookOrder.fields_def)

lemma heaps_glevD:
  assumes ok: "heaps_ok b G" and G: "G bid = g1 @ glev p l xs @ g2"
  shows "dll (orders_of b) None xs None" "distinct xs" "set xs \<subseteq> dom (orders_of b)"
proof -
  have "xs \<noteq> [] \<Longrightarrow> level_ok (orders_of b) (levels_of b) bid (p, l, xs)"
    using ok G by (simp add: heaps_ok_def)
  then show "dll (orders_of b) None xs None" "set xs \<subseteq> dom (orders_of b)"
    by (cases "xs = []"; force simp: level_ok_def)+
  have "distinct (gnodes (G bid))"
    using ok by (cases bid) (simp_all add: heaps_ok_def)
  then show "distinct xs" using G by simp
qed

lemma info_updI:
  assumes "same_info ((orders_of b)(i \<mapsto> r)) (orders_of b')"
  shows "info b' = (info b)(i := OrderInfo.truncate r)"
proof
  fix j
  have "map_option OrderInfo.truncate (orders_of b' j) =
      map_option OrderInfo.truncate (((orders_of b)(i \<mapsto> r)) j)"
    using assms by (simp add: same_info_def)
  then show "info b' j = ((info b)(i := OrderInfo.truncate r)) j"
    using info_eqI [of b' j b] by (cases "j = i") (auto simp: info_def)
qed

lemma restOrder_ok:
  assumes rel: "book_rel b G" and fresh: "bk_order_index b oid = None" and bid: "bid = (sd = BUY)"
  shows "(restOrder cid oid ot sd p oq q ts b = Inl PoolOutOfSpace \<and> exhausted b) \<or>
    (\<exists>b' g1 l xs g2 i. restOrder cid oid ot sd p oq q ts b = Inr b' \<and> effect b [] [] b' \<and>
      G bid = g1 @ glev p l xs @ g2 \<and> book_rel b' (G(bid := g1 @ [(p, l, xs @ [i])] @ g2)) \<and>
      orders_of b i = None \<and> info b' = (info b)(i := mk_info oid cid (bk_symbol b) ot sd p oq q ts) \<and>
      sorted_wrt (price_before bid) (map fst g1 @ p # map fst g2))"
proof -
  let ?r = "mk_order oid cid (bk_symbol b) ot sd p oq q ts"
  have pools: "pools_ok b" and ix: "index_ok b" and mp: "maps_ok b G" and hp: "heaps_ok b G"
    using rel by (simp_all add: book_rel_def)
  have inv: "pool_inv (bk_order_pool b)" using pools by (simp add: pools_ok_def)
  show ?thesis
  proof (cases "allocate ?r (bk_order_pool b)")
    case (Inl e)
    then show ?thesis
      using pool.alloc_Inl [OF inv Inl] by (simp add: restOrder_def exhausted_def)
  next
    case (Inr x)
    obtain i op where x: "x = (i, op)" by (cases x)
    note al = pool.alloc_Inr [OF inv Inr [unfolded x]]
    let ?b = "b\<lparr>bk_order_pool := op\<rparr>"
    have b0: "maps_ok ?b G" "pools_ok ?b"
      using mp pools al by (simp_all add: maps_ok_def pools_ok_def)
    have lev: "\<And>e. e \<in> set (G bid) \<Longrightarrow> level_ok (orders_of b) (levels_of ?b) bid e"
      using hp by (auto simp: heaps_ok_def)
    show ?thesis
    proof (rule find_or_create_level_cases [OF b0 lev, where p = p], goal_cases)
      case (2)
      note full = 2
      then show ?thesis using Inr x bid by (simp add: restOrder_def exhausted_def)
    next
      case (3 l b1 g1 xs g2)
      note found = 3
      have xs: "dll (orders_of b) None xs None" "distinct xs" "set xs \<subseteq> dom (orders_of b)"
        using heaps_glevD [OF hp found(6)] by auto
      have i: "i \<notin> set xs" using xs(3) al by auto
      moreover have "dll (orders_of b1) None xs None" using i xs(1) al found(4) by simp
      ultimately obtain b2 where b2: "append_tail l i b1 = Inr b2" "skeleton b1 b2" "pools_ok b2"
        "levels_of b2 = (levels_of b1)(l \<mapsto> \<lparr>lv_price = p, lv_head = Some (hd (xs @ [i])),
          lv_tail = Some i, lv_order_count = of_nat (length (xs @ [i]))\<rparr>)"
        "dll (orders_of b2) None (xs @ [i]) None" "same_info (orders_of b1) (orders_of b2)"
        "\<forall>j. j \<notin> set (xs @ [i]) \<longrightarrow> orders_of b2 j = orders_of b1 j"
        using append_tail_ok [of b1 l p xs i ?r] found(3,4,11) al xs(2) by auto
      let ?b2 = "b2\<lparr>bk_order_index := (bk_order_index b2)(oid \<mapsto> i)\<rparr>"
      have "restOrder cid oid ot sd p oq q ts b = Inr ?b2"
        using Inr x bid found(1) b2(1) by (simp add: restOrder_def)
      moreover have "effect b [] [] ?b2"
        using found(2) b2(2) al by (simp add: effect_def skeleton_def)
      moreover have "info ?b2 = (info b)(i := mk_info oid cid (bk_symbol b) ot sd p oq q ts)"
        using info_updI [of b i ?r ?b2] b2(6) found(4) al by simp
      moreover have "maps_ok ?b2 (G(bid := g1 @ [(p, l, xs @ [i])] @ g2))"
        using b2(2) found by (intro maps_ok_splice [OF mp found(6)]) (auto simp: skeleton_def)
      moreover have "heaps_ok ?b2 (G(bid := g1 @ [(p, l, xs @ [i])] @ g2))"
        using b2 found(4,10,11) al bid
        by (intro heaps_ok_append [OF hp found(6), where r = ?r]) auto
      moreover have "index_ok ?b2"
        using b2(2,6) found(4,5) al fresh
        by (intro index_ok_append [OF ix, where r = ?r and i = i]) (auto simp: skeleton_def)
      moreover have "pools_ok ?b2" using b2(3) by (simp add: pools_ok_def)
      ultimately show ?thesis
        using found(6,9) al unfolding book_rel_def by blast
    qed
  qed
qed

end
