(* ===== verification/BookRefinement.thy ===== *)
theory BookRefinement
  imports BookHeap
begin

text \<open>
  The pointer-level operations of OrderBook implement the specification of BookSpec: from a book
  that represents an abstract book, every operation ends in a book that represents the result of
  its specification and has sent exactly the specified responses and market updates; its only
  possible failure is an exhausted memory pool. In particular no operation follows a null or
  dangling pointer, frees a block twice or runs out of its loop bound.
\<close>

section \<open>One fill\<close>

lemma info_Some: "orders_of b i = Some r \<Longrightarrow> info b i = OrderInfo.truncate r"
  by (simp add: info_def)

lemma truncate_qty: "OrderInfo.truncate (r\<lparr>bo_qty := q\<rparr>) = (OrderInfo.truncate r)\<lparr>bo_qty := q\<rparr>"
  by (simp add: OrderInfo.truncate_def)

lemma fill_node_ok:
  assumes rel: "book_rel b G" and G: "G bid = g1 @ (p, l, xs @ i # ys) # g2"
    and fill: "fill = min leaves (bo_qty (info b i))" and zs: "zs = (if bo_qty (info b i) - fill = 0 then [] else [i])"
  shows "\<exists>b'. fill_node cid oid sd p i leaves b = Inr (leaves - fill, b') \<and>
    effect b (fill_responses (bk_symbol b) cid oid sd (info b i) fill (leaves - fill))
      (fill_updates (bk_symbol b) (info b i) fill) b' \<and>
    book_rel b' (G(bid := g1 @ glev p l (xs @ zs @ ys) @ g2)) \<and>
    map (info b') zs = after_fill (info b i) fill \<and> (\<forall>j. j \<noteq> i \<longrightarrow> info b' j = info b j)"
proof -
  obtain r where r: "orders_of b i = Some r" "bo_price r = p"
    using book_relD(1) [OF rel G] by (auto simp: level_ok_def)
  note ir = info_Some [OF r(1)]
  let ?f = "\<lambda>ord. ord\<lparr>bo_qty := bo_qty ord - fill\<rparr>"
  obtain b1 where b1: "write_order i ?f b = Inr b1" "effect b [] [] b1" "book_rel b1 G"
    "info b1 = (info b)(i := OrderInfo.truncate (?f r))" "orders_of b1 = (orders_of b)(i \<mapsto> ?f r)"
    using write_links_ok [OF rel r(1), of ?f] by auto
  have sy: "bk_symbol b1 = bk_symbol b" using b1(2) by (simp add: effect_def)
  define b2 where "b2 = sendBookUpdate MU_TRADE (bo_order_id r) (bo_side r) p fill
    (sendResponse (mk_response FILLED (bo_client_id r) (bk_symbol b1) (bo_order_id r) (bo_order_id r)
       (bo_side r) p fill (bo_qty r - fill))
     (sendResponse (mk_response FILLED cid (bk_symbol b1) oid oid sd p fill (leaves - fill)) b1))"
  have eff2: "effect b (fill_responses (bk_symbol b) cid oid sd (info b i) fill (leaves - fill))
      [mk_update MU_TRADE (bo_order_id r) (bk_symbol b) (bo_side r) p fill] b2"
    using effect_sendBookUpdate [OF effect_sendResponse [OF effect_sendResponse [OF b1(2)]]] sy ir r(2)
    by (simp add: b2_def fill_responses_def)
  have rel2: "book_rel b2 G" and info2: "info b2 = info b1"
    using b1(3) by (simp_all add: b2_def)
  have run: "fill_node cid oid sd p i leaves b =
     (if bo_qty r - fill = 0 then
        rbind (removeOrder i b2) (\<lambda>b. Inr (leaves - fill, sendBookUpdate MU_CANCEL (bo_order_id r) (bo_side r) p 0 b))
      else Inr (leaves - fill, sendBookUpdate MU_MODIFY (bo_order_id r) (bo_side r) p (bo_qty r - fill) b2))"
  proof -
    have "min leaves (bo_qty r) = fill" using fill ir by simp
    then show ?thesis
      using r b1(1,5)
      by (cases "bo_qty r = fill") (simp_all add: fill_node_def access_live(1) Let_def b2_def)
  qed
  show ?thesis
  proof (cases "bo_qty r - fill = 0")
    case True
    obtain b3 where b3: "removeOrder i b2 = Inr b3" "effect b2 [] [] b3"
      "book_rel b3 (G(bid := g1 @ glev p l (xs @ ys) @ g2))" "\<forall>j. j \<noteq> i \<longrightarrow> info b3 j = info b2 j"
      using removeOrder_ok [OF rel2 G] by blast
    have "effect b (fill_responses (bk_symbol b) cid oid sd (info b i) fill (leaves - fill))
      (fill_updates (bk_symbol b) (info b i) fill) (sendBookUpdate MU_CANCEL (bo_order_id r) (bo_side r) p 0 b3)"
      using effect_sendBookUpdate [OF effect_trans [OF eff2 b3(2)]] True ir r(2)
      by (simp add: fill_updates_def)
    then show ?thesis
      using run True b3 zs ir info2 b1(4) by (simp add: after_fill_def)
  next
    case False
    have "effect b (fill_responses (bk_symbol b) cid oid sd (info b i) fill (leaves - fill))
      (fill_updates (bk_symbol b) (info b i) fill)
      (sendBookUpdate MU_MODIFY (bo_order_id r) (bo_side r) p (bo_qty r - fill) b2)"
      using effect_sendBookUpdate [OF eff2] False ir r(2) by (simp add: fill_updates_def)
    moreover have "G(bid := g1 @ glev p l (xs @ zs @ ys) @ g2) = G"
      using G False zs ir by (auto simp: fun_eq_iff)
    ultimately show ?thesis
      using run False rel2 zs ir info2 b1(4) by (simp add: after_fill_def truncate_qty)
  qed
qed

section \<open>The loop over one level\<close>

lemma match_level_ok:
  assumes "book_rel b G" and "G bid = g1 @ glev p l (xs @ ys) @ g2" and "length ys \<le> fuel"
    and "match_orders (bk_symbol b) cid oid sd (\<lambda>_. False) leaves (map (info b) ys) = (os', l', rs, us)"
  shows "\<exists>b' zs. match_level cid oid sd p fuel (first_of ys None) leaves b = Inr (l', b') \<and>
    effect b rs us b' \<and> book_rel b' (G(bid := g1 @ glev p l (xs @ zs) @ g2)) \<and>
    map (info b') zs = os' \<and> (\<forall>j. j \<notin> set ys \<longrightarrow> info b' j = info b j)"
  using assms
proof (induction ys arbitrary: b G xs fuel leaves os' rs us)
  case Nil
  then have "G(bid := g1 @ glev p l xs @ g2) = G" by (auto simp: fun_eq_iff)
  with Nil show ?case
    by (intro exI [of _ b] exI [of _ "[]"]) simp
next
  case (Cons i ys)
  obtain fuel' where fuel: "fuel = Suc fuel'" "length ys \<le> fuel'"
    using Cons.prems(3) by (cases fuel) auto
  have G: "G bid = g1 @ (p, l, xs @ i # ys) # g2" using Cons.prems(2) by simp
  note lev = book_relD [OF Cons.prems(1) G]
  obtain r where r: "orders_of b i = Some r" "bo_next r = first_of ys None"
    using lev(1) by (auto simp: level_ok_def dll_append)
  note ir = info_Some [OF r(1)]
  have i: "i \<notin> set ys" using lev(2) by simp
  show ?case
  proof (cases "bo_client_id r \<noteq> cid \<and> 0 < leaves")
    case False
    obtain os1 where m: "match_orders (bk_symbol b) cid oid sd (\<lambda>_. False) leaves (map (info b) ys) = (os1, l', rs, us)"
      "os' = info b i # os1"
      using Cons.prems(4) False ir by (cases "leaves = 0") (auto split: prod.splits)
    obtain b' zs where IH: "match_level cid oid sd p fuel' (first_of ys None) leaves b = Inr (l', b')"
      "effect b rs us b'" "book_rel b' (G(bid := g1 @ glev p l ((xs @ [i]) @ zs) @ g2))"
      "map (info b') zs = os1" "\<forall>j. j \<notin> set ys \<longrightarrow> info b' j = info b j"
      using Cons.IH [OF Cons.prems(1) _ fuel(2) m(1), of "xs @ [i]"] Cons.prems(2)
      by (auto simp del: fun_upd_apply)
    then show ?thesis
      using False r fuel m(2) i by (intro exI [of _ b'] exI [of _ "i # zs"])
        (auto simp: book_simps simp del: fun_upd_apply)
  next
    case True
    let ?fill = "min leaves (bo_qty (info b i))"
    define z where "z = (if bo_qty (info b i) - ?fill = 0 then [] else [i])"
    obtain b1 where b1: "fill_node cid oid sd p i leaves b = Inr (leaves - ?fill, b1)"
      "effect b (fill_responses (bk_symbol b) cid oid sd (info b i) ?fill (leaves - ?fill))
        (fill_updates (bk_symbol b) (info b i) ?fill) b1"
      "book_rel b1 (G(bid := g1 @ glev p l (xs @ z @ ys) @ g2))"
      "map (info b1) z = after_fill (info b i) ?fill" "\<forall>j. j \<noteq> i \<longrightarrow> info b1 j = info b j"
      using fill_node_ok [OF Cons.prems(1) G refl z_def] by blast
    have same: "map (info b1) ys = map (info b) ys" "bk_symbol b1 = bk_symbol b"
      using b1(2,5) i by (auto simp: effect_def)
    obtain os1 rs1 us1 where m: "match_orders (bk_symbol b1) cid oid sd (\<lambda>_. False) (leaves - ?fill) (map (info b1) ys) = (os1, l', rs1, us1)"
      "os' = after_fill (info b i) ?fill @ os1"
      "rs = fill_responses (bk_symbol b) cid oid sd (info b i) ?fill (leaves - ?fill) @ rs1"
      "us = fill_updates (bk_symbol b) (info b i) ?fill @ us1"
      using Cons.prems(4) True ir same by (auto simp: Let_def split: prod.splits)
    obtain b' zs where IH: "match_level cid oid sd p fuel' (first_of ys None) (leaves - ?fill) b1 = Inr (l', b')"
      "effect b1 rs1 us1 b'" "book_rel b' (G(bid := g1 @ glev p l ((xs @ z) @ zs) @ g2))"
      "map (info b') zs = os1" "\<forall>j. j \<notin> set ys \<longrightarrow> info b' j = info b1 j"
      using Cons.IH [OF b1(3) _ fuel(2) m(1), of "xs @ z"]
      by (auto simp: fun_upd_same simp del: fun_upd_apply)
    have "map (info b') z = after_fill (info b i) ?fill"
      using b1(4) IH(5) i by (auto simp: z_def)
    then show ?thesis
      using True r fuel b1 IH m(2-4) effect_trans [OF b1(2) IH(2)]
      by (intro exI [of _ b'] exI [of _ "z @ zs"]) (auto simp: book_simps simp del: fun_upd_apply)
  qed
qed

lemma book_rel_distinct: "book_rel b G \<Longrightarrow> distinct (gnodes (G bid))"
  by (cases bid) (auto simp: book_rel_def heaps_ok_def)

section \<open>The loop over the levels\<close>

lemma match_levels_ok:
  assumes "book_rel b G" and "G bid = g1 @ g2" and "bid = (sd \<noteq> BUY)" and "length g2 \<le> fuel"
    and "match_orders (bk_symbol b) cid oid sd (beyond_limit sd hl lp) leaves (map (info b) (gnodes g2)) =
      (os', l', rs, us)"
  shows "\<exists>b' g2'. match_levels cid oid sd lp hl fuel (smap_begin (gkeys g2)) leaves b = Inr (l', b') \<and>
    effect b rs us b' \<and> book_rel b' (G(bid := g1 @ g2')) \<and> map (info b') (gnodes g2') = os' \<and>
    (\<forall>j. j \<notin> set (gnodes g2) \<longrightarrow> info b' j = info b j)"
  using assms
proof (induction g2 arbitrary: b G g1 fuel leaves os' rs us)
  case Nil
  then have "G(bid := g1 @ []) = G" by (auto simp: fun_eq_iff)
  with Nil show ?case by (intro exI [of _ b] exI [of _ "[]"]) simp
next
  case (Cons e g2)
  obtain p l xs where e: "e = (p, l, xs)" by (cases e) auto
  obtain fuel' where fuel: "fuel = Suc fuel'" "length g2 \<le> fuel'"
    using Cons.prems(4) by (cases fuel) auto
  have G: "G bid = g1 @ (p, l, xs) # g2" using Cons.prems(2) e by simp
  note lev = book_relD [OF Cons.prems(1) G]
  have price: "\<And>r. r \<in> set (map (info b) xs) \<Longrightarrow> bo_price r = p" and ne: "xs \<noteq> []"
    and head: "levels_of b l = Some \<lparr>lv_price = p, lv_head = first_of xs None, lv_tail = Some (last xs),
      lv_order_count = of_nat (length xs)\<rparr>"
    using lev(1) by (auto simp: level_ok_def info_Some)
  have same: "G(bid := g1 @ e # g2) = G" using G e by (auto simp: fun_eq_iff)
  show ?case
  proof (cases "leaves = 0 \<or> beyond_limit sd hl lp p")
    case True
    obtain x xs' where xs: "xs = x # xs'" using ne by (cases xs) auto
    have "bo_price (info b x) = p" using price xs by simp
    then have "match_orders (bk_symbol b) cid oid sd (beyond_limit sd hl lp) leaves (map (info b) (gnodes (e # g2))) =
        (map (info b) (gnodes (e # g2)), leaves, [], [])"
      using True e xs by simp
    then have "os' = map (info b) (gnodes (e # g2))" "l' = leaves" "rs = []" "us = []"
      using Cons.prems(5) by simp_all
    then show ?thesis
      using True Cons.prems(1) e fuel same by (intro exI [of _ b] exI [of _ "e # g2"]) auto
  next
    case False
    obtain os1 l1 r1 u1 where m1: "match_orders (bk_symbol b) cid oid sd (\<lambda>_. False) leaves (map (info b) xs) = (os1, l1, r1, u1)"
      using prod_cases4 by blast
    obtain b1 zs where b1: "match_level cid oid sd p (pool_size (bk_order_pool b)) (first_of xs None) leaves b = Inr (l1, b1)"
      "effect b r1 u1 b1" "book_rel b1 (G(bid := g1 @ glev p l zs @ g2))" "map (info b1) zs = os1"
      "\<forall>j. j \<notin> set xs \<longrightarrow> info b1 j = info b j"
      using match_level_ok [OF Cons.prems(1) _ lev(4) m1, of bid g1 p l "[]" g2] G ne by auto
    let ?G = "G(bid := (g1 @ glev p l zs) @ g2)"
    have disj: "set xs \<inter> set (gnodes g2) = {}" "set zs \<inter> set (gnodes g2) = {}"
      using book_rel_distinct [OF Cons.prems(1), of bid] book_rel_distinct [OF b1(3), of bid] G by auto
    obtain os2 r2 u2 where m2: "match_orders (bk_symbol b1) cid oid sd (beyond_limit sd hl lp) l1 (map (info b1) (gnodes g2)) = (os2, l', r2, u2)"
      "os' = os1 @ os2" "rs = r1 @ r2" "us = u1 @ u2"
    proof -
      have "map (info b1) (gnodes g2) = map (info b) (gnodes g2)" "bk_symbol b1 = bk_symbol b"
        using b1(2,5) disj(1) by (auto simp: effect_def)
      moreover obtain os2 l2 r2 u2 where m2: "match_orders (bk_symbol b) cid oid sd (beyond_limit sd hl lp) l1 (map (info b) (gnodes g2)) = (os2, l2, r2, u2)"
        using prod_cases4 by blast
      moreover have "match_orders (bk_symbol b) cid oid sd (beyond_limit sd hl lp) leaves
          (map (info b) xs @ map (info b) (gnodes g2)) = (os1 @ os2, l2, r1 @ r2, u1 @ u2)"
        using False price by (intro match_orders_append [OF _ m1 m2]) auto
      ultimately show ?thesis
        using that [of os2 r2 u2] Cons.prems(5) e by (simp del: map_eq_conv)
    qed
    obtain b2 g2' where b2: "match_levels cid oid sd lp hl fuel' (smap_begin (gkeys g2)) l1 b1 = Inr (l', b2)"
      "effect b1 r2 u2 b2" "book_rel b2 (G(bid := (g1 @ glev p l zs) @ g2'))" "map (info b2) (gnodes g2') = os2"
      "\<forall>j. j \<notin> set (gnodes g2) \<longrightarrow> info b2 j = info b1 j"
      using Cons.IH [of b1 ?G "g1 @ glev p l zs" fuel' l1 os2 r2 u2] b1(3) Cons.prems(3) fuel(2) m2(1)
      by (auto simp: fun_upd_same simp del: fun_upd_apply)
    have next_level: "smap_upper_bound (price_before bid) p (levels bid b1) = smap_begin (gkeys g2)"
    proof -
      have "maps_ok b G" "maps_ok b1 (G(bid := g1 @ glev p l zs @ g2))"
        using Cons.prems(1) b1(3) by (simp_all add: book_rel_def)
      then have "sorted_wrt (price_before bid) (map fst (gkeys g1 @ (p, l) # gkeys g2))"
        "levels bid b1 = gkeys g1 @ gkeys (glev p l zs) @ gkeys g2"
        using maps_okD [of b G bid] maps_okD(1) [of b1 _ bid] G by auto
      then show ?thesis
        using levels_order.upper_bound_next [of bid "gkeys g1" p l "gkeys g2" "gkeys (glev p l zs)" l]
        by (simp add: glev_def)
    qed
    have "match_levels cid oid sd lp hl fuel (smap_begin (gkeys (e # g2))) leaves b = Inr (l', b2)"
      using False e fuel head b1(1) b2(1) next_level Cons.prems(3) by (simp add: book_simps)
    moreover have "map (info b2) zs = os1"
      using b1(4) b2(5) disj(2) by (metis disjoint_iff map_eq_conv)
    ultimately show ?thesis
      using b1(5) b2 m2(2-4) effect_trans [OF b1(2) b2(2)] e
      by (intro exI [of _ b2] exI [of _ "glev p l zs @ g2'"]) (auto simp del: fun_upd_apply)
  qed
qed

end
