(* ===== verification/BookView.thy ===== *)
theory BookView
  imports BookRefinement
begin

text \<open>
  The pointer-level operations seen through \<open>represents\<close>: looking an order up, matching, resting,
  removing and rewriting an order, each as a step between abstract books. \<open>refines\<close> is the
  contract that the order-entry operations of BookOps meet.
\<close>

section \<open>The abstract view of a represented book\<close>

lemma abs_book_simps [simp]:
  "ab_symbol (abs_book b G) = bk_symbol b"
  "side_orders bid (abs_book b G) = map (info b) (gnodes (G bid))"
  "all_orders (abs_book b G) = map (info b) (gnodes (G True) @ gnodes (G False))"
  by (auto simp: abs_book_def side_orders_def all_orders_def)

lemma abs_book_upd:
  assumes "bk_symbol b' = bk_symbol b" and "\<And>j. j \<in> set (gnodes (G (\<not> bid))) \<Longrightarrow> info b' j = info b j"
    and "map (info b') (gnodes g) = os"
  shows "abs_book b' (G(bid := g)) = set_side bid os (abs_book b G)"
proof (rule abook_eqI)
  fix side
  show "side_orders side (abs_book b' (G(bid := g))) = side_orders side (set_side bid os (abs_book b G))"
    using assms(2,3) by (cases "side = bid") auto
qed (use assms(1) in simp)

lemma representsI: "book_rel b G \<Longrightarrow> represents b (abs_book b G)"
  by (auto simp: represents_def)

lemma book_rel_live:
  assumes "book_rel b G" and "i \<in> set (gnodes (G bid))"
  shows "\<exists>r. orders_of b i = Some r \<and> info b i = OrderInfo.truncate r"
proof -
  have "i \<in> dom (orders_of b)" using assms by (cases bid) (simp_all add: book_rel_def heaps_ok_def)
  then show ?thesis using info_Some by blast
qed

lemma book_rel_index:
  assumes rel: "book_rel b G" and i: "i \<in> set (gnodes (G True) @ gnodes (G False))"
  shows "bk_order_index b oid = Some i \<longleftrightarrow> bo_order_id (info b i) = oid"
proof -
  have "index_ok b" using rel by (simp add: book_rel_def)
  moreover obtain r where "orders_of b i = Some r" "info b i = OrderInfo.truncate r"
    using i book_rel_live [OF rel] by fastforce
  ultimately show ?thesis by (auto simp: index_ok_def inverse_maps_def)
qed

lemma book_rel_indexD:
  assumes rel: "book_rel b G" and ix: "bk_order_index b oid = Some i"
  shows "i \<in> set (gnodes (G True) @ gnodes (G False))" and "bo_order_id (info b i) = oid"
proof -
  have "\<exists>r. orders_of b i = Some r"
    using assms by (auto simp: book_rel_def index_ok_def inverse_maps_def)
  then show i: "i \<in> set (gnodes (G True) @ gnodes (G False))"
    using rel by (auto simp: book_rel_def heaps_ok_def)
  show "bo_order_id (info b i) = oid" using book_rel_index [OF rel i] ix by blast
qed

lemma lookup_abs_book:
  assumes rel: "book_rel b G"
  shows "lookup_order oid (abs_book b G) = map_option (info b) (bk_order_index b oid)"
proof (cases "bk_order_index b oid")
  case None
  have "bo_order_id (info b i) \<noteq> oid" if "i \<in> set (gnodes (G True) @ gnodes (G False))" for i
    using book_rel_index [OF rel that, of oid] None by auto
  then show ?thesis using None by (auto simp: lookup_order_def find_None_iff)
next
  case (Some i)
  note i = book_rel_indexD [OF rel Some]
  have "List.find (\<lambda>r. bo_order_id r = oid) (all_orders (abs_book b G)) = Some (info b i)"
  proof (rule find_unique)
    fix y assume "y \<in> set (all_orders (abs_book b G))" and "bo_order_id y = oid"
    then obtain j where j: "j \<in> set (gnodes (G True) @ gnodes (G False))" "y = info b j" "bo_order_id (info b j) = oid"
      by auto
    then show "y = info b i" using book_rel_index [OF rel j(1), of oid] Some by simp
  qed (use i in auto)
  then show ?thesis using Some by (simp add: lookup_order_def)
qed

lemma represents_lookup_None:
  "represents b a \<Longrightarrow> lookup_order oid a = None \<longleftrightarrow> bk_order_index b oid = None"
  by (auto simp: represents_def lookup_abs_book)

lemma represents_symbol: "represents b a \<Longrightarrow> ab_symbol a = bk_symbol b"
  by (auto simp: represents_def)

lemma represents_send [simp]:
  "represents (sendResponse x b) a \<longleftrightarrow> represents b a"
  "represents (sendBookUpdate ty oid sd pr q b) a \<longleftrightarrow> represents b a"
  by (simp_all add: represents_def abs_book_def)

section \<open>Occupied blocks\<close>

lemma level_prices:
  assumes rel: "book_rel b G"
  shows "bo_price ` set (map (info b) (gnodes (G bid))) = fst ` set (G bid)"
proof -
  have lev: "xs \<noteq> [] \<and> (\<forall>i\<in>set xs. bo_price (info b i) = p)" if "(p, l, xs) \<in> set (G bid)" for p l xs
  proof -
    have "level_ok (orders_of b) (levels_of b) bid (p, l, xs)"
      using that rel by (auto simp: book_rel_def heaps_ok_def)
    then show ?thesis by (force simp: level_ok_def info_def)
  qed
  have nodes: "i \<in> set (gnodes (G bid)) \<longleftrightarrow> (\<exists>p l xs. (p, l, xs) \<in> set (G bid) \<and> i \<in> set xs)" for i
    by (force simp: gnodes_def)
  show ?thesis
  proof (intro equalityI subsetI)
    fix p assume "p \<in> bo_price ` set (map (info b) (gnodes (G bid)))"
    then show "p \<in> fst ` set (G bid)" using lev nodes by force
  next
    fix p assume "p \<in> fst ` set (G bid)"
    then obtain l xs where e: "(p, l, xs) \<in> set (G bid)" by force
    then obtain i where "i \<in> set xs" "bo_price (info b i) = p" using lev [OF e] by (cases xs) auto
    then have "i \<in> set (gnodes (G bid))" "bo_price (info b i) = p" using e nodes by blast+
    then show "p \<in> bo_price ` set (map (info b) (gnodes (G bid)))" by auto
  qed
qed

lemma represents_counts:
  assumes "represents b a"
  shows "card (dom (orders_of b)) = order_count a" and "card (dom (levels_of b)) = level_count a"
proof -
  obtain G where rel: "book_rel b G" and a: "a = abs_book b G" using assms by (auto simp: represents_def)
  have h: "distinct (gnodes (G True) @ gnodes (G False))" "distinct (glevels (G True) @ glevels (G False))"
    "dom (orders_of b) = set (gnodes (G True) @ gnodes (G False))"
    "dom (levels_of b) = set (glevels (G True) @ glevels (G False))"
    using rel by (auto simp: book_rel_def heaps_ok_def)
  show "card (dom (orders_of b)) = order_count a"
    using h distinct_card [OF h(1)] a by (simp add: order_count_def)
  have "card (fst ` set (G bid)) = length (G bid)" for bid
  proof -
    have "sorted_wrt (price_before bid) (map fst (G bid))"
      using rel by (simp add: book_rel_def maps_ok_def)
    then have "distinct (map fst (G bid))"
      by (rule levels_order.sorted_distinct)
    then show ?thesis using distinct_card by fastforce
  qed
  then show "card (dom (levels_of b)) = level_count a"
    using h(4) distinct_card [OF h(2)] a level_prices [OF rel] by (simp add: level_count_def glevels_def)
qed

section \<open>The contract of an operation\<close>

lemma effect_symbol: "effect b rs us b' \<Longrightarrow> bk_symbol b' = bk_symbol b"
  by (simp add: effect_def)

definition fits :: "SymbolOrderBook \<Rightarrow> abook \<Rightarrow> bool" where
  "fits b a \<longleftrightarrow> order_count a + 1 < pool_size (bk_order_pool b) \<and>
     level_count a + 1 < pool_size (bk_level_pool b)"

definition refines :: "SymbolOrderBook \<Rightarrow> abook \<Rightarrow> op_result \<Rightarrow> SymbolOrderBook result \<Rightarrow> bool" where
  "refines b a spec res = (case (res, spec) of
     (Inl e, _) \<Rightarrow> e = PoolOutOfSpace \<and> \<not> fits b a
   | (Inr b', a', rs, us) \<Rightarrow> represents b' a' \<and> effect b rs us b')"

lemma refines_simps [simp]:
  "refines b a (a', rs, us) (Inr b') \<longleftrightarrow> represents b' a' \<and> effect b rs us b'"
  "refines b a (a', rs, us) (Inl e) \<longleftrightarrow> e = PoolOutOfSpace \<and> \<not> fits b a"
  by (simp_all add: refines_def)

lemma fits_mono: "fits b a \<Longrightarrow> no_larger a' a \<Longrightarrow> effect b rs us b' \<Longrightarrow> fits b' a'"
  by (auto simp: fits_def no_larger_def effect_def)

lemma matchIncoming_ok:
  assumes "represents b a" and "match_book cid oid sd lp hl qty a = (leaves, a', rs, us)"
  shows "\<exists>b'. matchIncoming cid oid sd lp hl qty b = Inr (leaves, b') \<and> represents b' a' \<and> effect b rs us b'"
proof -
  obtain G where rel: "book_rel b G" and a: "a = abs_book b G" using assms(1) by (auto simp: represents_def)
  let ?bid = "sd \<noteq> BUY"
  obtain os where m: "match_orders (bk_symbol b) cid oid sd (beyond_limit sd hl lp) qty (map (info b) (gnodes (G ?bid))) =
      (os, leaves, rs, us)" "a' = set_side ?bid os a"
    using assms(2) a by (auto simp: match_book_def split: prod.splits)
  have lv: "levels ?bid b = gkeys (G ?bid)" using rel by (simp add: book_rel_def maps_ok_def)
  have len: "length (gkeys (G ?bid)) = length (G ?bid)" by (simp add: gkeys_def)
  obtain b' g where b': "matchIncoming cid oid sd lp hl qty b = Inr (leaves, b')" "effect b rs us b'"
    "book_rel b' (G(?bid := g))" "map (info b') (gnodes g) = os"
    "\<forall>j. j \<notin> set (gnodes (G ?bid)) \<longrightarrow> info b' j = info b j"
    using match_levels_ok [OF rel _ refl order_refl m(1), of "[]"] lv len by (auto simp: matchIncoming_def)
  have "abs_book b' (G(?bid := g)) = a'"
    unfolding m(2) a
  proof (rule abs_book_upd)
    fix j assume "j \<in> set (gnodes (G (\<not> ?bid)))"
    moreover have "set (gnodes (G (\<not> ?bid))) \<inter> set (gnodes (G ?bid)) = {}"
      using rel by (cases ?bid) (auto simp: book_rel_def heaps_ok_def)
    ultimately show "info b' j = info b j" using b'(5) by blast
  qed (use b' in \<open>auto simp: effect_def\<close>)
  then show ?thesis using b' representsI [OF b'(3)] by auto
qed

lemma glev_price:
  assumes rel: "book_rel b G" and G: "G bid = g1 @ g2 @ g3" and i: "i \<in> set (gnodes g2)"
  shows "bo_price (info b i) \<in> fst ` set g2"
proof -
  obtain p l xs where e: "(p, l, xs) \<in> set g2" "i \<in> set xs"
    using i by (auto simp: gnodes_def)
  then have "level_ok (orders_of b) (levels_of b) bid (p, l, xs)"
    using rel G by (auto simp: book_rel_def heaps_ok_def)
  then have "bo_price (info b i) = p" using e(2) by (force simp: level_ok_def info_def)
  then show ?thesis using e(1) by force
qed

lemma restOrder_represents:
  assumes "represents b a" and "lookup_order oid a = None"
  shows "refines b a (rest (mk_info oid cid (ab_symbol a) ot sd p oq q ts) a, [], [])
    (restOrder cid oid ot sd p oq q ts b)"
proof -
  obtain G where rel: "book_rel b G" and a: "a = abs_book b G" using assms(1) by (auto simp: represents_def)
  have fresh: "bk_order_index b oid = None" using assms represents_lookup_None by blast
  let ?x = "mk_info oid cid (bk_symbol b) ot sd p oq q ts" and ?bid = "sd = BUY"
  show ?thesis
  proof (rule disjE [OF restOrder_ok [OF rel fresh refl, of cid ot sd p oq q ts]])
    assume "restOrder cid oid ot sd p oq q ts b = Inl PoolOutOfSpace \<and> exhausted b"
    then show ?thesis using represents_counts [OF assms(1)] by (auto simp: exhausted_def fits_def)
  next
    assume "\<exists>b' g1 l xs g2 i. restOrder cid oid ot sd p oq q ts b = Inr b' \<and> effect b [] [] b' \<and>
      G ?bid = g1 @ glev p l xs @ g2 \<and> book_rel b' (G(?bid := g1 @ [(p, l, xs @ [i])] @ g2)) \<and>
      orders_of b i = None \<and> info b' = (info b)(i := ?x) \<and>
      sorted_wrt (price_before ?bid) (map fst g1 @ p # map fst g2)"
    then obtain b' g1 l xs g2 i where b': "restOrder cid oid ot sd p oq q ts b = Inr b'" "effect b [] [] b'"
      "G ?bid = g1 @ glev p l xs @ g2" "book_rel b' (G(?bid := g1 @ [(p, l, xs @ [i])] @ g2))"
      "orders_of b i = None" "info b' = (info b)(i := ?x)"
      "sorted_wrt (price_before ?bid) (map fst g1 @ p # map fst g2)" by blast
    have i: "i \<notin> set (gnodes (G bid))" for bid
      using book_rel_live [OF rel, of i bid] b'(5) by auto
    have "\<not> price_before ?bid p (bo_price (info b j))" if "j \<in> set (gnodes (g1 @ glev p l xs))" for j
    proof -
      have "bo_price (info b j) \<in> fst ` set (g1 @ glev p l xs)"
        using glev_price [OF rel _ that, of ?bid "[]" g2] b'(3) by simp
      then show ?thesis
        using b'(7) levels_order.asym [of ?bid] levels_order.irrefl [of ?bid]
        by (auto simp: sorted_wrt_append glev_def split: if_splits)
    qed
    moreover have "price_before ?bid p (bo_price (info b j))" if "j \<in> set (gnodes g2)" for j
      using glev_price [OF rel _ that, of ?bid "g1 @ glev p l xs" "[]"] b'(3,7) by (auto simp: sorted_wrt_append)
    ultimately have "insert_order ?bid ?x (map (info b) (gnodes (g1 @ glev p l xs)) @ map (info b) (gnodes g2)) =
      map (info b) (gnodes (g1 @ glev p l xs)) @ ?x # map (info b) (gnodes g2)"
      by (intro insert_order_split) (auto simp: mk_info_def)
    then have "map (info b') (gnodes (g1 @ [(p, l, xs @ [i])] @ g2)) = insert_order ?bid ?x (side_orders ?bid a)"
      using b'(3,6) i [of ?bid] a by auto
    then have "abs_book b' (G(?bid := g1 @ [(p, l, xs @ [i])] @ g2)) =
        set_side ?bid (insert_order ?bid ?x (side_orders ?bid a)) (abs_book b G)"
      using i [of "\<not> ?bid"] b'(2,6) by (intro abs_book_upd) (auto simp: effect_def)
    then have "abs_book b' (G(?bid := g1 @ [(p, l, xs @ [i])] @ g2)) = rest ?x a"
      using a by (simp add: rest_def mk_info_def Let_def)
    then show ?thesis
      using b'(1,2) representsI [OF b'(4)] a by simp
  qed
qed

lemma gnodes_split:
  assumes "i \<in> set (gnodes g)"
  shows "\<exists>g1 p l xs ys g2. g = g1 @ (p, l, xs @ i # ys) # g2"
proof -
  obtain p l zs where e: "(p, l, zs) \<in> set g" "i \<in> set zs"
    using assms by (auto simp: gnodes_def)
  obtain g1 g2 where "g = g1 @ (p, l, zs) # g2" using split_list [OF e(1)] by blast
  moreover obtain xs ys where "zs = xs @ i # ys" using split_list [OF e(2)] by blast
  ultimately show ?thesis by blast
qed

text \<open>The node that the index names for an order id, with the list around it.\<close>

lemma indexed_node:
  assumes rel: "book_rel b G" and ix: "bk_order_index b oid = Some i" and r: "orders_of b i = Some ord"
  obtains g1 p l xs ys g2 where "G (bo_side ord = BUY) = g1 @ (p, l, xs @ i # ys) # g2"
    and "\<And>bid j. j \<in> set (gnodes (G bid)) \<Longrightarrow> bo_order_id (info b j) = oid \<longleftrightarrow> j = i"
    and "i \<notin> set (gnodes (G (bo_side ord \<noteq> BUY)))"
proof -
  note i = book_rel_indexD [OF rel ix]
  then obtain bid where bid: "i \<in> set (gnodes (G bid))" by auto
  then obtain g1 p l xs ys g2 where G: "G bid = g1 @ (p, l, xs @ i # ys) # g2"
    using gnodes_split by blast
  have "bid = (bo_side ord = BUY)"
    using book_relD(1) [OF rel G] r by (auto simp: level_ok_def)
  moreover have "bo_order_id (info b j) = oid \<longleftrightarrow> j = i" if "j \<in> set (gnodes (G side))" for side j
    using book_rel_index [OF rel, of j oid] ix that by (cases side) auto
  moreover have "set (gnodes (G bid)) \<inter> set (gnodes (G (\<not> bid))) = {}"
    using rel by (cases bid) (auto simp: book_rel_def heaps_ok_def)
  ultimately show ?thesis using that G bid by blast
qed

lemma removeOrder_represents:
  assumes rep: "represents b a" and ix: "bk_order_index b oid = Some i" and r: "orders_of b i = Some ord"
  shows "\<exists>b'. removeOrder i b = Inr b' \<and> effect b [] [] b' \<and>
    represents b' (unrest (OrderInfo.truncate ord) a) \<and> lookup_order oid (unrest (OrderInfo.truncate ord) a) = None"
proof -
  obtain G where rel: "book_rel b G" and a: "a = abs_book b G" using rep by (auto simp: represents_def)
  let ?bid = "bo_side ord = BUY"
  obtain g1 p l xs ys g2 where G: "G ?bid = g1 @ (p, l, xs @ i # ys) # g2"
    and ids: "\<And>bid j. j \<in> set (gnodes (G bid)) \<Longrightarrow> bo_order_id (info b j) = oid \<longleftrightarrow> j = i"
    and other: "i \<notin> set (gnodes (G (\<not> ?bid)))"
    using indexed_node [OF rel ix r] by metis
  obtain b' where b': "removeOrder i b = Inr b'" "effect b [] [] b'"
    "book_rel b' (G(?bid := g1 @ glev p l (xs @ ys) @ g2))" "\<forall>j. j \<noteq> i \<longrightarrow> info b' j = info b j"
    using removeOrder_ok [OF rel G] by blast
  let ?G = "G(?bid := g1 @ glev p l (xs @ ys) @ g2)" and ?a = "unrest (OrderInfo.truncate ord) a"
  have oid: "bo_order_id ord = oid" using book_rel_indexD(2) [OF rel ix] r by (simp add: info_def)
  have dist: "i \<notin> set (gnodes (g1 @ glev p l (xs @ ys) @ g2))"
    using book_rel_distinct [OF rel, of ?bid] G by auto
  have mem: "j \<in> set (gnodes (G ?bid))" if "j \<in> set (gnodes (g1 @ glev p l (xs @ ys) @ g2))" for j
    using that G by auto
  have "bo_order_id (info b j) \<noteq> oid" if "j \<in> set (gnodes g1) \<union> set xs \<union> set ys \<union> set (gnodes g2)" for j
    using that dist ids [OF mem, of j] by auto
  moreover have "bo_order_id (info b i) = oid" using book_rel_indexD [OF rel ix] by simp
  ultimately have "delete_order oid (map (info b) (gnodes (G ?bid))) =
      map (info b) (gnodes (g1 @ glev p l (xs @ ys) @ g2))"
    using G by (simp add: delete_order_def)
  moreover have "map (info b') (gnodes (g1 @ glev p l (xs @ ys) @ g2)) =
      map (info b) (gnodes (g1 @ glev p l (xs @ ys) @ g2))"
    using b'(4) dist by (intro map_cong) auto
  ultimately have "abs_book b' ?G = set_side ?bid (delete_order oid (side_orders ?bid a)) (abs_book b G)"
    using b'(2,4) other a by (intro abs_book_upd) (auto simp: effect_def)
  then have abs: "abs_book b' ?G = ?a" using a oid by (simp add: unrest_def Let_def)
  have "bk_order_index b' oid \<noteq> Some j" for j
  proof
    assume "bk_order_index b' oid = Some j"
    note j = book_rel_indexD [OF b'(3) this]
    then obtain bid where "j \<in> set (gnodes (?G bid))" by (auto simp del: fun_upd_apply)
    then have "j \<in> set (gnodes (G bid))" "j \<noteq> i"
      using dist other mem by (auto split: if_splits)
    then show False using j(2) b'(4) ids by simp
  qed
  then have "lookup_order oid ?a = None"
    using lookup_abs_book [OF b'(3), of oid] abs by (cases "bk_order_index b' oid") auto
  then show ?thesis using b'(1,2) representsI [OF b'(3)] abs by auto
qed

lemma truncate_qtys:
  "OrderInfo.truncate (r\<lparr>bo_qty := q, bo_original_qty := q'\<rparr>) =
     (OrderInfo.truncate r)\<lparr>bo_qty := q, bo_original_qty := q'\<rparr>"
  by (simp add: OrderInfo.truncate_def)

lemma write_qty_represents:
  assumes rep: "represents b a" and ix: "bk_order_index b oid = Some i" and r: "orders_of b i = Some ord"
  shows "\<exists>b'. write_order i (\<lambda>ord. ord\<lparr>bo_qty := q, bo_original_qty := q\<rparr>) b = Inr b' \<and> effect b [] [] b' \<and>
    represents b' (set_side (bo_side ord = BUY) (update_qty oid q (side_orders (bo_side ord = BUY) a)) a)"
proof -
  obtain G where rel: "book_rel b G" and a: "a = abs_book b G" using rep by (auto simp: represents_def)
  let ?bid = "bo_side ord = BUY"
  obtain ids: "\<And>bid j. j \<in> set (gnodes (G bid)) \<Longrightarrow> bo_order_id (info b j) = oid \<longleftrightarrow> j = i"
    and other: "i \<notin> set (gnodes (G (\<not> ?bid)))"
    using indexed_node [OF rel ix r] by metis
  obtain b' where b': "write_order i (\<lambda>ord. ord\<lparr>bo_qty := q, bo_original_qty := q\<rparr>) b = Inr b'"
    "effect b [] [] b'" "book_rel b' G"
    "info b' = (info b)(i := (OrderInfo.truncate ord)\<lparr>bo_qty := q, bo_original_qty := q\<rparr>)"
    using write_links_ok [OF rel r, of "\<lambda>ord. ord\<lparr>bo_qty := q, bo_original_qty := q\<rparr>"] by (auto simp: truncate_qtys)
  have "map (info b') (gnodes (G ?bid)) = update_qty oid q (side_orders ?bid a)"
    using a b'(4) ids r by (auto simp: update_qty_def info_def)
  then have "abs_book b' (G(?bid := G ?bid)) = set_side ?bid (update_qty oid q (side_orders ?bid a)) (abs_book b G)"
    using b'(2,4) other by (intro abs_book_upd) (auto simp: effect_def)
  then show ?thesis using b'(1,2) representsI [OF b'(3)] a by auto
qed

lemma find_own_cases:
  assumes rep: "represents b a"
  obtains (none) "own_order cid oid a = None" "find_own cid oid b = Inr None"
  | (own) i ord where "own_order cid oid a = Some (OrderInfo.truncate ord)" "find_own cid oid b = Inr (Some (i, ord))"
      "bk_order_index b oid = Some i" "orders_of b i = Some ord"
proof -
  obtain G where rel: "book_rel b G" and a: "a = abs_book b G" using rep by (auto simp: represents_def)
  note lk = lookup_abs_book [OF rel, of oid]
  show ?thesis
  proof (cases "bk_order_index b oid")
    case None
    then show ?thesis using none lk a by (simp add: own_order_def find_own_def)
  next
    case (Some i)
    obtain ord where ord: "orders_of b i = Some ord" "info b i = OrderInfo.truncate ord"
      using book_rel_indexD(1) [OF rel Some] book_rel_live [OF rel] by fastforce
    then show ?thesis
      using none own Some lk a by (cases "bo_client_id ord = cid") (simp_all add: own_order_def find_own_def book_simps)
  qed
qed

end
