(* ===== verification/BookOps.thy ===== *)
theory BookOps
  imports BookView
begin

text \<open>
  Order entry refines the specification: limit, market and IOC orders, cancel and modify of the
  pointer-level book take a book that represents \<open>a\<close> to one that represents the specified
  result and send the specified responses and market updates, in order. The only failure is
  an exhausted memory pool, and only in a book that was down to its last free block.
\<close>

section \<open>Limit orders\<close>

definition match_then_rest ::
  "Nanos \<Rightarrow> ClientId \<Rightarrow> OrderId \<Rightarrow> OrderType \<Rightarrow> Side \<Rightarrow> Price \<Rightarrow> Qty \<Rightarrow> SymbolOrderBook \<Rightarrow> SymbolOrderBook result" where
  "match_then_rest now cid oid ot sd price qty b =
     rbind (matchIncoming cid oid sd price True qty b) (\<lambda>(leaves, b).
        if 0 < leaves then
          rbind (restOrder cid oid ot sd price qty leaves now b) (\<lambda>b.
          Inr (sendBookUpdate MU_ADD oid sd price leaves b))
        else Inr b)"

lemma match_then_rest_ok:
  assumes rep: "represents b a" and fresh: "lookup_order oid a = None"
  shows "refines b a (match_and_rest now cid oid ot sd price qty a) (match_then_rest now cid oid ot sd price qty b)"
proof -
  obtain leaves a' rs us where m: "match_book cid oid sd price True qty a = (leaves, a', rs, us)"
    using prod_cases4 by blast
  obtain b1 where b1: "matchIncoming cid oid sd price True qty b = Inr (leaves, b1)" "represents b1 a'" "effect b rs us b1"
    using matchIncoming_ok [OF rep m] by blast
  let ?x = "mk_info oid cid (ab_symbol a) ot sd price qty leaves now"
  have r: "refines b1 a' (rest ?x a', [], []) (restOrder cid oid ot sd price qty leaves now b1)"
    using restOrder_represents [OF b1(2) match_book_lookup_None [OF m fresh]] match_book_symbol [OF m] by simp
  show ?thesis
  proof (cases "0 < leaves")
    case False
    then show ?thesis using m b1 by (simp add: match_and_rest_def match_then_rest_def)
  next
    case True
    show ?thesis
    proof (cases "restOrder cid oid ot sd price qty leaves now b1")
      case (Inl e)
      then show ?thesis
        using True m b1 r fits_mono [OF _ match_book_no_larger [OF m] b1(3)]
        by (auto simp: match_and_rest_def match_then_rest_def)
    next
      case (Inr b2)
      have "effect b rs (us @ [mk_update MU_ADD oid (ab_symbol a) sd price leaves])
          (sendBookUpdate MU_ADD oid sd price leaves b2)"
        using effect_sendBookUpdate [OF effect_trans [OF b1(3), of "[]" "[]" b2]] r Inr represents_symbol [OF rep] by simp
      then show ?thesis
        using True m b1 r Inr by (simp add: match_and_rest_def match_then_rest_def)
    qed
  qed
qed

lemma effect_after_send: "effect (sendResponse x b) rs us b' \<Longrightarrow> effect b (x # rs) us b'"
  using effect_trans [OF effect_sendResponse [OF effect_refl], of x b rs us b'] by simp

lemma refines_send:
  assumes "refines (sendResponse x b) a (a', rs, us) res"
  shows "refines b a (a', x # rs, us) res"
  using assms by (cases res) (auto simp: fits_def intro: effect_after_send)

lemma refines_before:
  assumes "effect b [] [] b1" and "no_larger a1 a" and "refines b1 a1 spec res"
  shows "refines b a spec res"
  using assms fits_mono [OF _ assms(2,1)] effect_trans [OF assms(1)]
  by (cases res; cases spec) fastforce+

lemma refines_reject: "represents b a \<Longrightarrow> refines b a (a, [x], []) (Inr (sendResponse x b))"
  by (simp add: effect_after_send)

lemma addLimitOrder_ok:
  assumes rep: "represents b a"
  shows "refines b a (spec_limit now cid oid sd price qty a) (addLimitOrder now cid oid sd price qty b)"
proof (cases "lookup_order oid a")
  case None
  let ?x = "mk_response ACCEPTED cid (bk_symbol b) oid oid sd price 0 qty"
  obtain a' rs us where m: "match_and_rest now cid oid LIMIT sd price qty a = (a', rs, us)"
    using prod_cases3 by blast
  have "refines (sendResponse ?x b) a (a', rs, us)
      (match_then_rest now cid oid LIMIT sd price qty (sendResponse ?x b))"
    using match_then_rest_ok [of "sendResponse ?x b" a oid now cid LIMIT sd price qty] rep None m by simp
  then show ?thesis
    using None m rep represents_lookup_None [OF rep, of oid] represents_symbol [OF rep]
    by (auto simp: spec_limit_def addLimitOrder_def match_then_rest_def intro: refines_send)
next
  case (Some r)
  then show ?thesis
    using refines_reject [OF rep] represents_lookup_None [OF rep, of oid] represents_symbol [OF rep]
    by (auto simp: spec_limit_def addLimitOrder_def)
qed

text \<open>Market and IOC orders share their body.\<close>

definition add_immediate ::
  "ClientId \<Rightarrow> OrderId \<Rightarrow> Side \<Rightarrow> Price \<Rightarrow> bool \<Rightarrow> Qty \<Rightarrow> SymbolOrderBook \<Rightarrow> SymbolOrderBook result" where
  "add_immediate cid oid sd price has_limit qty b =
     (if bk_order_index b oid \<noteq> None then
        Inr (sendResponse (mk_response REJECTED cid (bk_symbol b) oid Invalid_OrderId sd price 0 qty) b)
      else
        let b = sendResponse (mk_response ACCEPTED cid (bk_symbol b) oid oid sd price 0 qty) b in
        rbind (matchIncoming cid oid sd price has_limit qty b) (\<lambda>(leaves, b).
        if 0 < leaves then
          Inr (sendResponse (mk_response CANCELED cid (bk_symbol b) oid oid sd price (qty - leaves) leaves) b)
        else Inr b))"

lemma add_immediate_ok:
  assumes rep: "represents b a"
  shows "\<exists>b'. add_immediate cid oid sd price hl qty b = Inr b' \<and>
    refines b a (spec_immediate cid oid sd price hl qty a) (Inr b')"
proof (cases "lookup_order oid a")
  case None
  let ?x = "mk_response ACCEPTED cid (bk_symbol b) oid oid sd price 0 qty"
  obtain leaves a' rs us where m: "match_book cid oid sd price hl qty a = (leaves, a', rs, us)"
    using prod_cases4 by blast
  have "represents (sendResponse ?x b) a" using rep by simp
  then obtain b1 where b1: "matchIncoming cid oid sd price hl qty (sendResponse ?x b) = Inr (leaves, b1)"
    "represents b1 a'" "effect (sendResponse ?x b) rs us b1"
    using matchIncoming_ok [OF _ m] by blast
  let ?y = "mk_response CANCELED cid (bk_symbol b) oid oid sd price (qty - leaves) leaves"
  have "effect (sendResponse ?x b) (rs @ [?y]) us (sendResponse ?y b1)"
    using effect_sendResponse [OF b1(3)] .
  then have "refines b a (a', ?x # rs @ [?y], us) (Inr (sendResponse ?y b1))" "refines b a (a', ?x # rs, us) (Inr b1)"
    using b1 by (auto intro: effect_after_send)
  then show ?thesis
    using None m b1(1) effect_symbol [OF b1(3)] represents_lookup_None [OF rep, of oid] represents_symbol [OF rep]
    by (auto simp: spec_immediate_def add_immediate_def Let_def)
next
  case (Some r)
  then show ?thesis
    using refines_reject [OF rep] represents_lookup_None [OF rep, of oid] represents_symbol [OF rep]
    by (auto simp: spec_immediate_def add_immediate_def)
qed

lemma market_ioc_immediate:
  "addMarketOrder cid oid sd qty b = add_immediate cid oid sd Invalid_Price False qty b"
  "addIOCOrder cid oid sd price qty b = add_immediate cid oid sd price True qty b"
  by (simp_all add: addMarketOrder_def addIOCOrder_def add_immediate_def)

lemma cancelOrder_ok:
  assumes rep: "represents b a"
  shows "\<exists>b'. cancelOrder cid oid b = Inr b' \<and> refines b a (spec_cancel cid oid a) (Inr b')"
proof (rule find_own_cases [OF rep, of cid oid])
  assume "own_order cid oid a = None" "find_own cid oid b = Inr None"
  then show ?thesis
    using refines_reject [OF rep] represents_symbol [OF rep]
    by (auto simp: cancelOrder_def spec_cancel_def cancel_reject_def reject_response_def)
next
  fix i ord
  assume own: "own_order cid oid a = Some (OrderInfo.truncate ord)" "find_own cid oid b = Inr (Some (i, ord))"
    and ix: "bk_order_index b oid = Some i" "orders_of b i = Some ord"
  obtain b1 where b1: "removeOrder i b = Inr b1" "effect b [] [] b1" "represents b1 (unrest (OrderInfo.truncate ord) a)"
    using removeOrder_represents [OF rep ix] by blast
  show ?thesis
    using own b1 represents_symbol [OF rep] effect_symbol [OF b1(2)]
      effect_sendBookUpdate [OF effect_sendResponse [OF b1(2)]]
    by (simp add: cancelOrder_def spec_cancel_def Let_def)
qed

text \<open>The three branches of modify that change the book, for an order \<open>ord\<close> of the client at node \<open>i\<close>.\<close>

lemma modify_reprice:
  assumes rep: "represents b a"
    and own: "own_order cid oid a = Some (OrderInfo.truncate ord)" "find_own cid oid b = Inr (Some (i, ord))"
    and ix: "bk_order_index b oid = Some i" "orders_of b i = Some ord"
    and ok: "\<not> bad_modify p q" "p \<noteq> bo_price ord"
  shows "refines b a (spec_modify now cid oid p q a) (modifyOrder now cid oid p q b)"
proof -
  let ?r = "OrderInfo.truncate ord" and ?x = "mk_response MODIFIED cid (bk_symbol b) oid oid (bo_side ord) p 0 q"
  obtain b1 where b1: "removeOrder i b = Inr b1" "effect b [] [] b1" "represents b1 (unrest ?r a)"
    "lookup_order oid (unrest ?r a) = None"
    using removeOrder_represents [OF rep ix] by blast
  let ?b = "sendResponse ?x b1"
  obtain a' rs us where m: "match_and_rest now cid oid (bo_order_type ord) (bo_side ord) p q (unrest ?r a) = (a', rs, us)"
    using prod_cases3 by blast
  have "refines ?b (unrest ?r a) (a', rs, us) (match_then_rest now cid oid (bo_order_type ord) (bo_side ord) p q ?b)"
    using match_then_rest_ok [of ?b "unrest ?r a" oid] b1(3,4) m by (metis represents_send(1))
  then have "refines b a (a', ?x # rs, us) (match_then_rest now cid oid (bo_order_type ord) (bo_side ord) p q ?b)"
    using refines_send refines_before [OF b1(2) unrest_no_larger] by metis
  moreover have "modifyOrder now cid oid p q b = match_then_rest now cid oid (bo_order_type ord) (bo_side ord) p q ?b"
    using ok own(2) b1(1) effect_symbol [OF b1(2)] by (simp add: modifyOrder_def match_then_rest_def Let_def)
  ultimately show ?thesis
    using ok own(1) m represents_symbol [OF rep] by (simp add: spec_modify_def Let_def)
qed

lemma modify_decrease:
  assumes rep: "represents b a"
    and own: "own_order cid oid a = Some (OrderInfo.truncate ord)" "find_own cid oid b = Inr (Some (i, ord))"
    and ix: "bk_order_index b oid = Some i" "orders_of b i = Some ord"
    and ok: "\<not> bad_modify p q" "p = bo_price ord" "q < bo_qty ord"
  shows "refines b a (spec_modify now cid oid p q a) (modifyOrder now cid oid p q b)"
proof -
  obtain b2 where b2: "write_order i (\<lambda>ord. ord\<lparr>bo_qty := q, bo_original_qty := q\<rparr>) b = Inr b2" "effect b [] [] b2"
    "represents b2 (set_side (bo_side ord = BUY) (update_qty oid q (side_orders (bo_side ord = BUY) a)) a)"
    using write_qty_represents [OF rep ix] by blast
  show ?thesis
    using ok own b2 represents_symbol [OF rep] effect_symbol [OF b2(2)]
      effect_sendBookUpdate [OF effect_sendResponse [OF b2(2)]]
    by (simp add: modifyOrder_def spec_modify_def Let_def)
qed

lemma modify_increase:
  assumes rep: "represents b a"
    and own: "own_order cid oid a = Some (OrderInfo.truncate ord)" "find_own cid oid b = Inr (Some (i, ord))"
    and ix: "bk_order_index b oid = Some i" "orders_of b i = Some ord"
    and ok: "\<not> bad_modify p q" "p = bo_price ord" "\<not> q < bo_qty ord" "q > bo_qty ord"
  shows "refines b a (spec_modify now cid oid p q a) (modifyOrder now cid oid p q b)"
proof -
  let ?r = "OrderInfo.truncate ord"
  let ?x = "mk_info oid cid (ab_symbol a) (bo_order_type ord) (bo_side ord) p q q now"
  let ?rest = "restOrder cid oid (bo_order_type ord) (bo_side ord) p q q now"
  note sy = represents_symbol [OF rep]
  obtain b1 where b1: "removeOrder i b = Inr b1" "effect b [] [] b1" "represents b1 (unrest ?r a)"
    "lookup_order oid (unrest ?r a) = None"
    using removeOrder_represents [OF rep ix] by blast
  have r: "refines b1 (unrest ?r a) (rest ?x (unrest ?r a), [], []) (?rest b1)"
    using restOrder_represents [OF b1(3,4)] sy effect_symbol [OF b1(2)] represents_symbol [OF b1(3)] by metis
  show ?thesis
  proof (cases "?rest b1")
    case (Inl e)
    then show ?thesis
      using ok own b1 r fits_mono [OF _ unrest_no_larger b1(2), of a ?r]
      by (auto simp: modifyOrder_def spec_modify_def Let_def)
  next
    case (Inr b2)
    have eff: "effect b [] [] b2" using r Inr effect_trans [OF b1(2), of "[]" "[]" b2] by simp
    show ?thesis
      using ok own b1(1) r Inr sy effect_symbol [OF eff] effect_sendBookUpdate [OF effect_sendResponse [OF eff]]
      by (simp add: modifyOrder_def spec_modify_def Let_def)
  qed
qed

lemma modifyOrder_ok:
  assumes rep: "represents b a"
  shows "refines b a (spec_modify now cid oid p q a) (modifyOrder now cid oid p q b)"
proof (rule find_own_cases [OF rep, of cid oid])
  assume "own_order cid oid a = None" "find_own cid oid b = Inr None"
  then show ?thesis
    using refines_reject [OF rep] represents_symbol [OF rep]
    by (auto simp: modifyOrder_def spec_modify_def cancel_reject_def reject_response_def)
next
  fix i ord
  assume own: "own_order cid oid a = Some (OrderInfo.truncate ord)" "find_own cid oid b = Inr (Some (i, ord))"
    and ix: "bk_order_index b oid = Some i" "orders_of b i = Some ord"
  consider "bad_modify p q" | "\<not> bad_modify p q" "p \<noteq> bo_price ord"
    | "\<not> bad_modify p q" "p = bo_price ord" "q < bo_qty ord"
    | "\<not> bad_modify p q" "p = bo_price ord" "\<not> q < bo_qty ord" "q > bo_qty ord"
    | "\<not> bad_modify p q" "p = bo_price ord" "q = bo_qty ord"
    by force
  then show ?thesis
  proof cases
    case 1
    then show ?thesis
      using own refines_reject [OF rep] represents_symbol [OF rep]
      by (auto simp: modifyOrder_def spec_modify_def cancel_reject_def reject_response_def Let_def)
  next
    case 2
    then show ?thesis by (rule modify_reprice [OF rep own ix])
  next
    case 3
    then show ?thesis by (rule modify_decrease [OF rep own ix])
  next
    case 4
    then show ?thesis by (rule modify_increase [OF rep own ix])
  next
    case 5
    then show ?thesis
      using own refines_reject [OF rep] represents_symbol [OF rep] by (simp add: modifyOrder_def spec_modify_def Let_def)
  qed
qed

section \<open>The empty book\<close>

lemma mk_book_represents:
  assumes "0 < n" and "n < 2 ^ 64" and "0 < m"
  shows "represents (mk_book n m sy rq uq) (empty_abook sy)"
proof -
  have "live (new_MemPool k v) = Map.empty" for k and v :: "'x"
    by (auto simp: new_MemPool_def live_def fun_eq_iff)
  then have "book_rel (mk_book n m sy rq uq) (\<lambda>_. [])"
    using assms
    by (auto simp: mk_book_def book_rel_def maps_ok_def heaps_ok_def index_ok_def pools_ok_def inverse_maps_def
      levels_def pool_inv_MemPool)
  then show ?thesis
    by (auto simp: represents_def abs_book_def empty_abook_def mk_book_def)
qed

end
