(* ===== verification/BookMatching.thy ===== *)
theory BookMatching
  imports BookSpec
begin

text \<open>
  Laws of the specified matching walk: which resting orders survive it and how they change, that
  quantity is conserved, that the fills are exactly the greedy allocation in price-time priority
  among the orders of other clients within the limit, and what remains when the incoming order
  is not filled.
\<close>

section \<open>What matching does to the resting orders\<close>

text \<open>A resting order after a match is one from before, with a quantity that may have shrunk but not to zero.\<close>

definition shrunk :: "OrderInfo \<Rightarrow> OrderInfo \<Rightarrow> bool" where
  "shrunk r' r \<longleftrightarrow> r' = r\<lparr>bo_qty := bo_qty r'\<rparr> \<and> bo_qty r' \<le> bo_qty r \<and> (bo_qty r \<noteq> 0 \<longrightarrow> bo_qty r' \<noteq> 0)"

lemma shrunk_refl [simp]: "shrunk r r"
  by (simp add: shrunk_def)

lemma shrunkD:
  assumes "shrunk r' r"
  shows "bo_order_id r' = bo_order_id r" "bo_client_id r' = bo_client_id r" "bo_symbol r' = bo_symbol r"
    "bo_order_type r' = bo_order_type r" "bo_side r' = bo_side r" "bo_price r' = bo_price r"
    "bo_original_qty r' = bo_original_qty r" "bo_priority_ts r' = bo_priority_ts r"
    "bo_qty r' \<le> bo_qty r" "bo_qty r \<noteq> 0 \<Longrightarrow> bo_qty r' \<noteq> 0"
proof -
  obtain q where "r' = r\<lparr>bo_qty := q\<rparr>" using assms by (auto simp: shrunk_def)
  then show "bo_order_id r' = bo_order_id r" "bo_client_id r' = bo_client_id r" "bo_symbol r' = bo_symbol r"
    "bo_order_type r' = bo_order_type r" "bo_side r' = bo_side r" "bo_price r' = bo_price r"
    "bo_original_qty r' = bo_original_qty r" "bo_priority_ts r' = bo_priority_ts r" by simp_all
qed (use assms in \<open>auto simp: shrunk_def\<close>)

lemma after_fill_shrunk: "r' \<in> set (after_fill r (min leaves (bo_qty r))) \<Longrightarrow> shrunk r' r"
  by (auto simp: after_fill_def shrunk_def word_sub_le split: if_splits)

text \<open>The three outcomes of one step of the walk.\<close>

lemma match_orders_Cons_cases:
  assumes "match_orders sy cid oid sd beyond leaves (r # os) = (os', l', rs, us)"
  obtains (stop) "leaves = 0 \<or> beyond (bo_price r)" "os' = r # os" "l' = leaves" "rs = []" "us = []"
  | (own) os1 where "leaves \<noteq> 0" "\<not> beyond (bo_price r)" "bo_client_id r = cid"
      "match_orders sy cid oid sd beyond leaves os = (os1, l', rs, us)" "os' = r # os1"
  | (fill) fill os1 rs1 us1 where "leaves \<noteq> 0" "\<not> beyond (bo_price r)" "bo_client_id r \<noteq> cid"
      "fill = min leaves (bo_qty r)"
      "match_orders sy cid oid sd beyond (leaves - fill) os = (os1, l', rs1, us1)"
      "os' = after_fill r fill @ os1" "rs = fill_responses sy cid oid sd r fill (leaves - fill) @ rs1"
      "us = fill_updates sy r fill @ us1"
  using assms by (auto simp: Let_def split: if_splits prod.splits)

lemma match_orders_origin:
  assumes "match_orders sy cid oid sd beyond leaves os = (os', l', rs, us)" and "r' \<in> set os'"
  shows "\<exists>r\<in>set os. shrunk r' r"
  using assms
proof (induction os arbitrary: leaves os' rs us)
  case (Cons r os)
  from Cons.prems(1) show ?case
  proof (cases rule: match_orders_Cons_cases)
    case stop
    with Cons.prems(2) show ?thesis using shrunk_refl by blast
  next
    case (own os1)
    with Cons show ?thesis using shrunk_refl by (metis list.set_intros set_ConsD)
  next
    case (fill fill os1 rs1 us1)
    then have "r' \<in> set (after_fill r (min leaves (bo_qty r))) \<or> r' \<in> set os1"
      using Cons.prems(2) by auto
    then show ?thesis using Cons.IH [OF fill(5)] after_fill_shrunk by (metis list.set_intros)
  qed
qed simp

definition priority_sorted :: "bool \<Rightarrow> OrderInfo list \<Rightarrow> bool" where
  "priority_sorted bid os \<longleftrightarrow> sorted_wrt (\<lambda>r s. \<not> price_before bid (bo_price s) (bo_price r)) os"

lemma match_orders_sorted_wrt:
  assumes "match_orders sy cid oid sd beyond leaves os = (os', l', rs, us)"
    and "sorted_wrt P os" and P: "\<And>r r' s s'. P r s \<Longrightarrow> shrunk r' r \<Longrightarrow> shrunk s' s \<Longrightarrow> P r' s'"
  shows "sorted_wrt P os'"
  using assms(1,2)
proof (induction os arbitrary: leaves os' rs us)
  case (Cons r os)
  from Cons.prems(1) show ?case
  proof (cases rule: match_orders_Cons_cases)
    case stop
    with Cons.prems(2) show ?thesis by simp
  next
    case (own os1)
    have "P r s'" if "s' \<in> set os1" for s'
      using match_orders_origin [OF own(4) that] Cons.prems(2) P shrunk_refl by (auto; blast)
    then show ?thesis using own Cons.IH [OF own(4)] Cons.prems(2) by simp
  next
    case (fill fill os1 rs1 us1)
    have "P r' s'" if "r' \<in> set (after_fill r fill)" "s' \<in> set os1" for r' s'
      using match_orders_origin [OF fill(5) that(2)] after_fill_shrunk that(1) fill(4) Cons.prems(2) P by (auto; blast)
    then show ?thesis using fill Cons.IH [OF fill(5)] Cons.prems(2) by (auto simp: sorted_wrt_append after_fill_def)
  qed
qed simp

lemma match_orders_sorted:
  "match_orders sy cid oid sd beyond leaves os = (os', l', rs, us) \<Longrightarrow> priority_sorted bid os \<Longrightarrow> priority_sorted bid os'"
  unfolding priority_sorted_def by (erule match_orders_sorted_wrt) (auto dest!: shrunkD(6))

lemma match_orders_distinct:
  "match_orders sy cid oid sd beyond leaves os = (os', l', rs, us) \<Longrightarrow> distinct (map bo_order_id os) \<Longrightarrow>
     distinct (map bo_order_id os')"
  unfolding distinct_sorted_wrt sorted_wrt_map
  by (erule match_orders_sorted_wrt) (auto dest!: shrunkD(1))

section \<open>Conservation of quantity\<close>

definition open_qty :: "OrderInfo list \<Rightarrow> nat" where
  "open_qty os = (\<Sum>r\<leftarrow>os. unat (bo_qty r))"

definition traded_qty :: "BookUpdate list \<Rightarrow> nat" where
  "traded_qty us = (\<Sum>u\<leftarrow>us. if upd_type u = MU_TRADE then unat (upd_qty u) else 0)"

lemma qty_simps [simp]:
  "open_qty [] = 0" "open_qty (r # os) = unat (bo_qty r) + open_qty os" "open_qty (os @ os') = open_qty os + open_qty os'"
  "traded_qty [] = 0" "traded_qty (us @ us') = traded_qty us + traded_qty us'"
  by (simp_all add: open_qty_def traded_qty_def)

lemma fill_quantities:
  assumes "fill = min leaves (bo_qty r)"
  shows "unat (bo_qty r) = open_qty (after_fill r fill) + unat fill"
    and "unat leaves = unat (leaves - fill) + unat fill" and "traded_qty (fill_updates sy r fill) = unat fill"
proof -
  have "fill \<le> leaves" "fill \<le> bo_qty r" using assms by auto
  then show "unat leaves = unat (leaves - fill) + unat fill" by (simp add: unat_sub word_le_nat_alt)
  have "unat (bo_qty r) = unat (bo_qty r - fill) + unat fill"
    using \<open>fill \<le> bo_qty r\<close> by (simp add: unat_sub word_le_nat_alt)
  then show "unat (bo_qty r) = open_qty (after_fill r fill) + unat fill"
    by (auto simp: after_fill_def)
  show "traded_qty (fill_updates sy r fill) = unat fill"
    by (simp add: traded_qty_def fill_updates_def)
qed

lemma match_orders_conserves:
  assumes "match_orders sy cid oid sd beyond leaves os = (os', l', rs, us)"
  shows "unat leaves = unat l' + traded_qty us \<and> open_qty os = open_qty os' + traded_qty us"
  using assms
proof (induction os arbitrary: leaves os' rs us)
  case (Cons r os)
  from Cons.prems(1) show ?case
  proof (cases rule: match_orders_Cons_cases)
    case (fill fill os1 rs1 us1)
    with Cons.IH [OF fill(5)] fill_quantities [OF fill(4)] show ?thesis by simp
  qed (use Cons.IH in auto)
qed simp

section \<open>Price-time priority\<close>

text \<open>
  The reference allocation: the orders of other clients within the limit are served in the order
  of the side, each receives what is left up to its own quantity.
\<close>

fun greedy :: "Qty \<Rightarrow> OrderInfo list \<Rightarrow> (OrderInfo \<times> Qty) list" where
  "greedy q [] = []"
| "greedy q (r # os) = (if q = 0 then [] else (r, min q (bo_qty r)) # greedy (q - min q (bo_qty r)) os)"

definition eligible :: "ClientId \<Rightarrow> (Price \<Rightarrow> bool) \<Rightarrow> OrderInfo list \<Rightarrow> OrderInfo list" where
  "eligible cid beyond os = filter (\<lambda>r. bo_client_id r \<noteq> cid) (takeWhile (\<lambda>r. \<not> beyond (bo_price r)) os)"

definition trades :: "BookUpdate list \<Rightarrow> BookUpdate list" where
  "trades us = filter (\<lambda>u. upd_type u = MU_TRADE) us"

definition trade_of :: "Symbol \<Rightarrow> OrderInfo \<times> Qty \<Rightarrow> BookUpdate" where
  "trade_of sy = (\<lambda>(r, q). mk_update MU_TRADE (bo_order_id r) sy (bo_side r) (bo_price r) q)"

lemma trades_simps [simp]:
  "trades [] = []" "trades (us @ us') = trades us @ trades us'"
  "trades (fill_updates sy r fill) = [trade_of sy (r, fill)]"
  by (simp_all add: trades_def fill_updates_def trade_of_def)

lemma greedy_zero [simp]: "greedy 0 os = []"
  by (cases os) auto

lemma match_orders_greedy:
  assumes "match_orders sy cid oid sd beyond leaves os = (os', l', rs, us)"
  shows "trades us = map (trade_of sy) (greedy leaves (eligible cid beyond os))"
  using assms
proof (induction os arbitrary: leaves os' rs us)
  case (Cons r os)
  from Cons.prems(1) show ?case
  proof (cases rule: match_orders_Cons_cases)
    case stop
    then show ?thesis by (auto simp: eligible_def)
  next
    case (own os1)
    with Cons.IH [OF own(4)] show ?thesis by (simp add: eligible_def)
  next
    case (fill fill os1 rs1 us1)
    with Cons.IH [OF fill(5)] show ?thesis by (simp add: eligible_def)
  qed
qed (simp add: eligible_def)

section \<open>What is left when the incoming order is not filled\<close>

lemma match_orders_unfilled:
  assumes "match_orders sy cid oid sd beyond leaves os = (os', l', rs, us)" and "l' \<noteq> 0"
    and "sorted_wrt (\<lambda>r s. beyond (bo_price r) \<longrightarrow> beyond (bo_price s)) os" and "r' \<in> set os'"
  shows "beyond (bo_price r') \<or> bo_client_id r' = cid"
  using assms
proof (induction os arbitrary: leaves os' rs us)
  case (Cons r os)
  from Cons.prems(1) show ?case
  proof (cases rule: match_orders_Cons_cases)
    case stop
    with Cons.prems show ?thesis by auto
  next
    case (own os1)
    with Cons.IH [OF own(4)] Cons.prems show ?thesis by auto
  next
    case (fill fill os1 rs1 us1)
    have "r' \<in> set os1"
    proof (rule ccontr)
      assume "r' \<notin> set os1"
      then have "bo_qty r \<noteq> fill" using fill Cons.prems(4) by (auto simp: after_fill_def split: if_splits)
      then have "leaves = fill" using fill(4) by (auto simp: min_def split: if_splits)
      then show False using fill(5) Cons.prems(2) by simp
    qed
    with Cons.IH [OF fill(5)] Cons.prems show ?thesis by auto
  qed
qed simp

end
