(* ===== verification/BookInvariant.thy ===== *)
theory BookInvariant
  imports BookMatching
begin

text \<open>
  The invariant of the specified book: sides sorted by price, every resting order on its own
  side with a positive quantity and price, order ids unique, and crossing prices only between
  orders of the same client. Every operation keeps it, and adds at most one order and one level.
\<close>

section \<open>Well-formed books\<close>

definition order_ok :: "Symbol \<Rightarrow> bool \<Rightarrow> OrderInfo \<Rightarrow> bool" where
  "order_ok sy bid r \<longleftrightarrow> bo_symbol r = sy \<and> (bo_side r = BUY \<longleftrightarrow> bid) \<and> bo_qty r \<noteq> 0 \<and>
     bo_qty r \<le> bo_original_qty r \<and> 0 < bo_price r \<and> bo_order_type r = LIMIT"

definition book_ok :: "abook \<Rightarrow> bool" where
  "book_ok a \<longleftrightarrow>
     (\<forall>bid. priority_sorted bid (side_orders bid a) \<and> (\<forall>r\<in>set (side_orders bid a). order_ok (ab_symbol a) bid r)) \<and>
     distinct (map bo_order_id (all_orders a))"

text \<open>A bid and an ask whose prices cross belong to the same client.\<close>

definition uncrossed :: "abook \<Rightarrow> bool" where
  "uncrossed a \<longleftrightarrow> (\<forall>x\<in>set (side_orders True a). \<forall>y\<in>set (side_orders False a).
     bo_price y \<le> bo_price x \<longrightarrow> bo_client_id x = bo_client_id y)"

lemma empty_book_ok: "book_ok (empty_abook sy)" "uncrossed (empty_abook sy)"
  by (simp_all add: book_ok_def uncrossed_def empty_abook_def side_orders_def all_orders_def priority_sorted_def)

lemma book_okD:
  assumes "book_ok a"
  shows "priority_sorted bid (side_orders bid a)"
    and "r \<in> set (side_orders bid a) \<Longrightarrow> order_ok (ab_symbol a) bid r"
    and "distinct (map bo_order_id (side_orders bid a))"
    and "bo_order_id ` set (side_orders True a) \<inter> bo_order_id ` set (side_orders False a) = {}"
proof -
  show "priority_sorted bid (side_orders bid a)" using assms by (simp add: book_ok_def)
  show "r \<in> set (side_orders bid a) \<Longrightarrow> order_ok (ab_symbol a) bid r" using assms by (simp add: book_ok_def)
  have "distinct (map bo_order_id (ab_bids a) @ map bo_order_id (ab_asks a))"
    using assms by (simp add: book_ok_def all_orders_def)
  then show "distinct (map bo_order_id (side_orders bid a))"
    and "bo_order_id ` set (side_orders True a) \<inter> bo_order_id ` set (side_orders False a) = {}"
    by (auto simp: side_orders_def)
qed

lemma book_ok_set_side:
  assumes "book_ok a" and "priority_sorted bid os" and "\<And>r. r \<in> set os \<Longrightarrow> order_ok (ab_symbol a) bid r"
    and "distinct (map bo_order_id os)" and "bo_order_id ` set os \<inter> bo_order_id ` set (side_orders (\<not> bid) a) = {}"
  shows "book_ok (set_side bid os a)"
proof -
  have all: "all_orders x = side_orders True x @ side_orders False x" for x
    by (simp add: all_orders_def side_orders_def)
  show ?thesis
    using assms book_okD [OF assms(1)] unfolding book_ok_def all
    by (cases bid) (auto simp: Int_commute)
qed

lemma uncrossed_set_side:
  assumes "uncrossed a"
    and "\<And>r' y. r' \<in> set os \<Longrightarrow> y \<in> set (side_orders (\<not> bid) a) \<Longrightarrow>
      \<not> price_before bid (bo_price y) (bo_price r') \<Longrightarrow> bo_client_id r' = bo_client_id y"
  shows "uncrossed (set_side bid os a)"
  using assms by (cases bid) (fastforce simp: uncrossed_def price_before_def)+

lemma uncrossedD:
  assumes "uncrossed a" and "r \<in> set (side_orders bid a)" and "y \<in> set (side_orders (\<not> bid) a)"
    and "\<not> price_before bid (bo_price y) (bo_price r)"
  shows "bo_client_id r = bo_client_id y"
  using assms by (cases bid) (auto simp: uncrossed_def price_before_def)

section \<open>Matching, resting and removing keep a book well formed\<close>

lemma order_ok_shrunk: "order_ok sy bid r \<Longrightarrow> shrunk r' r \<Longrightarrow> order_ok sy bid r'"
  using shrunkD [of r' r] by (auto simp: order_ok_def)

lemma match_book_cases:
  assumes "match_book cid oid sd lp hl qty a = (l', a', rs, us)"
  obtains os where "match_orders (ab_symbol a) cid oid sd (beyond_limit sd hl lp) qty (side_orders (sd \<noteq> BUY) a) = (os, l', rs, us)"
    and "a' = set_side (sd \<noteq> BUY) os a"
  using assms by (auto simp: match_book_def split: prod.splits)

lemma match_book_ok:
  assumes "book_ok a" and "match_book cid oid sd lp hl qty a = (l', a', rs, us)"
  shows "book_ok a'"
proof (rule match_book_cases [OF assms(2)])
  fix os
  let ?bid = "sd \<noteq> BUY"
  assume m: "match_orders (ab_symbol a) cid oid sd (beyond_limit sd hl lp) qty (side_orders ?bid a) = (os, l', rs, us)"
    and a': "a' = set_side ?bid os a"
  show ?thesis unfolding a'
  proof (rule book_ok_set_side [OF assms(1)])
    show "priority_sorted ?bid os" using match_orders_sorted [OF m] book_okD(1) [OF assms(1)] by blast
    show "distinct (map bo_order_id os)" using match_orders_distinct [OF m] book_okD(3) [OF assms(1)] by blast
    show "order_ok (ab_symbol a) ?bid r" if "r \<in> set os" for r
      using match_orders_origin [OF m that] book_okD(2) [OF assms(1)] order_ok_shrunk by blast
    show "bo_order_id ` set os \<inter> bo_order_id ` set (side_orders (\<not> ?bid) a) = {}"
      using match_orders_ids [OF m] book_okD(4) [OF assms(1)] by (cases ?bid) auto
  qed
qed

lemma match_book_uncrossed:
  assumes "uncrossed a" and "match_book cid oid sd lp hl qty a = (l', a', rs, us)"
  shows "uncrossed a'"
proof (rule match_book_cases [OF assms(2)])
  fix os
  let ?bid = "sd \<noteq> BUY"
  assume m: "match_orders (ab_symbol a) cid oid sd (beyond_limit sd hl lp) qty (side_orders ?bid a) = (os, l', rs, us)"
    and a': "a' = set_side ?bid os a"
  show ?thesis unfolding a'
  proof (rule uncrossed_set_side [OF assms(1)])
    fix r' y assume r': "r' \<in> set os" and y: "y \<in> set (side_orders (\<not> ?bid) a)"
      and "\<not> price_before ?bid (bo_price y) (bo_price r')"
    moreover obtain r where "r \<in> set (side_orders ?bid a)" "shrunk r' r"
      using match_orders_origin [OF m r'] by blast
    ultimately show "bo_client_id r' = bo_client_id y"
      using uncrossedD [OF assms(1) _ y, of r] shrunkD(2,6) [of r' r] by simp
  qed
qed

lemma beyond_limit_before: "beyond_limit sd True lp p \<longleftrightarrow> price_before (sd \<noteq> BUY) lp p"
  by (auto simp: beyond_limit_def price_before_def)

text \<open>An order that is not filled completely crosses only its own client's orders.\<close>

lemma match_book_unfilled:
  assumes "book_ok a" and "match_book cid oid sd lp True qty a = (l', a', rs, us)" and "l' \<noteq> 0"
    and "y \<in> set (side_orders (sd \<noteq> BUY) a')" and "\<not> price_before (sd \<noteq> BUY) lp (bo_price y)"
  shows "bo_client_id y = cid"
proof (rule match_book_cases [OF assms(2)])
  fix os
  let ?bid = "sd \<noteq> BUY"
  assume m: "match_orders (ab_symbol a) cid oid sd (beyond_limit sd True lp) qty (side_orders ?bid a) = (os, l', rs, us)"
    and a': "a' = set_side ?bid os a"
  have "sorted_wrt (\<lambda>r s. beyond_limit sd True lp (bo_price r) \<longrightarrow> beyond_limit sd True lp (bo_price s)) (side_orders ?bid a)"
    using book_okD(1) [OF assms(1), of ?bid] unfolding priority_sorted_def
    by (rule sorted_wrt_mono_rel [rotated]) (auto simp: beyond_limit_before price_before_def split: if_splits)
  then show ?thesis
    using match_orders_unfilled [OF m assms(3), of y] assms(4,5) a' by (simp add: beyond_limit_before)
qed

lemma set_insert_order [simp]: "set (insert_order bid x os) = insert x (set os)"
proof -
  let ?P = "\<lambda>r. \<not> price_before bid (bo_price x) (bo_price r)"
  have "set os = set (takeWhile ?P os) \<union> set (dropWhile ?P os)"
    by (metis set_append takeWhile_dropWhile_id)
  then show ?thesis by (auto simp: insert_order_def)
qed

lemma insert_order_ids:
  "distinct (map bo_order_id (insert_order bid x os)) \<longleftrightarrow> bo_order_id x \<notin> bo_order_id ` set os \<and> distinct (map bo_order_id os)"
proof -
  let ?P = "\<lambda>r. \<not> price_before bid (bo_price x) (bo_price r)"
  have "mset (insert_order bid x os) = add_mset x (mset os)"
    by (simp add: insert_order_def) (metis mset_append takeWhile_dropWhile_id)
  then have "mset (map bo_order_id (insert_order bid x os)) = mset (map bo_order_id (x # os))"
    by (metis mset.simps(2) mset_map)
  then have "distinct (map bo_order_id (insert_order bid x os)) = distinct (map bo_order_id (x # os))"
    by (rule mset_eq_imp_distinct_iff)
  then show ?thesis by simp
qed

lemma insert_order_sorted:
  assumes "priority_sorted bid os"
  shows "priority_sorted bid (insert_order bid x os)"
proof -
  let ?P = "\<lambda>r. \<not> price_before bid (bo_price x) (bo_price r)"
  define os1 where "os1 = takeWhile ?P os"
  define os2 where "os2 = dropWhile ?P os"
  have sorted: "priority_sorted bid (os1 @ os2)" using assms by (simp add: os1_def os2_def)
  have first: "\<not> price_before bid (bo_price x) (bo_price r)" if "r \<in> set os1" for r
    using that by (auto simp: os1_def dest: set_takeWhileD)
  have later: "\<not> price_before bid (bo_price r) (bo_price x)" if "r \<in> set os2" for r
  proof (cases os2)
    case (Cons y ys)
    then have y: "price_before bid (bo_price x) (bo_price y)"
      using hd_dropWhile [of ?P os] by (simp add: os2_def)
    have "r = y \<or> \<not> price_before bid (bo_price r) (bo_price y)"
      using that Cons sorted by (auto simp: priority_sorted_def sorted_wrt_append)
    then show ?thesis using y by (auto simp: price_before_def split: if_splits)
  qed (use that in simp)
  have "insert_order bid x os = os1 @ x # os2" by (simp add: insert_order_def os1_def os2_def)
  then show ?thesis
    using sorted first later by (auto simp: priority_sorted_def sorted_wrt_append)
qed

lemma rest_ok:
  assumes "book_ok a" and "order_ok (ab_symbol a) (bo_side x = BUY) x" and "lookup_order (bo_order_id x) a = None"
  shows "book_ok (rest x a)"
proof -
  let ?bid = "bo_side x = BUY"
  have fresh: "bo_order_id x \<notin> bo_order_id ` set (side_orders bid a)" for bid
    using assms(3) by (cases bid) (auto simp: lookup_None_iff all_orders_sides)
  have disj: "bo_order_id ` set (side_orders ?bid a) \<inter> bo_order_id ` set (side_orders (\<not> ?bid) a) = {}"
    using book_okD(4) [OF assms(1)] by (cases ?bid) (simp_all add: Int_commute)
  show ?thesis
    unfolding rest_def Let_def
  proof (rule book_ok_set_side [OF assms(1)])
    show "priority_sorted ?bid (insert_order ?bid x (side_orders ?bid a))"
      using book_okD(1) [OF assms(1)] by (rule insert_order_sorted)
    show "distinct (map bo_order_id (insert_order ?bid x (side_orders ?bid a)))"
      using fresh book_okD(3) [OF assms(1)] by (simp add: insert_order_ids)
    show "order_ok (ab_symbol a) ?bid r" if "r \<in> set (insert_order ?bid x (side_orders ?bid a))" for r
      using that assms(2) book_okD(2) [OF assms(1)] by auto
    show "bo_order_id ` set (insert_order ?bid x (side_orders ?bid a)) \<inter> bo_order_id ` set (side_orders (\<not> ?bid) a) = {}"
      using fresh [of "\<not> ?bid"] disj by auto
  qed
qed

lemma rest_uncrossed:
  assumes "uncrossed a" and "\<And>y. y \<in> set (side_orders (bo_side x \<noteq> BUY) a) \<Longrightarrow>
      \<not> price_before (bo_side x \<noteq> BUY) (bo_price x) (bo_price y) \<Longrightarrow> bo_client_id y = bo_client_id x"
  shows "uncrossed (rest x a)"
  unfolding rest_def Let_def
proof (rule uncrossed_set_side [OF assms(1)])
  fix r y
  assume "r \<in> set (insert_order (bo_side x = BUY) x (side_orders (bo_side x = BUY) a))"
    and y: "y \<in> set (side_orders (\<not> (bo_side x = BUY)) a)"
    and np: "\<not> price_before (bo_side x = BUY) (bo_price y) (bo_price r)"
  then have "r = x \<or> r \<in> set (side_orders (bo_side x = BUY) a)" by simp
  then show "bo_client_id r = bo_client_id y"
  proof
    assume "r = x"
    moreover have "\<not> price_before (bo_side x \<noteq> BUY) (bo_price x) (bo_price y)"
      using np \<open>r = x\<close> by (cases "bo_side x = BUY") (simp_all add: price_before_def)
    ultimately show ?thesis using assms(2) [OF y] by simp
  next
    assume "r \<in> set (side_orders (bo_side x = BUY) a)"
    then show ?thesis using uncrossedD [OF assms(1) _ y np] by simp
  qed
qed

lemma unrest_ok: "book_ok a \<Longrightarrow> book_ok (unrest r a)"
  unfolding unrest_def Let_def
proof (rule book_ok_set_side)
  let ?bid = "bo_side r = BUY"
  assume ok: "book_ok a"
  show "priority_sorted ?bid (delete_order (bo_order_id r) (side_orders ?bid a))"
    using book_okD(1) [OF ok, of ?bid] by (simp add: priority_sorted_def delete_order_def sorted_wrt_filter)
  show "distinct (map bo_order_id (delete_order (bo_order_id r) (side_orders ?bid a)))"
    using book_okD(3) [OF ok, of ?bid] by (simp add: delete_order_def distinct_map_filter)
  show "bo_order_id ` set (delete_order (bo_order_id r) (side_orders ?bid a)) \<inter>
      bo_order_id ` set (side_orders (\<not> ?bid) a) = {}"
    using book_okD(4) [OF ok] by (cases ?bid) (auto simp: delete_order_def)
qed (auto simp: delete_order_def intro: book_okD(2))

lemma unrest_uncrossed: "uncrossed a \<Longrightarrow> uncrossed (unrest r a)"
  unfolding unrest_def Let_def
  by (rule uncrossed_set_side) (auto simp: delete_order_def intro: uncrossedD)

section \<open>Order entry keeps a book well formed\<close>

abbreviation sound :: "abook \<Rightarrow> bool" where
  "sound a \<equiv> book_ok a \<and> uncrossed a"

lemma match_and_rest_sound:
  assumes ok: "sound a" and "lookup_order oid a = None" and "0 < price" and "ot = LIMIT"
    and m: "match_and_rest now cid oid ot sd price qty a = (a', rs, us)"
  shows "sound a'"
proof -
  obtain leaves a1 rs1 us1 where mb: "match_book cid oid sd price True qty a = (leaves, a1, rs1, us1)"
    using prod_cases4 by blast
  have ok1: "book_ok a1" "uncrossed a1"
    using match_book_ok [OF _ mb] match_book_uncrossed [OF _ mb] ok by auto
  let ?x = "mk_info oid cid (ab_symbol a) ot sd price qty leaves now"
  show ?thesis
  proof (cases "leaves = 0")
    case True
    then show ?thesis using m mb ok1 by (simp add: match_and_rest_def)
  next
    case False
    have "leaves \<le> qty"
      using mb match_orders_conserves by (auto simp: match_book_def word_le_nat_alt split: prod.splits)
    then have "order_ok (ab_symbol a1) (bo_side ?x = BUY) ?x"
      using assms False match_book_symbol [OF mb] by (simp add: order_ok_def mk_info_def)
    then have "book_ok (rest ?x a1)"
      using rest_ok [OF ok1(1)] match_book_lookup_None [OF mb assms(2)] by (simp add: mk_info_def)
    moreover have "uncrossed (rest ?x a1)"
      using rest_uncrossed [OF ok1(2), of ?x] match_book_unfilled [OF _ mb False] ok by (simp add: mk_info_def)
    ultimately show ?thesis using m mb False by (auto simp: match_and_rest_def word_gt_0)
  qed
qed

lemma spec_limit_sound:
  assumes "sound a" and "0 < price" and "spec_limit now cid oid sd price qty a = (a', rs, us)"
  shows "sound a'"
  using assms match_and_rest_sound [OF assms(1) _ assms(2) refl]
  by (auto simp: spec_limit_def split: if_splits prod.splits)

lemma spec_immediate_sound:
  assumes "sound a" and "spec_immediate cid oid sd price hl qty a = (a', rs, us)"
  shows "sound a'"
  using assms match_book_ok match_book_uncrossed
  by (auto simp: spec_immediate_def split: if_splits prod.splits)

lemma own_orderD:
  assumes "own_order cid oid a = Some r"
  shows "r \<in> set (all_orders a)" "bo_order_id r = oid" "bo_client_id r = cid" "lookup_order oid a = Some r"
  using assms by (auto simp: own_order_def lookup_order_def find_Some_iff split: option.splits if_splits)

lemma own_order_side:
  assumes "book_ok a" and "own_order cid oid a = Some r"
  shows "r \<in> set (side_orders (bo_side r = BUY) a)" and "order_ok (ab_symbol a) (bo_side r = BUY) r"
proof -
  obtain bid where "r \<in> set (side_orders bid a)"
    using own_orderD(1) [OF assms(2)] by (auto simp: all_orders_sides)
  moreover from this have "bid = (bo_side r = BUY)"
    using book_okD(2) [OF assms(1)] by (auto simp: order_ok_def)
  ultimately show "r \<in> set (side_orders (bo_side r = BUY) a)" "order_ok (ab_symbol a) (bo_side r = BUY) r"
    using book_okD(2) [OF assms(1)] by auto
qed

lemma spec_cancel_sound:
  assumes "sound a" and "spec_cancel cid oid a = (a', rs, us)"
  shows "sound a'"
  using assms unrest_ok unrest_uncrossed by (auto simp: spec_cancel_def split: option.splits)

lemma unrest_lookup_None:
  assumes "book_ok a" and "own_order cid oid a = Some r"
  shows "lookup_order oid (unrest r a) = None"
proof -
  have "oid \<in> bo_order_id ` set (side_orders (bo_side r = BUY) a)"
    using own_order_side(1) [OF assms] own_orderD(2) [OF assms(2)] by auto
  then have "oid \<notin> bo_order_id ` set (side_orders (bo_side r \<noteq> BUY) a)"
    using book_okD(4) [OF assms(1)] by (cases "bo_side r = BUY") auto
  then show ?thesis
    using own_orderD(2) [OF assms(2)]
    by (cases "bo_side r = BUY") (auto simp: unrest_def lookup_None_iff all_orders_sides delete_order_def)
qed

lemma update_qty_sound:
  assumes ok: "sound a" and "q \<noteq> 0"
  shows "sound (set_side bid (update_qty oid q (side_orders bid a)) a)"
proof -
  let ?f = "\<lambda>r. if bo_order_id r = oid then r\<lparr>bo_qty := q, bo_original_qty := q\<rparr> else r"
  have same: "bo_order_id (?f r) = bo_order_id r" "bo_price (?f r) = bo_price r" "bo_client_id (?f r) = bo_client_id r" for r
    by simp_all
  have ids: "map bo_order_id (update_qty oid q os) = map bo_order_id os" for os
    by (simp add: update_qty_def)
  then have id_set: "bo_order_id ` set (update_qty oid q os) = bo_order_id ` set os" for os
    by (metis list.set_map)
  have "book_ok (set_side bid (update_qty oid q (side_orders bid a)) a)"
  proof (rule book_ok_set_side)
    show "priority_sorted bid (update_qty oid q (side_orders bid a))"
      using book_okD(1) [of a bid] ok by (simp add: priority_sorted_def update_qty_def sorted_wrt_map same del: if_split)
    show "distinct (map bo_order_id (update_qty oid q (side_orders bid a)))"
      using book_okD(3) [of a bid] ok ids by simp
    show "bo_order_id ` set (update_qty oid q (side_orders bid a)) \<inter> bo_order_id ` set (side_orders (\<not> bid) a) = {}"
      using book_okD(4) [of a] ok id_set by (cases bid) (simp_all add: Int_commute)
    show "order_ok (ab_symbol a) bid r" if "r \<in> set (update_qty oid q (side_orders bid a))" for r
      using that book_okD(2) [of a _ bid] ok assms(2) by (auto simp: update_qty_def order_ok_def split: if_splits)
  qed (use ok in simp)
  moreover have "uncrossed (set_side bid (update_qty oid q (side_orders bid a)) a)"
  proof (rule uncrossed_set_side)
    fix r' y assume "r' \<in> set (update_qty oid q (side_orders bid a))" "y \<in> set (side_orders (\<not> bid) a)"
      "\<not> price_before bid (bo_price y) (bo_price r')"
    moreover from this(1) obtain r where r: "r \<in> set (side_orders bid a)" "r' = ?f r"
      unfolding update_qty_def set_map by blast
    ultimately show "bo_client_id r' = bo_client_id y"
      using uncrossedD [of a r bid y] ok same [of r] by (simp only: r(2)) simp
  qed (use ok in simp)
  ultimately show ?thesis ..
qed

lemma requeue_sound:
  assumes ok: "sound a" and own: "own_order cid oid a = Some r" and "q \<noteq> 0"
  shows "sound (rest (mk_info oid cid (ab_symbol a) (bo_order_type r) (bo_side r) (bo_price r) q q now) (unrest r a))"
    (is "sound (rest ?x _)")
proof
  note r = own_order_side [OF conjunct1 [OF ok] own]
  have sy: "ab_symbol (unrest r a) = ab_symbol a" by (simp add: unrest_def Let_def)
  show "book_ok (rest ?x (unrest r a))"
    using r(2) assms(3) sy unrest_lookup_None [OF _ own] ok
    by (intro rest_ok unrest_ok) (auto simp: mk_info_def order_ok_def)
  show "uncrossed (rest ?x (unrest r a))"
  proof (rule rest_uncrossed)
    show "uncrossed (unrest r a)" using ok by (simp add: unrest_uncrossed)
    fix y assume "y \<in> set (side_orders (bo_side ?x \<noteq> BUY) (unrest r a))"
      "\<not> price_before (bo_side ?x \<noteq> BUY) (bo_price ?x) (bo_price y)"
    then have "y \<in> set (side_orders (bo_side r \<noteq> BUY) a)" "\<not> price_before (bo_side r = BUY) (bo_price y) (bo_price r)"
      by (auto simp: mk_info_def unrest_def Let_def price_before_def split: if_splits)
    then have "bo_client_id r = bo_client_id y"
      using uncrossedD [of a r "bo_side r = BUY" y] ok r(1) by simp
    then show "bo_client_id y = bo_client_id ?x"
      using own_orderD(3) [OF own] by (simp add: mk_info_def)
  qed
qed

lemma spec_modify_sound:
  assumes ok: "sound a" and m: "spec_modify now cid oid p q a = (a', rs, us)"
  shows "sound a'"
proof (cases "own_order cid oid a")
  case None
  then show ?thesis using assms by (simp add: spec_modify_def)
next
  case (Some r)
  have lim: "bo_order_type r = LIMIT"
    using own_order_side(2) [OF _ Some] ok by (auto simp: order_ok_def)
  have unr: "sound (unrest r a)" "lookup_order oid (unrest r a) = None"
    using ok unrest_ok unrest_uncrossed unrest_lookup_None [OF _ Some] by auto
  consider "bad_modify p q" | "\<not> bad_modify p q" "p \<noteq> bo_price r"
    | "\<not> bad_modify p q" "p = bo_price r" "q < bo_qty r"
    | "\<not> bad_modify p q" "p = bo_price r" "\<not> q < bo_qty r" "q > bo_qty r"
    | "\<not> bad_modify p q" "p = bo_price r" "q = bo_qty r"
    by force
  then show ?thesis
  proof cases
    case 2
    then show ?thesis
      using m Some match_and_rest_sound [OF unr _ lim, of p now cid "bo_side r" q]
      by (fastforce simp: spec_modify_def Let_def split: prod.splits)
  next
    case 3
    then show ?thesis using m Some update_qty_sound [OF ok] by (auto simp: spec_modify_def Let_def)
  next
    case 4
    then show ?thesis using m Some requeue_sound [OF ok Some] by (auto simp: spec_modify_def Let_def)
  qed (use ok m Some in \<open>auto simp: spec_modify_def Let_def\<close>)
qed

section \<open>An operation adds at most one order and one level\<close>

definition grows :: "abook \<Rightarrow> abook \<Rightarrow> bool" where
  "grows a' a \<longleftrightarrow> order_count a' \<le> order_count a + 1 \<and> level_count a' \<le> level_count a + 1"

lemma no_larger_grows: "no_larger a' a \<Longrightarrow> grows a' a"
  by (simp add: no_larger_def grows_def)

lemma grows_trans: "no_larger a1 a \<Longrightarrow> grows a' a1 \<Longrightarrow> grows a' a"
  by (simp add: no_larger_def grows_def)

lemma length_insert_order [simp]: "length (insert_order bid x os) = length os + 1"
  by (simp add: insert_order_def) (metis length_append takeWhile_dropWhile_id)

lemma rest_grows: "grows (rest x a) a"
  by (cases "bo_side x = BUY")
    (auto simp: grows_def rest_def order_count_sides level_count_def card_insert_if)

lemma match_and_rest_grows: "match_and_rest now cid oid ot sd price qty a = (a', rs, us) \<Longrightarrow> grows a' a"
  by (auto simp: match_and_rest_def split: prod.splits if_splits
      intro: grows_trans [OF match_book_no_larger rest_grows] no_larger_grows match_book_no_larger)

lemma spec_grows:
  "spec_limit now cid oid sd price qty a = (a', rs, us) \<Longrightarrow> grows a' a"
  "spec_immediate cid oid sd price hl qty a = (a', rs, us) \<Longrightarrow> grows a' a"
  "spec_cancel cid oid a = (a', rs, us) \<Longrightarrow> grows a' a"
proof -
  show "spec_limit now cid oid sd price qty a = (a', rs, us) \<Longrightarrow> grows a' a"
    by (auto simp: spec_limit_def split: if_splits prod.splits intro: no_larger_grows match_and_rest_grows)
  show "spec_immediate cid oid sd price hl qty a = (a', rs, us) \<Longrightarrow> grows a' a"
    by (auto simp: spec_immediate_def split: if_splits prod.splits intro: no_larger_grows match_book_no_larger)
  show "spec_cancel cid oid a = (a', rs, us) \<Longrightarrow> grows a' a"
    by (auto simp: spec_cancel_def split: option.splits intro: no_larger_grows unrest_no_larger)
qed

lemma update_qty_no_larger: "no_larger (set_side bid (update_qty oid q (side_orders bid a)) a) a"
  by (rule no_larger_set_side) (auto simp: update_qty_def image_iff)

lemma spec_modify_grows:
  assumes "spec_modify now cid oid p q a = (a', rs, us)"
  shows "grows a' a"
proof (cases "own_order cid oid a")
  case (Some r)
  have "\<And>a1 rs us. match_and_rest now cid oid (bo_order_type r) (bo_side r) p q (unrest r a) = (a1, rs, us) \<Longrightarrow> grows a1 a"
    using grows_trans [OF unrest_no_larger match_and_rest_grows] by blast
  then show ?thesis
    using assms Some no_larger_grows [OF no_larger_refl, of a] no_larger_grows [OF update_qty_no_larger]
      grows_trans [OF unrest_no_larger rest_grows]
    by (auto simp: spec_modify_def Let_def split: if_splits prod.splits)
qed (use assms in \<open>auto simp: spec_modify_def intro: no_larger_grows\<close>)

end
