(* ===== verification/MatchingCore.thy ===== *)
theory MatchingCore
  imports BookOps BookInvariant
begin

text \<open>
  The multi-symbol engine of exchange/matcher/matching_core.h: one context per symbol with its
  request queue and its book (which owns the symbol's response and update queues), the routing
  of sequenced requests, the validation and dispatch of one request, and the loop of a symbol's
  matching thread. The clock that the book reads is the argument \<open>now\<close>.
\<close>

section \<open>State\<close>

text \<open>
  \<open>ctx->response_queue\<close> and \<open>ctx->update_queue\<close> are the queues the book was built with: they are
  the fields \<open>bk_response_queue\<close> and \<open>bk_update_queue\<close> of \<open>ctx_book\<close>.
\<close>

record SymbolContext =
  ctx_request_queue :: "EngineOrderRequest LFQueue"
  ctx_book :: SymbolOrderBook

text \<open>
  The pointers in \<open>response_queues_\<close> and \<open>update_queues_\<close>: to a queue of the named symbol's
  context, to the queue for unknown symbols, or to the queue of a context that no longer exists.
\<close>

datatype queue_ref = Of_Symbol Symbol | Of_Unknown | Dangling

record MatchingCore =
  mc_contexts :: "Symbol \<rightharpoonup> SymbolContext"
  mc_response_queues :: "queue_ref list"
  mc_update_queues :: "queue_ref list"
  mc_unknown_symbol_responses :: "EngineOrderResponse LFQueue"

definition SYMBOL_QUEUE_SIZE :: nat where "SYMBOL_QUEUE_SIZE = 2 ^ 16"

definition EngineOrderRequest_default :: EngineOrderRequest where
  "EngineOrderRequest_default =
     \<lparr>req_order_type = OT_INVALID, req_client_id = Invalid_ClientId, req_symbol = '''',
      req_order_id = Invalid_OrderId, req_side = Side_INVALID, req_price = Invalid_Price,
      req_qty = Invalid_Qty, req_recv_time = 0\<rparr>"

definition EngineOrderResponse_default :: EngineOrderResponse where
  "EngineOrderResponse_default =
     mk_response RS_INVALID Invalid_ClientId '''' Invalid_OrderId Invalid_OrderId Side_INVALID Invalid_Price
       Invalid_Qty Invalid_Qty"

definition BookUpdate_default :: BookUpdate where
  "BookUpdate_default = mk_update MU_INVALID Invalid_OrderId '''' Side_INVALID Invalid_Price Invalid_Qty"

text \<open>
  The constructor. A context whose symbol is already present is not stored by \<open>emplace\<close> and is
  destroyed at the end of the loop body, after the addresses of its queues were recorded. The
  sizes are arguments; \<open>new_MatchingCore\<close> has the constants of the source.
\<close>

definition mk_context :: "nat \<Rightarrow> nat \<Rightarrow> nat \<Rightarrow> Symbol \<Rightarrow> SymbolContext" where
  "mk_context queue_size n_orders n_levels sy =
     \<lparr>ctx_request_queue = new_LFQueue queue_size EngineOrderRequest_default,
      ctx_book = mk_book n_orders n_levels sy (new_LFQueue queue_size EngineOrderResponse_default)
        (new_LFQueue queue_size BookUpdate_default)\<rparr>"

definition add_symbol :: "nat \<Rightarrow> nat \<Rightarrow> nat \<Rightarrow> MatchingCore \<Rightarrow> Symbol \<Rightarrow> MatchingCore" where
  "add_symbol queue_size n_orders n_levels mc sy =
     (let stored = (mc_contexts mc sy = None); ref = (if stored then Of_Symbol sy else Dangling) in
      mc\<lparr>mc_response_queues := mc_response_queues mc @ [ref],
         mc_update_queues := mc_update_queues mc @ [ref],
         mc_contexts := (if stored then (mc_contexts mc)(sy \<mapsto> mk_context queue_size n_orders n_levels sy)
                         else mc_contexts mc)\<rparr>)"

definition mk_core :: "nat \<Rightarrow> nat \<Rightarrow> nat \<Rightarrow> Symbol list \<Rightarrow> MatchingCore" where
  "mk_core queue_size n_orders n_levels symbols =
     (let mc = foldl (add_symbol queue_size n_orders n_levels)
                 \<lparr>mc_contexts = Map.empty, mc_response_queues = [], mc_update_queues = [],
                  mc_unknown_symbol_responses = new_LFQueue queue_size EngineOrderResponse_default\<rparr> symbols in
      mc\<lparr>mc_response_queues := mc_response_queues mc @ [Of_Unknown]\<rparr>)"

definition new_MatchingCore :: "Symbol list \<Rightarrow> MatchingCore" where
  "new_MatchingCore = mk_core SYMBOL_QUEUE_SIZE MAX_RESTING_ORDERS MAX_PRICE_LEVELS"

section \<open>Operations\<close>

definition reject_of :: "EngineOrderRequest \<Rightarrow> EngineOrderResponse" where
  "reject_of req = mk_response REJECTED (req_client_id req) (req_symbol req) (req_order_id req) Invalid_OrderId
     (req_side req) (req_price req) 0 (req_qty req)"

definition publishReject :: "EngineOrderRequest \<Rightarrow> EngineOrderResponse LFQueue \<Rightarrow> EngineOrderResponse LFQueue" where
  "publishReject req queue = push (reject_of req) queue"

definition routeRequest :: "EngineOrderRequest \<Rightarrow> MatchingCore \<Rightarrow> MatchingCore" where
  "routeRequest req mc =
     (case mc_contexts mc (req_symbol req) of
        None \<Rightarrow> mc\<lparr>mc_unknown_symbol_responses := publishReject req (mc_unknown_symbol_responses mc)\<rparr>
      | Some ctx \<Rightarrow>
          mc\<lparr>mc_contexts := (mc_contexts mc)
               (req_symbol req \<mapsto> ctx\<lparr>ctx_request_queue := push req (ctx_request_queue ctx)\<rparr>)\<rparr>)"

definition needs_price :: "OrderType \<Rightarrow> bool" where
  "needs_price ot \<longleftrightarrow> ot = LIMIT \<or> ot = IOC \<or> ot = MODIFY"

definition needs_qty :: "OrderType \<Rightarrow> bool" where
  "needs_qty ot \<longleftrightarrow> ot = LIMIT \<or> ot = MARKET \<or> ot = IOC \<or> ot = MODIFY"

text \<open>Reject on the symbol's own response queue.\<close>

definition reject_on_book :: "EngineOrderRequest \<Rightarrow> SymbolOrderBook \<Rightarrow> SymbolOrderBook" where
  "reject_on_book req b = b\<lparr>bk_response_queue := publishReject req (bk_response_queue b)\<rparr>"

text \<open>Validation and dispatch, on the book of the context.\<close>

definition dispatch :: "Nanos \<Rightarrow> EngineOrderRequest \<Rightarrow> SymbolOrderBook \<Rightarrow> SymbolOrderBook result" where
  "dispatch now req b =
     (if needs_qty (req_order_type req) \<and> (req_qty req = 0 \<or> req_qty req = Invalid_Qty) then
        Inr (reject_on_book req b)
      else if needs_price (req_order_type req) \<and> req_price req \<le> 0 then Inr (reject_on_book req b)
      else
        case req_order_type req of
          LIMIT \<Rightarrow> addLimitOrder now (req_client_id req) (req_order_id req) (req_side req) (req_price req) (req_qty req) b
        | MARKET \<Rightarrow> addMarketOrder (req_client_id req) (req_order_id req) (req_side req) (req_qty req) b
        | IOC \<Rightarrow> addIOCOrder (req_client_id req) (req_order_id req) (req_side req) (req_price req) (req_qty req) b
        | CANCEL \<Rightarrow> cancelOrder (req_client_id req) (req_order_id req) b
        | MODIFY \<Rightarrow> modifyOrder now (req_client_id req) (req_order_id req) (req_price req) (req_qty req) b
        | OT_INVALID \<Rightarrow> Inr (reject_on_book req b))"

definition processRequest :: "Nanos \<Rightarrow> SymbolContext \<Rightarrow> EngineOrderRequest \<Rightarrow> SymbolContext result" where
  "processRequest now ctx req = rbind (dispatch now req (ctx_book ctx)) (\<lambda>b. Inr (ctx\<lparr>ctx_book := b\<rparr>))"

text \<open>One iteration of the loop of a matching thread.\<close>

definition run_step :: "Nanos \<Rightarrow> SymbolContext \<Rightarrow> SymbolContext result" where
  "run_step now ctx =
     (case getNextToRead (ctx_request_queue ctx) of
        None \<Rightarrow> Inr ctx
      | Some request \<Rightarrow>
          rbind (processRequest now ctx request) (\<lambda>ctx.
          rbind (updateReadIndex (ctx_request_queue ctx)) (\<lambda>q.
          Inr (ctx\<lparr>ctx_request_queue := q\<rparr>))))"

section \<open>The specification of one request\<close>

definition spec_request :: "Nanos \<Rightarrow> EngineOrderRequest \<Rightarrow> abook \<Rightarrow> op_result" where
  "spec_request now req a =
     (let cid = req_client_id req; oid = req_order_id req in
      if (needs_qty (req_order_type req) \<and> (req_qty req = 0 \<or> req_qty req = Invalid_Qty)) \<or>
         (needs_price (req_order_type req) \<and> req_price req \<le> 0) \<or> req_order_type req = OT_INVALID then
        (a, [reject_of req], [])
      else
        case req_order_type req of
          LIMIT \<Rightarrow> spec_limit now cid oid (req_side req) (req_price req) (req_qty req) a
        | MARKET \<Rightarrow> spec_immediate cid oid (req_side req) Invalid_Price False (req_qty req) a
        | IOC \<Rightarrow> spec_immediate cid oid (req_side req) (req_price req) True (req_qty req) a
        | CANCEL \<Rightarrow> spec_cancel cid oid a
        | MODIFY \<Rightarrow> spec_modify now cid oid (req_price req) (req_qty req) a
        | OT_INVALID \<Rightarrow> (a, [], []))"

lemma spec_request_sound:
  assumes "sound a" and "spec_request now req a = (a', rs, us)"
  shows "sound a'"
proof (cases "req_order_type req")
  case LIMIT
  with assms show ?thesis
    using spec_limit_sound [OF assms(1)]
    by (auto simp: spec_request_def Let_def needs_price_def not_le split: if_splits)
next
  case MARKET
  with assms show ?thesis
    using spec_immediate_sound [OF assms(1)] by (auto simp: spec_request_def Let_def split: if_splits)
next
  case IOC
  with assms show ?thesis
    using spec_immediate_sound [OF assms(1)] by (auto simp: spec_request_def Let_def split: if_splits)
next
  case CANCEL
  with assms show ?thesis
    using spec_cancel_sound [OF assms(1)] by (auto simp: spec_request_def Let_def split: if_splits)
next
  case MODIFY
  with assms show ?thesis
    using spec_modify_sound [OF assms(1)] by (auto simp: spec_request_def Let_def split: if_splits)
qed (use assms in \<open>simp add: spec_request_def\<close>)

lemma spec_request_grows:
  assumes "spec_request now req a = (a', rs, us)"
  shows "grows a' a"
proof (cases "req_order_type req")
qed (use assms spec_grows spec_modify_grows no_larger_grows [OF no_larger_refl] in
      \<open>auto simp: spec_request_def Let_def split: if_splits\<close>)

lemma reject_on_book_send: "reject_on_book req b = sendResponse (reject_of req) b"
  by (simp add: reject_on_book_def publishReject_def sendResponse_def)

lemma dispatch_ok:
  assumes rep: "represents b a"
  shows "refines b a (spec_request now req a) (dispatch now req b)"
proof -
  note defs = dispatch_def spec_request_def Let_def reject_on_book_send market_ioc_immediate
  have rej: "refines b a (a, [reject_of req], []) (Inr (sendResponse (reject_of req) b))"
    using refines_reject [OF rep] .
  have imm: "refines b a (spec_immediate cid oid sd price hl qty a) (add_immediate cid oid sd price hl qty b)"
    for cid oid sd price hl qty
    using add_immediate_ok [OF rep] by metis
  show ?thesis
  proof (cases "req_order_type req")
    case LIMIT
    then show ?thesis using rej addLimitOrder_ok [OF rep] by (auto simp: defs)
  next
    case MARKET
    then show ?thesis using rej imm by (auto simp: defs)
  next
    case IOC
    then show ?thesis using rej imm by (auto simp: defs)
  next
    case CANCEL
    then show ?thesis
      using rej cancelOrder_ok [OF rep, of "req_client_id req" "req_order_id req"] by (auto simp: defs needs_qty_def needs_price_def)
  next
    case MODIFY
    then show ?thesis using rej modifyOrder_ok [OF rep] by (auto simp: defs)
  next
    case OT_INVALID
    then show ?thesis using rej by (simp add: defs)
  qed
qed


section \<open>Runs of requests\<close>

fun run_all :: "('x \<Rightarrow> 'c \<Rightarrow> 'c result) \<Rightarrow> 'x list \<Rightarrow> 'c \<Rightarrow> 'c result" where
  "run_all step [] c = Inr c"
| "run_all step (x # xs) c = rbind (step x c) (run_all step xs)"

fun spec_all :: "('x \<Rightarrow> 'a \<Rightarrow> 'a \<times> 'r list \<times> 'u list) \<Rightarrow> 'x list \<Rightarrow> 'a \<Rightarrow> 'a \<times> 'r list \<times> 'u list" where
  "spec_all spec [] a = (a, [], [])"
| "spec_all spec (x # xs) a =
     (case spec x a of (a1, rs, us) \<Rightarrow>
      case spec_all spec xs a1 of (a2, rs2, us2) \<Rightarrow> (a2, rs @ rs2, us @ us2))"

text \<open>
  The interface between a machine and its specification: as long as there is room for one more
  operation, a step of the machine succeeds, represents the specified state and emits the
  specified events. Lifting it to sequences of operations needs nothing else.
\<close>

locale refining_machine =
  fixes step :: "'x \<Rightarrow> 'c \<Rightarrow> 'c result"
    and spec :: "'x \<Rightarrow> 'a \<Rightarrow> 'a \<times> 'r list \<times> 'u list"
    and rep :: "'c \<Rightarrow> 'a \<Rightarrow> bool"
    and emits :: "'c \<Rightarrow> 'r list \<Rightarrow> 'u list \<Rightarrow> 'c \<Rightarrow> bool"
    and room :: "nat \<Rightarrow> 'c \<Rightarrow> 'a \<Rightarrow> bool"
  assumes step_ok: "rep c a \<Longrightarrow> room (Suc n) c a \<Longrightarrow> spec x a = (a', rs, us) \<Longrightarrow>
      \<exists>c'. step x c = Inr c' \<and> rep c' a' \<and> emits c rs us c' \<and> room n c' a'"
    and emits_refl: "emits c [] [] c"
    and emits_trans: "emits c rs us c' \<Longrightarrow> emits c' rs' us' c'' \<Longrightarrow> emits c (rs @ rs') (us @ us') c''"
begin

lemma run_ok:
  "rep c a \<Longrightarrow> room (length xs) c a \<Longrightarrow> spec_all spec xs a = (a', rs, us) \<Longrightarrow>
     \<exists>c'. run_all step xs c = Inr c' \<and> rep c' a' \<and> emits c rs us c'"
proof (induction xs arbitrary: c a rs us)
  case Nil
  then show ?case by (simp add: emits_refl)
next
  case (Cons x xs)
  obtain a1 rs1 us1 rs2 us2 where s: "spec x a = (a1, rs1, us1)" "spec_all spec xs a1 = (a', rs2, us2)"
    "rs = rs1 @ rs2" "us = us1 @ us2"
    using Cons.prems(3) by (auto split: prod.splits)
  obtain c1 where c1: "step x c = Inr c1" "rep c1 a1" "emits c rs1 us1 c1" "room (length xs) c1 a1"
    using step_ok [OF Cons.prems(1) _ s(1)] Cons.prems(2) by auto
  obtain c' where "run_all step xs c1 = Inr c'" "rep c' a'" "emits c1 rs2 us2 c'"
    using Cons.IH [OF c1(2,4) s(2)] by blast
  then show ?case using c1 s(3,4) emits_trans by auto
qed

end

text \<open>Room for \<open>n\<close> more operations: each takes at most one block of each pool.\<close>

definition pool_room :: "nat \<Rightarrow> SymbolOrderBook \<Rightarrow> abook \<Rightarrow> bool" where
  "pool_room n b a \<longleftrightarrow> order_count a + n < pool_size (bk_order_pool b) \<and> level_count a + n < pool_size (bk_level_pool b)"

interpretation engine: refining_machine "\<lambda>(now, req). dispatch now req" "\<lambda>(now, req). spec_request now req"
  represents effect pool_room
proof (unfold_locales, goal_cases)
  case (1 b a n x a' rs us)
  obtain now req where x: "x = (now, req)" by (cases x)
  have "fits b a" using 1(2) by (simp add: pool_room_def fits_def)
  then obtain b' where b': "dispatch now req b = Inr b'" "represents b' a'" "effect b rs us b'"
    using dispatch_ok [OF 1(1), of now req] 1(3) x by (cases "dispatch now req b") auto
  moreover have "grows a' a" using spec_request_grows 1(3) x by simp
  ultimately show ?case
    using 1(2) x by (auto simp: pool_room_def grows_def effect_def)
qed (auto intro: effect_trans)

text \<open>A run that succeeds has the specified effects, whether or not there was room to spare.\<close>

lemma dispatch_run:
  assumes "represents b a" and "run_all (\<lambda>(now, req). dispatch now req) reqs b = Inr b'"
    and "spec_all (\<lambda>(now, req). spec_request now req) reqs a = (a', rs, us)"
  shows "represents b' a' \<and> effect b rs us b'"
  using assms
proof (induction reqs arbitrary: b a rs us)
  case (Cons x reqs)
  obtain b1 where b1: "dispatch (fst x) (snd x) b = Inr b1" "run_all (\<lambda>(now, req). dispatch now req) reqs b1 = Inr b'"
    using Cons.prems(2) by (auto simp: rbind_eq_Inr split: prod.splits)
  obtain a1 rs1 us1 rs2 us2 where s: "spec_request (fst x) (snd x) a = (a1, rs1, us1)"
    "spec_all (\<lambda>(now, req). spec_request now req) reqs a1 = (a', rs2, us2)" "rs = rs1 @ rs2" "us = us1 @ us2"
    using Cons.prems(3) by (auto split: prod.splits)
  have "represents b1 a1" "effect b rs1 us1 b1" using dispatch_ok [OF Cons.prems(1), of "fst x" "snd x"] b1(1) s(1) by simp_all
  then show ?case using Cons.IH [OF _ b1(2) s(2)] s(3,4) effect_trans by blast
qed simp

text \<open>The loop of a matching thread, one iteration per clock reading.\<close>

lemma run_step_Cons:
  assumes "read_inv (ctx_request_queue ctx)" and "contents (ctx_request_queue ctx) = req # reqs"
    and "dispatch now req (ctx_book ctx) = Inr b"
  shows "\<exists>q. run_step now ctx = Inr \<lparr>ctx_request_queue = q, ctx_book = b\<rparr> \<and> contents q = reqs \<and> read_inv q"
  using assms updateReadIndex_contents [OF assms(1,2)]
  by (cases ctx) (auto simp: run_step_def processRequest_def getNextToRead_contents)

lemma run_steps_dispatch:
  assumes "read_inv (ctx_request_queue ctx)" and "contents (ctx_request_queue ctx) = reqs"
    and "length nows = length reqs" and "run_all (\<lambda>(now, req). dispatch now req) (zip nows reqs) (ctx_book ctx) = Inr b"
  shows "\<exists>ctx'. run_all run_step nows ctx = Inr ctx' \<and> ctx_book ctx' = b \<and> contents (ctx_request_queue ctx') = []"
  using assms
proof (induction nows arbitrary: ctx reqs)
  case Nil
  then show ?case by simp
next
  case (Cons now nows)
  then obtain req reqs' where reqs: "reqs = req # reqs'" by (cases reqs) auto
  then obtain b1 where b1: "dispatch now req (ctx_book ctx) = Inr b1"
    "run_all (\<lambda>(now, req). dispatch now req) (zip nows reqs') b1 = Inr b"
    using Cons.prems(4) by (auto simp: rbind_eq_Inr)
  then obtain q where "run_step now ctx = Inr \<lparr>ctx_request_queue = q, ctx_book = b1\<rparr>" "contents q = reqs'" "read_inv q"
    using run_step_Cons [OF Cons.prems(1)] Cons.prems(2) reqs by blast
  then show ?case
    using Cons.IH [of "\<lparr>ctx_request_queue = q, ctx_book = b1\<rparr>" reqs'] Cons.prems(3) reqs b1(2) by auto
qed

lemma run_steps_ok:
  assumes "read_inv (ctx_request_queue ctx)" and "contents (ctx_request_queue ctx) = reqs"
    and "length nows = length reqs" and "represents (ctx_book ctx) a" and "pool_room (length reqs) (ctx_book ctx) a"
    and "spec_all (\<lambda>(now, req). spec_request now req) (zip nows reqs) a = (a', rs, us)"
  shows "\<exists>ctx'. run_all run_step nows ctx = Inr ctx' \<and> contents (ctx_request_queue ctx') = [] \<and>
    represents (ctx_book ctx') a' \<and> effect (ctx_book ctx) rs us (ctx_book ctx')"
proof -
  obtain b where "run_all (\<lambda>(now, req). dispatch now req) (zip nows reqs) (ctx_book ctx) = Inr b"
    "represents b a'" "effect (ctx_book ctx) rs us b"
    using engine.run_ok [OF assms(4) _ assms(6)] assms(3,5) by auto
  then show ?thesis using run_steps_dispatch [OF assms(1-3)] by blast
qed

section \<open>Reachable books\<close>

text \<open>
  The books that a symbol's thread can reach from the constructor, whatever it is sent and
  whatever the readers of its two outgoing queues do to them meanwhile.
\<close>

inductive reachable :: "SymbolOrderBook \<Rightarrow> bool" where
  init: "0 < n \<Longrightarrow> n < 2 ^ 64 \<Longrightarrow> 0 < m \<Longrightarrow> reachable (mk_book n m sy rq uq)"
| request: "reachable b \<Longrightarrow> dispatch now req b = Inr b' \<Longrightarrow> reachable b'"
| readers: "reachable b \<Longrightarrow> reachable (b\<lparr>bk_response_queue := rq, bk_update_queue := uq\<rparr>)"

lemma represents_queues: "represents (b\<lparr>bk_response_queue := rq, bk_update_queue := uq\<rparr>) a \<longleftrightarrow> represents b a"
proof -
  have "book_rel (b\<lparr>bk_response_queue := rq, bk_update_queue := uq\<rparr>) G \<longleftrightarrow> book_rel b G" for G
    by (rule book_rel_cong) (simp_all add: levels_def)
  moreover have "info (b\<lparr>bk_response_queue := rq, bk_update_queue := uq\<rparr>) = info b"
    by (simp add: info_def fun_eq_iff)
  ultimately show ?thesis by (simp add: represents_def abs_book_def)
qed

lemma reachable_sound: "reachable b \<Longrightarrow> \<exists>a. represents b a \<and> sound a"
proof (induction rule: reachable.induct)
  case (init n m sy rq uq)
  then show ?case using mk_book_represents [of n m sy rq uq] empty_book_ok [of sy] by blast
next
  case (request b now req b')
  then obtain a where a: "represents b a" "sound a" by blast
  obtain a' rs us where s: "spec_request now req a = (a', rs, us)" using prod_cases3 by blast
  have "refines b a (a', rs, us) (Inr b')" using dispatch_ok [OF a(1), of now req] s request.hyps(2) by simp
  then show ?case using spec_request_sound [OF a(2) s] by auto
next
  case (readers b rq uq)
  then show ?case by (simp add: represents_queues)
qed

section \<open>Construction\<close>

lemma add_symbols:
  "mc_contexts (foldl (add_symbol qs no nl) mc sys) sy =
     (if mc_contexts mc sy = None \<and> sy \<in> set sys then Some (mk_context qs no nl sy) else mc_contexts mc sy)"
  by (induction sys arbitrary: mc) (auto simp: add_symbol_def Let_def)

lemma add_symbols_queues:
  "distinct sys \<Longrightarrow> (\<And>sy. sy \<in> set sys \<Longrightarrow> mc_contexts mc sy = None) \<Longrightarrow>
     mc_response_queues (foldl (add_symbol qs no nl) mc sys) = mc_response_queues mc @ map Of_Symbol sys \<and>
     mc_update_queues (foldl (add_symbol qs no nl) mc sys) = mc_update_queues mc @ map Of_Symbol sys"
proof (induction sys arbitrary: mc)
  case (Cons sy sys)
  have "mc_contexts (add_symbol qs no nl mc sy) sy' = None" if "sy' \<in> set sys" for sy'
    using Cons.prems that by (auto simp: add_symbol_def Let_def)
  then show ?case
    using Cons.IH [of "add_symbol qs no nl mc sy"] Cons.prems by (simp add: add_symbol_def Let_def)
qed simp

text \<open>
  For distinct symbols the constructor builds one context per symbol with empty queues and an
  empty book, and records exactly the queues of these contexts, in order, and the queue for
  unknown symbols.
\<close>

lemma core_for_distinct_symbols:
  assumes "distinct symbols"
  shows "mc_contexts (mk_core qs no nl symbols) = (\<lambda>sy. if sy \<in> set symbols then Some (mk_context qs no nl sy) else None) \<and>
    mc_response_queues (mk_core qs no nl symbols) = map Of_Symbol symbols @ [Of_Unknown] \<and>
    mc_update_queues (mk_core qs no nl symbols) = map Of_Symbol symbols"
  using assms by (auto simp: mk_core_def Let_def add_symbols add_symbols_queues)

text \<open>
  A symbol given twice leaves dangling pointers behind: the queues of the second context are
  recorded for the gateway and the feed, but the context itself is destroyed.
\<close>

lemma duplicate_symbol_leaves_dangling_queue:
  assumes "sy \<in> set symbols"
  shows "Dangling \<in> set (mc_response_queues (mk_core qs no nl (symbols @ [sy]))) \<and>
    Dangling \<in> set (mc_update_queues (mk_core qs no nl (symbols @ [sy])))"
proof -
  let ?mc = "foldl (add_symbol qs no nl) \<lparr>mc_contexts = Map.empty, mc_response_queues = [], mc_update_queues = [],
    mc_unknown_symbol_responses = new_LFQueue qs EngineOrderResponse_default\<rparr> symbols"
  have "mc_contexts ?mc sy \<noteq> None" using assms by (simp add: add_symbols)
  then show ?thesis by (auto simp: mk_core_def Let_def add_symbol_def)
qed

end
