(* ===== verification/BookProperties.thy ===== *)
theory BookProperties
  imports MatchingCore
begin

text \<open>
  What a book of the engine guarantees, stated over the operations of OrderBook and MatchingCore:
  invariants and memory safety of every reachable book, price-time priority and conservation of
  quantity in matching, and the behaviour of each order type, of cancel and of modify. The proofs
  combine the refinement (BookOps) with the laws of the specification (BookMatching,
  BookInvariant).
\<close>

section \<open>A sample book\<close>

definition sample_request :: "OrderType \<Rightarrow> ClientId \<Rightarrow> OrderId \<Rightarrow> Side \<Rightarrow> Price \<Rightarrow> Qty \<Rightarrow> EngineOrderRequest" where
  "sample_request ot cid oid sd pr q =
     \<lparr>req_order_type = ot, req_client_id = cid, req_symbol = ''ACME'', req_order_id = oid, req_side = sd,
      req_price = pr, req_qty = q, req_recv_time = 0\<rparr>"

definition sample_orders :: "(Nanos \<times> EngineOrderRequest) list" where
  "sample_orders =
     [(1, sample_request LIMIT 1 11 BUY 100 10), (2, sample_request LIMIT 2 12 BUY 100 5),
      (3, sample_request LIMIT 1 13 BUY 99 7), (4, sample_request LIMIT 3 14 SELL 105 8)]"

definition sample_book :: abook where
  "sample_book = \<lparr>ab_symbol = ''ACME'',
     ab_bids = [mk_info 11 1 ''ACME'' LIMIT BUY 100 10 10 1, mk_info 12 2 ''ACME'' LIMIT BUY 100 5 5 2,
       mk_info 13 1 ''ACME'' LIMIT BUY 99 7 7 3],
     ab_asks = [mk_info 14 3 ''ACME'' LIMIT SELL 105 8 8 4]\<rparr>"

lemma run_all_reachable:
  "reachable b \<Longrightarrow> run_all (\<lambda>(now, req). dispatch now req) xs b = Inr b' \<Longrightarrow> reachable b'"
  by (induction xs arbitrary: b) (auto simp: rbind_eq_Inr intro: reachable.request)

lemma sample_run: "fst (spec_all (\<lambda>(now, req). spec_request now req) sample_orders (empty_abook ''ACME'')) = sample_book"
  by code_simp

lemma sample_counts: "order_count sample_book = 4" "level_count sample_book = 3"
  by code_simp+

lemma sample_exists: "\<exists>b. represents b sample_book \<and> reachable b \<and> pool_room 8 b sample_book"
proof -
  let ?b = "mk_book 16 16 ''ACME'' (new_LFQueue 8 EngineOrderResponse_default) (new_LFQueue 8 BookUpdate_default)"
  have "length sample_orders = 4" by (simp add: sample_orders_def)
  then have room: "pool_room (length sample_orders) ?b (empty_abook ''ACME'')"
    by (simp add: pool_room_def mk_book_def order_count_def level_count_def all_orders_def side_orders_def empty_abook_def)
  obtain rs us where s: "spec_all (\<lambda>(now, req). spec_request now req) sample_orders (empty_abook ''ACME'') = (sample_book, rs, us)"
    using sample_run by (metis prod.collapse)
  have init: "represents ?b (empty_abook ''ACME'')" "reachable ?b"
    by (rule mk_book_represents reachable.init; simp)+
  obtain b where b: "run_all (\<lambda>(now, req). dispatch now req) sample_orders ?b = Inr b" "represents b sample_book" "effect ?b rs us b"
    using engine.run_ok [OF init(1) room s] by blast
  then show ?thesis
    using run_all_reachable [OF init(2) b(1)] by (auto simp: pool_room_def effect_def sample_counts mk_book_def)
qed

lemma sample_sound: "sound sample_book"
proof -
  have "sound (fst (spec_all (\<lambda>(now, req). spec_request now req) xs a))" if "sound a" for xs a
    using that
  proof (induction xs arbitrary: a)
    case (Cons x xs)
    then show ?case using spec_request_sound [OF Cons.prems] by (auto split: prod.splits) (metis fst_conv)+
  qed simp
  then show ?thesis using sample_run empty_book_ok by metis
qed

lemma room_fits: "pool_room (Suc n) b a \<Longrightarrow> fits b a"
  by (simp add: pool_room_def fits_def)

section \<open>Every reachable book\<close>

text \<open>
  C1 Whatever sequence of requests a symbol's thread has processed, and whatever the readers of
  its queues did meanwhile, the pools, links, maps and index of its book describe one abstract
  book in which each side is sorted by price, every resting order is a limit order of the symbol
  on its own side with a positive price and a positive quantity of at most its original
  quantity, order ids are unique, and a bid and an ask cross only when they belong to the same
  client.
\<close>

theorem reachable_book_sound:
  assumes "reachable b"
  shows "\<exists>a. represents b a \<and> book_ok a \<and> uncrossed a"
  using reachable_sound [OF assms] by blast

theorem reachable_book_sound_witness:
  "\<exists>b. reachable b \<and> (\<exists>a. represents b a \<and> book_ok a \<and> uncrossed a)"
  using sample_exists reachable_book_sound by blast

text \<open>
  C5 Processing a request in a reachable book can end the process in one way only: a memory pool
  is down to its last free block. It never reads or writes through a null or dangling pointer,
  never frees a block twice or one of another pool, and its loops end within the bounds of
  the model.
\<close>

theorem request_only_fails_on_full_pool:
  assumes "reachable (ctx_book ctx)" and "processRequest now ctx req = Inl e"
  shows "e = PoolOutOfSpace \<and> (\<exists>a. represents (ctx_book ctx) a \<and> \<not> fits (ctx_book ctx) a)"
proof -
  obtain a where a: "represents (ctx_book ctx) a" using reachable_sound [OF assms(1)] by blast
  obtain a' rs us where s: "spec_request now req a = (a', rs, us)" using prod_cases3 by blast
  have "dispatch now req (ctx_book ctx) = Inl e"
    using assms(2) by (auto simp: processRequest_def rbind_eq_Inl)
  then show ?thesis using dispatch_ok [OF a, of now req] s a by auto
qed

theorem request_only_fails_on_full_pool_witness:
  "\<exists>a. represents (ctx_book (mk_context 2 1 1 ''ACME'')) a \<and> \<not> fits (ctx_book (mk_context 2 1 1 ''ACME'')) a"
proof -
  have "processRequest 1 (mk_context 2 1 1 ''ACME'') (sample_request LIMIT 1 11 BUY 100 10) = Inl PoolOutOfSpace"
    by code_simp
  moreover have "reachable (ctx_book (mk_context 2 1 1 ''ACME''))"
    unfolding mk_context_def by (simp add: reachable.init)
  ultimately show ?thesis
    using request_only_fails_on_full_pool [of "mk_context 2 1 1 ''ACME''"] by blast
qed

section \<open>One request\<close>

text \<open>
  C3 Processing a request refines its specification: from a context whose book represents \<open>a\<close>,
  the engine either reaches a context whose book represents the specified result and whose two
  outgoing queues have received exactly the specified responses and market updates, in order,
  leaving the request queue alone, or it stops on a pool that was down to its last free block.
\<close>

theorem process_request_refines:
  assumes "represents (ctx_book ctx) a" and "spec_request now req a = (a', rs, us)"
  shows "(\<exists>ctx'. processRequest now ctx req = Inr ctx' \<and> represents (ctx_book ctx') a' \<and>
      bk_response_queue (ctx_book ctx') = push_all rs (bk_response_queue (ctx_book ctx)) \<and>
      bk_update_queue (ctx_book ctx') = push_all us (bk_update_queue (ctx_book ctx)) \<and>
      ctx_request_queue ctx' = ctx_request_queue ctx) \<or>
    (processRequest now ctx req = Inl PoolOutOfSpace \<and> \<not> fits (ctx_book ctx) a)"
proof (cases "dispatch now req (ctx_book ctx)")
  case (Inl e)
  then show ?thesis using dispatch_ok [OF assms(1), of now req] assms(2) by (simp add: processRequest_def)
next
  case (Inr b)
  then show ?thesis
    using dispatch_ok [OF assms(1), of now req] assms(2) by (simp add: processRequest_def effect_def)
qed

theorem process_request_refines_witness:
  "\<exists>ctx ctx'. represents (ctx_book ctx) sample_book \<and>
     processRequest 5 ctx (sample_request CANCEL 2 12 BUY 0 0) = Inr ctx' \<and>
     bk_update_queue (ctx_book ctx') =
       push (mk_update MU_CANCEL 12 ''ACME'' BUY 100 5) (bk_update_queue (ctx_book ctx))"
proof -
  obtain b where b: "represents b sample_book" "fits b sample_book" using sample_exists room_fits by (metis numeral_eq_Suc)
  let ?ctx = "\<lparr>ctx_request_queue = new_LFQueue 1 EngineOrderRequest_default, ctx_book = b\<rparr>"
  have us: "snd (snd (spec_request 5 (sample_request CANCEL 2 12 BUY 0 0) sample_book)) = [mk_update MU_CANCEL 12 ''ACME'' BUY 100 5]"
    by code_simp
  obtain a' rs us where s: "spec_request 5 (sample_request CANCEL 2 12 BUY 0 0) sample_book = (a', rs, us)"
    using prod_cases3 by blast
  have "\<exists>ctx'. processRequest 5 ?ctx (sample_request CANCEL 2 12 BUY 0 0) = Inr ctx' \<and>
     bk_update_queue (ctx_book ctx') = push_all us (bk_update_queue b)"
    using process_request_refines [of ?ctx sample_book, OF _ s] b by auto
  moreover have "us = [mk_update MU_CANCEL 12 ''ACME'' BUY 100 5]" using us s by simp
  moreover have "represents (ctx_book ?ctx) sample_book" "ctx_book ?ctx = b" using b(1) by simp_all
  ultimately show ?thesis by (metis push_all_simps(1,2))
qed

abbreviation refusal :: "ResponseStatus \<Rightarrow> bool" where
  "refusal st \<equiv> st = REJECTED \<or> st = CANCEL_REJECTED \<or> st = MODIFY_REJECTED"

lemma spec_request_answers:
  assumes "spec_request now req a = (a', rs, us)"
  shows "rs \<noteq> [] \<and> rsp_client_id (hd rs) = req_client_id req \<and> rsp_client_order_id (hd rs) = req_order_id req \<and>
    (refusal (rsp_status (hd rs)) \<longrightarrow> length rs = 1 \<and> us = [] \<and> a' = a)"
proof -
  have own: "own_order cid oid a = Some r \<Longrightarrow> bo_order_id r = oid \<and> bo_client_id r = cid" for cid oid r
    using own_orderD by blast
  show ?thesis
    using assms own
    by (cases "req_order_type req")
      (auto simp: spec_request_def reject_of_def spec_limit_def spec_immediate_def spec_cancel_def spec_modify_def
        reject_response_def Let_def split: if_splits prod.splits option.splits)
qed

text \<open>
  C15 Every request is answered: the engine sends at least one response to it, the first of them
  goes to the client of the request and names its order id. A request that is refused changes
  nothing: the refusal is the only response, no market update is published and the book is the
  one from before.
\<close>

theorem every_request_answered:
  assumes "reachable (ctx_book ctx)" and "processRequest now ctx req = Inr ctx'"
  shows "\<exists>a a' rs us. represents (ctx_book ctx) a \<and> represents (ctx_book ctx') a' \<and>
    bk_response_queue (ctx_book ctx') = push_all rs (bk_response_queue (ctx_book ctx)) \<and>
    bk_update_queue (ctx_book ctx') = push_all us (bk_update_queue (ctx_book ctx)) \<and>
    rs \<noteq> [] \<and> rsp_client_id (hd rs) = req_client_id req \<and> rsp_client_order_id (hd rs) = req_order_id req \<and>
    (refusal (rsp_status (hd rs)) \<longrightarrow> length rs = 1 \<and> us = [] \<and> a' = a)"
proof -
  obtain a where a: "represents (ctx_book ctx) a" using reachable_sound [OF assms(1)] by blast
  obtain a' rs us where s: "spec_request now req a = (a', rs, us)" using prod_cases3 by blast
  obtain b where b: "dispatch now req (ctx_book ctx) = Inr b" "ctx' = ctx\<lparr>ctx_book := b\<rparr>"
    using assms(2) by (auto simp: processRequest_def rbind_eq_Inr)
  have "represents b a'" "effect (ctx_book ctx) rs us b"
    using dispatch_ok [OF a, of now req] s b(1) by simp_all
  then show ?thesis
    using a spec_request_answers [OF s] b(2) by (intro exI [of _ a] exI [of _ a'] exI [of _ rs] exI [of _ us]) (simp add: effect_def)
qed

theorem every_request_answered_witness:
  "\<exists>ctx ctx' rs. processRequest 5 ctx (sample_request CANCEL 2 12 BUY 0 0) = Inr ctx' \<and>
     bk_response_queue (ctx_book ctx') = push_all rs (bk_response_queue (ctx_book ctx)) \<and>
     rs \<noteq> [] \<and> rsp_client_id (hd rs) = 2 \<and> rsp_client_order_id (hd rs) = 12"
proof -
  obtain b where b: "represents b sample_book" "reachable b" "pool_room 8 b sample_book" using sample_exists by blast
  let ?ctx = "\<lparr>ctx_request_queue = new_LFQueue 1 EngineOrderRequest_default, ctx_book = b\<rparr>"
  let ?req = "sample_request CANCEL 2 12 BUY 0 0"
  have "fits b sample_book" using b(3) room_fits by (metis numeral_eq_Suc)
  then obtain b' where "dispatch 5 ?req b = Inr b'"
    using dispatch_ok [OF b(1), of 5 ?req] by (cases "dispatch 5 ?req b") (auto simp: refines_def)
  then have run: "processRequest 5 ?ctx ?req = Inr (?ctx\<lparr>ctx_book := b'\<rparr>)" by (simp add: processRequest_def)
  show ?thesis
    using every_request_answered [OF _ run] b(2) run by (fastforce simp: sample_request_def)
qed

section \<open>Matching\<close>

lemma beyond_limit_fun:
  "beyond_limit sd has_limit limit_price = (\<lambda>p. has_limit \<and> (if sd = BUY then limit_price < p else p < limit_price))"
  by (simp add: beyond_limit_def fun_eq_iff)

text \<open>
  C4 Price-time priority: the trades that matching publishes are exactly the greedy allocation of
  the incoming quantity over the opposite side in its order (best price first, then arrival),
  restricted to orders of other clients whose price is within the limit; each trade is at the
  price of the resting order.
\<close>

theorem price_time_priority:
  assumes "represents b a"
  shows "\<exists>leaves b' us. matchIncoming cid oid sd limit_price has_limit qty b = Inr (leaves, b') \<and>
    bk_update_queue b' = push_all us (bk_update_queue b) \<and>
    trades us = map (trade_of (bk_symbol b))
      (greedy qty (eligible cid (\<lambda>p. has_limit \<and> (if sd = BUY then limit_price < p else p < limit_price))
        (side_orders (sd \<noteq> BUY) a)))"
proof -
  note limit = beyond_limit_fun [of sd has_limit limit_price]
  obtain leaves a' rs us where m: "match_book cid oid sd limit_price has_limit qty a = (leaves, a', rs, us)"
    using prod_cases4 by blast
  obtain b' where b': "matchIncoming cid oid sd limit_price has_limit qty b = Inr (leaves, b')" "effect b rs us b'"
    using matchIncoming_ok [OF assms m] by blast
  show ?thesis
  proof (rule match_book_cases [OF m])
    fix os
    assume "match_orders (ab_symbol a) cid oid sd (beyond_limit sd has_limit limit_price) qty (side_orders (sd \<noteq> BUY) a) =
      (os, leaves, rs, us)"
    then show ?thesis
      using match_orders_greedy b' represents_symbol [OF assms] unfolding limit by (fastforce simp: effect_def)
  qed
qed

theorem price_time_priority_witness:
  "\<exists>b b' us leaves. represents b sample_book \<and> matchIncoming 9 99 SELL 99 True 12 b = Inr (leaves, b') \<and>
     bk_update_queue b' = push_all us (bk_update_queue b) \<and>
     trades us = [mk_update MU_TRADE 11 ''ACME'' BUY 100 10, mk_update MU_TRADE 12 ''ACME'' BUY 100 2]"
proof -
  obtain b where b: "represents b sample_book" using sample_exists by blast
  have "bk_symbol b = ''ACME''" using represents_symbol [OF b] by (simp add: sample_book_def)
  moreover have "map (trade_of ''ACME'') (greedy 12 (eligible 9 (\<lambda>p. True \<and> (if SELL = BUY then 99 < p else p < 99)) (side_orders True sample_book))) =
      [mk_update MU_TRADE 11 ''ACME'' BUY 100 10, mk_update MU_TRADE 12 ''ACME'' BUY 100 2]"
    by code_simp
  moreover obtain leaves b' us where "matchIncoming 9 99 SELL 99 True 12 b = Inr (leaves, b')"
    "bk_update_queue b' = push_all us (bk_update_queue b)"
    "trades us = map (trade_of (bk_symbol b)) (greedy 12 (eligible 9 (\<lambda>p. True \<and> (if SELL = BUY then 99 < p else p < 99)) (side_orders (SELL \<noteq> BUY) sample_book)))"
    using price_time_priority [OF b, of 9 99 SELL 99 True 12] by blast
  ultimately show ?thesis using b by auto
qed

text \<open>
  C6 Conservation of quantity: what matching takes from the incoming order it takes from the
  resting orders of the opposite side, unit for unit, and both equal the total of the published
  trades; the order's own side is not touched. Subtractions never wrap around.
\<close>

theorem matching_conserves_quantity:
  assumes "represents b a"
  shows "\<exists>leaves b' a' us. matchIncoming cid oid sd limit_price has_limit qty b = Inr (leaves, b') \<and>
    represents b' a' \<and> bk_update_queue b' = push_all us (bk_update_queue b) \<and>
    unat qty = unat leaves + traded_qty us \<and>
    open_qty (side_orders (sd \<noteq> BUY) a) = open_qty (side_orders (sd \<noteq> BUY) a') + traded_qty us \<and>
    side_orders (sd = BUY) a' = side_orders (sd = BUY) a"
proof -
  obtain leaves a' rs us where m: "match_book cid oid sd limit_price has_limit qty a = (leaves, a', rs, us)"
    using prod_cases4 by blast
  obtain b' where b': "matchIncoming cid oid sd limit_price has_limit qty b = Inr (leaves, b')" "represents b' a'" "effect b rs us b'"
    using matchIncoming_ok [OF assms m] by blast
  show ?thesis
  proof (rule match_book_cases [OF m])
    fix os
    assume mo: "match_orders (ab_symbol a) cid oid sd (beyond_limit sd has_limit limit_price) qty (side_orders (sd \<noteq> BUY) a) =
      (os, leaves, rs, us)" and a': "a' = set_side (sd \<noteq> BUY) os a"
    show ?thesis
      using match_orders_conserves [OF mo] a' b'
      by (intro exI [of _ leaves] exI [of _ b'] exI [of _ a'] exI [of _ us]) (simp add: effect_def)
  qed
qed

theorem matching_conserves_quantity_witness:
  "\<exists>b b' us leaves. represents b sample_book \<and> matchIncoming 9 99 SELL 99 True 30 b = Inr (leaves, b') \<and>
     (30 :: nat) = unat leaves + traded_qty us \<and> traded_qty us \<le> 22"
proof -
  obtain b where b: "represents b sample_book" using sample_exists by blast
  obtain leaves b' a' us where m: "matchIncoming 9 99 SELL 99 True 30 b = Inr (leaves, b')"
    "unat (30 :: Qty) = unat leaves + traded_qty us"
    "open_qty (side_orders (SELL \<noteq> BUY) sample_book) = open_qty (side_orders (SELL \<noteq> BUY) a') + traded_qty us"
    using matching_conserves_quantity [OF b, of 9 99 SELL 99 True 30] by blast
  have "open_qty (side_orders (SELL \<noteq> BUY) sample_book) = 22" by code_simp
  then have "traded_qty us \<le> 22" using m(3) by linarith
  then show ?thesis using b m(1,2) by auto
qed

lemma greedy_orders: "(r, q) \<in> set (greedy n os) \<Longrightarrow> r \<in> set os"
  by (induction os arbitrary: n) (auto split: if_splits)

lemma greedy_positive:
  "(r, q) \<in> set (greedy n os) \<Longrightarrow> (\<And>s. s \<in> set os \<Longrightarrow> bo_qty s \<noteq> 0) \<Longrightarrow> q \<noteq> 0"
  by (induction os arbitrary: n) (auto split: if_splits simp: min_def)

text \<open>
  C16 No self trade, no trade through the limit: every trade that matching publishes is with an
  order of another client that rested on the opposite side, at that order's price, and the price
  is within the limit of the incoming order.
\<close>

theorem trades_are_with_others_within_limit:
  assumes "represents b a" and "sound a"
  shows "\<exists>leaves b' us. matchIncoming cid oid sd limit_price has_limit qty b = Inr (leaves, b') \<and>
    bk_update_queue b' = push_all us (bk_update_queue b) \<and>
    (\<forall>u\<in>set us. upd_type u = MU_TRADE \<longrightarrow> upd_qty u \<noteq> 0 \<and>
      (\<exists>r\<in>set (side_orders (sd \<noteq> BUY) a). upd_order_id u = bo_order_id r \<and> upd_price u = bo_price r \<and>
         bo_client_id r \<noteq> cid \<and> (has_limit \<longrightarrow> (if sd = BUY then bo_price r \<le> limit_price else limit_price \<le> bo_price r))))"
proof -
  let ?el = "eligible cid (beyond_limit sd has_limit limit_price) (side_orders (sd \<noteq> BUY) a)"
  obtain leaves a' rs us where m: "match_book cid oid sd limit_price has_limit qty a = (leaves, a', rs, us)"
    using prod_cases4 by blast
  obtain b' where b': "matchIncoming cid oid sd limit_price has_limit qty b = Inr (leaves, b')" "effect b rs us b'"
    using matchIncoming_ok [OF assms(1) m] by blast
  have tr: "trades us = map (trade_of (ab_symbol a)) (greedy qty ?el)"
    by (rule match_book_cases [OF m]) (rule match_orders_greedy)
  have el: "r \<in> set (side_orders (sd \<noteq> BUY) a) \<and> bo_client_id r \<noteq> cid \<and> bo_qty r \<noteq> 0 \<and>
      (has_limit \<longrightarrow> (if sd = BUY then bo_price r \<le> limit_price else limit_price \<le> bo_price r))" if "r \<in> set ?el" for r
    using that book_okD(2) [of a r "sd \<noteq> BUY"] assms(2)
    by (auto simp: eligible_def order_ok_def beyond_limit_def not_less split: if_splits dest: set_takeWhileD)
  have "upd_qty u \<noteq> 0 \<and> (\<exists>r\<in>set (side_orders (sd \<noteq> BUY) a). upd_order_id u = bo_order_id r \<and> upd_price u = bo_price r \<and>
         bo_client_id r \<noteq> cid \<and> (has_limit \<longrightarrow> (if sd = BUY then bo_price r \<le> limit_price else limit_price \<le> bo_price r)))"
    if "u \<in> set us" "upd_type u = MU_TRADE" for u
  proof -
    have "u \<in> set (trades us)" using that by (simp add: trades_def)
    then obtain r q where r: "(r, q) \<in> set (greedy qty ?el)" "u = trade_of (ab_symbol a) (r, q)" using tr by auto
    then show ?thesis
      using el [OF greedy_orders [OF r(1)]] greedy_positive [OF r(1)] el by (intro conjI bexI [of _ r]) (auto simp: trade_of_def)
  qed
  then show ?thesis using b' by (intro exI [of _ leaves] exI [of _ b'] exI [of _ us]) (simp add: effect_def)
qed

theorem trades_are_with_others_within_limit_witness:
  "\<exists>b. represents b sample_book \<and> (\<exists>leaves b' us. matchIncoming 1 99 SELL 100 True 12 b = Inr (leaves, b') \<and>
    bk_update_queue b' = push_all us (bk_update_queue b) \<and>
    (\<forall>u\<in>set us. upd_type u = MU_TRADE \<longrightarrow> upd_qty u \<noteq> 0 \<and>
      (\<exists>r\<in>set (side_orders (SELL \<noteq> BUY) sample_book). upd_order_id u = bo_order_id r \<and> upd_price u = bo_price r \<and>
         bo_client_id r \<noteq> 1 \<and> (True \<longrightarrow> (if SELL = BUY then bo_price r \<le> 100 else 100 \<le> bo_price r)))))"
  using sample_exists sample_sound trades_are_with_others_within_limit [of _ sample_book 1 99 SELL 100 True 12] by blast

end
