(* ===== verification/OrderProperties.thy ===== *)
theory OrderProperties
  imports BookProperties
begin

text \<open>
  The promises of the order types and of cancel and modify, each stated over the operation of the
  pointer-level book that implements it.
\<close>

section \<open>Limit orders\<close>

lemma insert_order_cases:
  assumes "priority_sorted bid os"
  obtains os1 os2 where "insert_order bid x os = os1 @ x # os2" "os = os1 @ os2"
    "\<forall>r\<in>set os1. \<not> price_before bid (bo_price x) (bo_price r)" "\<forall>r\<in>set os2. price_before bid (bo_price x) (bo_price r)"
proof
  let ?P = "\<lambda>r. \<not> price_before bid (bo_price x) (bo_price r)"
  show "insert_order bid x os = takeWhile ?P os @ x # dropWhile ?P os" by (simp add: insert_order_def)
  show "os = takeWhile ?P os @ dropWhile ?P os" by simp
  show "\<forall>r\<in>set (takeWhile ?P os). \<not> price_before bid (bo_price x) (bo_price r)" by (auto dest: set_takeWhileD)
  show "\<forall>r\<in>set (dropWhile ?P os). price_before bid (bo_price x) (bo_price r)"
  proof (cases "dropWhile ?P os")
    case Nil
    show ?thesis unfolding Nil by simp
  next
    case (Cons y ys)
    then have y: "price_before bid (bo_price x) (bo_price y)" using hd_dropWhile [of ?P os] by simp
    have "sorted_wrt (\<lambda>r s. \<not> price_before bid (bo_price s) (bo_price r)) (takeWhile ?P os @ y # ys)"
      using assms Cons by (simp add: priority_sorted_def) (metis takeWhile_dropWhile_id)
    then have "\<not> price_before bid (bo_price r) (bo_price y)" if "r \<in> set ys" for r
      using that by (simp add: sorted_wrt_append)
    then have "price_before bid (bo_price x) (bo_price r)" if "r \<in> set ys" for r
      using y that by (cases bid) (force simp: price_before_def)+
    then show ?thesis using y Cons by simp
  qed
qed

lemma match_book_own_side:
  "match_book cid oid sd lp hl qty a = (l', a', rs, us) \<Longrightarrow> side_orders (sd = BUY) a' = side_orders (sd = BUY) a"
  by (erule match_book_cases) simp

text \<open>
  C21 The remainder of a limit order rests behind every order of its side whose price is at least
  as good, older orders at the same price included, and ahead of every order with a worse price;
  it keeps the quantity that matching left, and the other orders of its side stay as they were.
\<close>

theorem limit_remainder_rests_by_priority:
  assumes "represents b a" and "sound a" and "fits b a" and "lookup_order oid a = None"
    and "match_book cid oid sd price True qty a = (leaves, a1, rs, us)" and "leaves \<noteq> 0"
  shows "\<exists>b' a' os1 os2. addLimitOrder now cid oid sd price qty b = Inr b' \<and> represents b' a' \<and>
    side_orders (sd = BUY) a = os1 @ os2 \<and>
    side_orders (sd = BUY) a' = os1 @ mk_info oid cid (bk_symbol b) LIMIT sd price qty leaves now # os2 \<and>
    (\<forall>r\<in>set os1. \<not> price_before (sd = BUY) price (bo_price r)) \<and>
    (\<forall>r\<in>set os2. price_before (sd = BUY) price (bo_price r))"
proof -
  let ?x = "mk_info oid cid (ab_symbol a) LIMIT sd price qty leaves now"
  have sp: "\<exists>rs us. spec_limit now cid oid sd price qty a = (rest ?x a1, rs, us)"
    using assms(4-6) by (simp add: spec_limit_def match_and_rest_def word_gt_0)
  then obtain b' where b': "addLimitOrder now cid oid sd price qty b = Inr b'" "represents b' (rest ?x a1)"
    using addLimitOrder_ok [OF assms(1), of now cid oid sd price qty] assms(3)
    by (cases "addLimitOrder now cid oid sd price qty b") auto
  have side: "side_orders (sd = BUY) (rest ?x a1) = insert_order (sd = BUY) ?x (side_orders (sd = BUY) a)"
    using match_book_own_side [OF assms(5)] by (simp add: rest_def Let_def mk_info_def)
  have "priority_sorted (sd = BUY) (side_orders (sd = BUY) a)" using assms(2) book_okD(1) by blast
  then obtain os1 os2 where
    "insert_order (sd = BUY) ?x (side_orders (sd = BUY) a) = os1 @ ?x # os2" "side_orders (sd = BUY) a = os1 @ os2"
    "\<forall>r\<in>set os1. \<not> price_before (sd = BUY) (bo_price ?x) (bo_price r)"
    "\<forall>r\<in>set os2. price_before (sd = BUY) (bo_price ?x) (bo_price r)"
    by (rule insert_order_cases)
  moreover have "bo_price ?x = price" by (simp add: mk_info_def)
  ultimately show ?thesis
    using b' side represents_symbol [OF assms(1)]
    by (intro exI [of _ b'] exI [of _ "rest ?x a1"] exI [of _ os1] exI [of _ os2]) simp
qed

theorem limit_remainder_rests_by_priority_witness:
  "\<exists>b b' a' os1 os2. represents b sample_book \<and> addLimitOrder 5 9 99 BUY 100 4 b = Inr b' \<and> represents b' a' \<and>
     side_orders True a' = os1 @ mk_info 99 9 ''ACME'' LIMIT BUY 100 4 4 5 # os2 \<and>
     (\<forall>r\<in>set os1. \<not> price_before True 100 (bo_price r))"
proof -
  obtain b where b: "represents b sample_book" "pool_room 8 b sample_book" using sample_exists by blast
  have f: "fits b sample_book" using b(2) room_fits by (metis numeral_eq_Suc)
  have l: "lookup_order 99 sample_book = None" by code_simp
  have m: "match_book 9 99 BUY 100 True 4 sample_book = (4, sample_book, [], [])" by code_simp
  have sy: "bk_symbol b = ''ACME''" using represents_symbol [OF b(1)] by (simp add: sample_book_def)
  show ?thesis
    using limit_remainder_rests_by_priority [OF b(1) sample_sound f l m, of 5] b(1) sy by simp blast
qed

text \<open>
  An order id that already rests in the book is refused for every order type: the response is
  REJECTED, nothing else happens.
\<close>

lemma duplicate_order_id_rejected:
  assumes "represents b a" and "lookup_order oid a \<noteq> None"
  shows "addLimitOrder now cid oid sd price qty b =
      Inr (sendResponse (mk_response REJECTED cid (bk_symbol b) oid Invalid_OrderId sd price 0 qty) b) \<and>
    addIOCOrder cid oid sd price qty b =
      Inr (sendResponse (mk_response REJECTED cid (bk_symbol b) oid Invalid_OrderId sd price 0 qty) b) \<and>
    addMarketOrder cid oid sd qty b =
      Inr (sendResponse (mk_response REJECTED cid (bk_symbol b) oid Invalid_OrderId sd Invalid_Price 0 qty) b)"
  using assms represents_lookup_None [OF assms(1), of oid]
  by (simp_all add: addLimitOrder_def addIOCOrder_def addMarketOrder_def)

section \<open>Immediate orders\<close>

lemma spec_immediate_side:
  assumes "spec_immediate cid oid sd price hl qty a = (a', rs, us)"
  shows "side_orders (sd = BUY) a' = side_orders (sd = BUY) a" "lookup_order oid a = None \<Longrightarrow> lookup_order oid a' = None"
  using assms match_book_own_side match_book_lookup_None
  by (auto simp: spec_immediate_def split: if_splits prod.splits)

text \<open>
  Market and IOC orders never rest: they always succeed, whatever the state of the pools, the
  order's own side is unchanged and its id does not enter the book.
\<close>

lemma immediate_orders_never_rest:
  assumes "represents b a"
  shows "(\<exists>b' a'. addMarketOrder cid oid sd qty b = Inr b' \<and> represents b' a' \<and>
      side_orders (sd = BUY) a' = side_orders (sd = BUY) a \<and> (lookup_order oid a = None \<longrightarrow> lookup_order oid a' = None)) \<and>
    (\<exists>b' a'. addIOCOrder cid oid sd price qty b = Inr b' \<and> represents b' a' \<and>
      side_orders (sd = BUY) a' = side_orders (sd = BUY) a \<and> (lookup_order oid a = None \<longrightarrow> lookup_order oid a' = None))"
proof -
  have "\<exists>b' a'. add_immediate cid oid sd p hl qty b = Inr b' \<and> represents b' a' \<and>
      side_orders (sd = BUY) a' = side_orders (sd = BUY) a \<and> (lookup_order oid a = None \<longrightarrow> lookup_order oid a' = None)"
    for p hl
  proof -
    obtain a' rs us where s: "spec_immediate cid oid sd p hl qty a = (a', rs, us)" using prod_cases3 by blast
    then obtain b' where "add_immediate cid oid sd p hl qty b = Inr b'" "represents b' a'"
      using add_immediate_ok [OF assms, of cid oid sd p hl qty] by auto
    then show ?thesis using spec_immediate_side [OF s] by (intro exI [of _ b'] exI [of _ a']) simp
  qed
  then show ?thesis by (simp add: market_ioc_immediate)
qed

lemma match_orders_fills:
  assumes "match_orders sy cid oid sd beyond leaves os = (os', l', rs, us)" and "x \<in> set rs"
  shows "rsp_status x = FILLED"
  using assms
proof (induction os arbitrary: leaves os' rs us)
  case (Cons r os)
  from Cons.prems(1) show ?case
  proof (cases rule: match_orders_Cons_cases)
    case (fill fill os1 rs1 us1)
    then have "x \<in> set (fill_responses sy cid oid sd r fill (leaves - fill)) \<or> x \<in> set rs1" using Cons.prems(2) by auto
    then show ?thesis using Cons.IH [OF fill(5)] by (auto simp: fill_responses_def)
  qed (use Cons in auto)
qed simp

text \<open>
  What an IOC order reports: ACCEPTED first, then only fills, and, exactly when some quantity
  is left, a final CANCELED with the executed quantity and the remainder; the quantities of the
  trades and the remainder add up to the quantity of the order.
\<close>

lemma ioc_order_reports:
  assumes "represents b a" and "lookup_order oid a = None"
  shows "\<exists>b' leaves fills us. addIOCOrder cid oid sd price qty b = Inr b' \<and>
    bk_response_queue b' = push_all
      (mk_response ACCEPTED cid (bk_symbol b) oid oid sd price 0 qty # fills @
       (if leaves = 0 then [] else [mk_response CANCELED cid (bk_symbol b) oid oid sd price (qty - leaves) leaves]))
      (bk_response_queue b) \<and> (\<forall>x\<in>set fills. rsp_status x = FILLED) \<and>
    bk_update_queue b' = push_all us (bk_update_queue b) \<and> unat qty = traded_qty us + unat leaves"
proof -
  obtain leaves a' rs us where m: "match_book cid oid sd price True qty a = (leaves, a', rs, us)"
    using prod_cases4 by blast
  have facts: "(\<forall>x\<in>set rs. rsp_status x = FILLED) \<and> unat qty = traded_qty us + unat leaves"
    using match_orders_fills match_orders_conserves by (rule_tac match_book_cases [OF m]) fastforce
  obtain b' where b': "addIOCOrder cid oid sd price qty b = Inr b'"
    "refines b a (spec_immediate cid oid sd price True qty a) (Inr b')"
    using add_immediate_ok [OF assms(1)] by (metis market_ioc_immediate(2))
  show ?thesis
    using b' facts m assms(2) represents_symbol [OF assms(1)]
    by (intro exI [of _ b'] exI [of _ leaves] exI [of _ rs] exI [of _ us]) (auto simp: spec_immediate_def effect_def word_gt_0)
qed

section \<open>Cancel\<close>

text \<open>
  Cancelling an own order removes that order and no other, always succeeds, and reports
  CANCELED to the client and one CANCEL update with the removed quantity.
\<close>

lemma cancel_own_order:
  assumes "represents b a" and "own_order cid oid a = Some r"
  shows "\<exists>b' a'. cancelOrder cid oid b = Inr b' \<and> represents b' a' \<and>
    side_orders (bo_side r = BUY) a' = filter (\<lambda>x. bo_order_id x \<noteq> oid) (side_orders (bo_side r = BUY) a) \<and>
    side_orders (bo_side r \<noteq> BUY) a' = side_orders (bo_side r \<noteq> BUY) a \<and>
    bk_response_queue b' =
      push (mk_response CANCELED cid (bk_symbol b) oid oid (bo_side r) (bo_price r) 0 0) (bk_response_queue b) \<and>
    bk_update_queue b' =
      push (mk_update MU_CANCEL oid (bk_symbol b) (bo_side r) (bo_price r) (bo_qty r)) (bk_update_queue b)"
proof -
  obtain b' where "cancelOrder cid oid b = Inr b'" "refines b a (spec_cancel cid oid a) (Inr b')"
    using cancelOrder_ok [OF assms(1)] by blast
  then show ?thesis
    using assms(2) represents_symbol [OF assms(1)] own_orderD(2) [OF assms(2)]
    by (intro exI [of _ b'] exI [of _ "unrest r a"])
      (simp add: spec_cancel_def unrest_def delete_order_def Let_def effect_def)
qed

text \<open>
  C22 Cancelling an order that does not rest, or that belongs to another client, changes nothing:
  the client gets CANCEL_REJECTED and no update is published.
\<close>

theorem cancel_foreign_order_rejected:
  assumes "represents b a" and "own_order cid oid a = None"
  shows "\<exists>b'. cancelOrder cid oid b = Inr b' \<and> represents b' a \<and>
    bk_response_queue b' = push (mk_response CANCEL_REJECTED cid (bk_symbol b) oid Invalid_OrderId Side_INVALID
      Invalid_Price Invalid_Qty Invalid_Qty) (bk_response_queue b) \<and>
    bk_update_queue b' = bk_update_queue b"
proof -
  obtain b' where "cancelOrder cid oid b = Inr b'" "refines b a (spec_cancel cid oid a) (Inr b')"
    using cancelOrder_ok [OF assms(1)] by blast
  then show ?thesis
    using assms(2) represents_symbol [OF assms(1)]
    by (intro exI [of _ b']) (simp add: spec_cancel_def reject_response_def effect_def)
qed

theorem cancel_foreign_order_rejected_witness:
  "\<exists>b b'. represents b sample_book \<and> cancelOrder 1 12 b = Inr b' \<and> represents b' sample_book \<and>
     bk_update_queue b' = bk_update_queue b"
proof -
  have "own_order 1 12 sample_book = None" by code_simp
  then show ?thesis using sample_exists cancel_foreign_order_rejected [of _ sample_book 1 12] by blast
qed

section \<open>Modify\<close>

lemma less_not_invalid: "q < (x :: Qty) \<Longrightarrow> q \<noteq> Invalid_Qty"
  by (auto simp: Invalid_Qty_def word_less_nat_alt) (metis not_less word_le_nat_alt word_n1_ge)

text \<open>
  C23 Reducing the quantity of an own order keeps its place: ids and priorities of its side stay in
  the same order, only the quantity changes, and no matching takes place.
\<close>

theorem modify_decrease_keeps_priority:
  assumes "represents b a" and "sound a" and "own_order cid oid a = Some r" and "q \<noteq> 0" and "q < bo_qty r"
  shows "\<exists>b' a'. modifyOrder now cid oid (bo_price r) q b = Inr b' \<and> represents b' a' \<and>
    side_orders (bo_side r = BUY) a' = map (\<lambda>x. if bo_order_id x = oid then x\<lparr>bo_qty := q, bo_original_qty := q\<rparr> else x)
      (side_orders (bo_side r = BUY) a) \<and>
    side_orders (bo_side r \<noteq> BUY) a' = side_orders (bo_side r \<noteq> BUY) a \<and>
    bk_update_queue b' = push (mk_update MU_MODIFY oid (bk_symbol b) (bo_side r) (bo_price r) q) (bk_update_queue b)"
proof -
  have "0 < bo_price r" using own_order_side(2) [OF _ assms(3)] assms(2) by (simp add: order_ok_def)
  let ?a = "set_side (bo_side r = BUY) (update_qty oid q (side_orders (bo_side r = BUY) a)) a"
  have s: "\<exists>rs. spec_modify now cid oid (bo_price r) q a =
      (?a, rs, [mk_update MU_MODIFY oid (ab_symbol a) (bo_side r) (bo_price r) q])"
    using assms(3-5) \<open>0 < bo_price r\<close> less_not_invalid [OF assms(5)] by (simp add: spec_modify_def Let_def)
  obtain i ord where ord: "own_order cid oid a = Some (OrderInfo.truncate ord)" "find_own cid oid b = Inr (Some (i, ord))"
    "bk_order_index b oid = Some i" "orders_of b i = Some ord"
    using find_own_cases [OF assms(1), of cid oid] assms(3) by (metis option.distinct(1))
  have r: "r = OrderInfo.truncate ord" using ord(1) assms(3) by simp
  obtain b1 where "write_order i (\<lambda>ord. ord\<lparr>bo_qty := q, bo_original_qty := q\<rparr>) b = Inr b1"
    using write_qty_represents [OF assms(1) ord(3,4)] by blast
  then obtain b' where b': "modifyOrder now cid oid (bo_price r) q b = Inr b'"
    using ord(2) r assms(4,5) \<open>0 < bo_price r\<close> less_not_invalid [OF assms(5)] by (simp add: modifyOrder_def Let_def)
  then have "represents b' ?a"
    "bk_update_queue b' = push (mk_update MU_MODIFY oid (bk_symbol b) (bo_side r) (bo_price r) q) (bk_update_queue b)"
    using modifyOrder_ok [OF assms(1), of now cid oid "bo_price r" q] s represents_symbol [OF assms(1)]
    by (auto simp: effect_def)
  then show ?thesis using b' by (intro exI [of _ b'] exI [of _ ?a]) (simp add: update_qty_def)
qed

theorem modify_decrease_keeps_priority_witness:
  "\<exists>b b' a'. represents b sample_book \<and> modifyOrder 5 1 11 100 3 b = Inr b' \<and> represents b' a' \<and>
     map bo_order_id (side_orders True a') = [11, 12, 13]"
proof -
  obtain b where b: "represents b sample_book" using sample_exists by blast
  let ?r = "mk_info 11 1 ''ACME'' LIMIT BUY 100 10 10 1"
  have r: "own_order 1 11 sample_book = Some ?r" by code_simp
  have q: "(3 :: Qty) \<noteq> 0" "3 < bo_qty ?r" by (simp_all add: mk_info_def)
  have f: "bo_price ?r = 100" "(bo_side ?r = BUY) = True" by (simp_all add: mk_info_def)
  have ids: "map bo_order_id (map (\<lambda>x. if bo_order_id x = 11 then x\<lparr>bo_qty := 3, bo_original_qty := 3\<rparr> else x)
      (side_orders True sample_book)) = [11, 12, 13]" by code_simp
  show ?thesis
    using modify_decrease_keeps_priority [OF b sample_sound r q, of 5] b ids unfolding f by metis
qed

text \<open>
  C24 Raising the quantity of an own order costs its time priority: it goes behind every other order
  at its price, with the new quantity, and the rest of its side stays in order.
\<close>

theorem modify_increase_loses_priority:
  assumes "represents b a" and "sound a" and "fits b a" and "own_order cid oid a = Some r"
    and "bo_qty r < q" and "q \<noteq> Invalid_Qty"
  shows "\<exists>b' a' os1 os2. modifyOrder now cid oid (bo_price r) q b = Inr b' \<and> represents b' a' \<and>
    filter (\<lambda>x. bo_order_id x \<noteq> oid) (side_orders (bo_side r = BUY) a) = os1 @ os2 \<and>
    side_orders (bo_side r = BUY) a' =
      os1 @ mk_info oid cid (bk_symbol b) LIMIT (bo_side r) (bo_price r) q q now # os2 \<and>
    (\<forall>x\<in>set os1. \<not> price_before (bo_side r = BUY) (bo_price r) (bo_price x)) \<and>
    (\<forall>x\<in>set os2. price_before (bo_side r = BUY) (bo_price r) (bo_price x))"
proof -
  let ?bid = "bo_side r = BUY" and ?x = "mk_info oid cid (ab_symbol a) LIMIT (bo_side r) (bo_price r) q q now"
  have r: "order_ok (ab_symbol a) ?bid r" using own_order_side(2) [OF _ assms(4)] assms(2) by blast
  then have ok: "0 < bo_price r" "bo_order_type r = LIMIT" "q \<noteq> 0" "\<not> q < bo_qty r"
    using assms(5) by (auto simp: order_ok_def)
  have s: "\<exists>rs us. spec_modify now cid oid (bo_price r) q a = (rest ?x (unrest r a), rs, us)"
    using assms(4-6) ok by (simp add: spec_modify_def Let_def)
  then obtain b' where b': "modifyOrder now cid oid (bo_price r) q b = Inr b'" "represents b' (rest ?x (unrest r a))"
    using modifyOrder_ok [OF assms(1), of now cid oid "bo_price r" q] assms(3)
    by (cases "modifyOrder now cid oid (bo_price r) q b") auto
  have side: "side_orders ?bid (rest ?x (unrest r a)) = insert_order ?bid ?x (side_orders ?bid (unrest r a))"
    by (simp add: rest_def mk_info_def Let_def)
  have "priority_sorted ?bid (side_orders ?bid (unrest r a))"
    using book_okD(1) unrest_ok assms(2) by blast
  then obtain os1 os2 where os: "insert_order ?bid ?x (side_orders ?bid (unrest r a)) = os1 @ ?x # os2"
    "side_orders ?bid (unrest r a) = os1 @ os2"
    "\<forall>x\<in>set os1. \<not> price_before ?bid (bo_price ?x) (bo_price x)" "\<forall>x\<in>set os2. price_before ?bid (bo_price ?x) (bo_price x)"
    by (rule insert_order_cases)
  have "side_orders ?bid (unrest r a) = filter (\<lambda>x. bo_order_id x \<noteq> oid) (side_orders ?bid a)"
    using own_orderD(2) [OF assms(4)] by (simp add: unrest_def delete_order_def Let_def)
  moreover have "bo_price ?x = bo_price r" by (simp add: mk_info_def)
  ultimately show ?thesis
    using b' side os represents_symbol [OF assms(1)]
    by (intro exI [of _ b'] exI [of _ "rest ?x (unrest r a)"] exI [of _ os1] exI [of _ os2]) simp
qed

theorem modify_increase_loses_priority_witness:
  "\<exists>b b' a' os1 os2. represents b sample_book \<and> modifyOrder 5 1 11 100 30 b = Inr b' \<and> represents b' a' \<and>
     side_orders True a' = os1 @ mk_info 11 1 ''ACME'' LIMIT BUY 100 30 30 5 # os2 \<and>
     (\<forall>x\<in>set os2. price_before True 100 (bo_price x))"
proof -
  obtain b where b: "represents b sample_book" "pool_room 8 b sample_book" using sample_exists by blast
  let ?r = "mk_info 11 1 ''ACME'' LIMIT BUY 100 10 10 1"
  have f: "fits b sample_book" using b(2) room_fits by (metis numeral_eq_Suc)
  have r: "own_order 1 11 sample_book = Some ?r" by code_simp
  have q: "bo_qty ?r < 30" "(30 :: Qty) \<noteq> Invalid_Qty" by (simp_all add: mk_info_def Invalid_Qty_def)
  have e: "bo_price ?r = 100" "(bo_side ?r = BUY) = True" "bo_side ?r = BUY" "bk_symbol b = ''ACME''"
    using represents_symbol [OF b(1)] by (simp_all add: mk_info_def sample_book_def)
  show ?thesis
    using modify_increase_loses_priority [OF b(1) sample_sound f r q, of 5] b(1) unfolding e simp_thms by blast
qed

text \<open>
  C25 A price change is a cancellation followed by a new limit order: repricing an own order leaves the
  book exactly as cancelling it and entering a limit order with the same id, the new price and the new
  quantity does, and reports the same fills. The two differ in the acknowledgement, and in the CANCEL
  update, which repricing does not publish.
\<close>

theorem reprice_is_cancel_and_new_order:
  assumes "represents b a" and "sound a" and "fits b a" and "own_order cid oid a = Some r"
    and "p \<noteq> bo_price r" and "0 < p" and "q \<noteq> 0" and "q \<noteq> Invalid_Qty"
  shows "\<exists>b1 b2 a' rs us. modifyOrder now cid oid p q b = Inr b1 \<and>
    rbind (cancelOrder cid oid b) (addLimitOrder now cid oid (bo_side r) p q) = Inr b2 \<and>
    represents b1 a' \<and> represents b2 a' \<and>
    bk_response_queue b1 = push_all (mk_response MODIFIED cid (bk_symbol b) oid oid (bo_side r) p 0 q # rs) (bk_response_queue b) \<and>
    bk_response_queue b2 = push_all (mk_response CANCELED cid (bk_symbol b) oid oid (bo_side r) (bo_price r) 0 0 #
      mk_response ACCEPTED cid (bk_symbol b) oid oid (bo_side r) p 0 q # rs) (bk_response_queue b) \<and>
    bk_update_queue b1 = push_all us (bk_update_queue b) \<and>
    bk_update_queue b2 = push_all (mk_update MU_CANCEL oid (bk_symbol b) (bo_side r) (bo_price r) (bo_qty r) # us) (bk_update_queue b)"
proof -
  have r: "bo_order_type r = LIMIT" using own_order_side(2) [OF _ assms(4)] assms(2) by (auto simp: order_ok_def)
  have none: "lookup_order oid (unrest r a) = None" using unrest_lookup_None [OF _ assms(4)] assms(2) by blast
  have sy: "ab_symbol (unrest r a) = ab_symbol a" "ab_symbol a = bk_symbol b"
    using represents_symbol [OF assms(1)] by (simp_all add: unrest_def Let_def)
  obtain a' rs us where m: "match_and_rest now cid oid LIMIT (bo_side r) p q (unrest r a) = (a', rs, us)" using prod_cases3 by blast
  have "spec_modify now cid oid p q a = (a', mk_response MODIFIED cid (bk_symbol b) oid oid (bo_side r) p 0 q # rs, us)"
    using assms(4-8) r m sy by (simp add: spec_modify_def Let_def)
  then obtain b1 where b1: "modifyOrder now cid oid p q b = Inr b1" "represents b1 a'"
    "effect b (mk_response MODIFIED cid (bk_symbol b) oid oid (bo_side r) p 0 q # rs) us b1"
    using modifyOrder_ok [OF assms(1), of now cid oid p q] assms(3) by (cases "modifyOrder now cid oid p q b") auto
  let ?can = "mk_response CANCELED cid (bk_symbol b) oid oid (bo_side r) (bo_price r) 0 0"
  let ?upd = "mk_update MU_CANCEL oid (bk_symbol b) (bo_side r) (bo_price r) (bo_qty r)"
  obtain b0 where b0: "cancelOrder cid oid b = Inr b0" "represents b0 (unrest r a)" "effect b [?can] [?upd] b0"
    using cancelOrder_ok [OF assms(1), of cid oid] assms(4) sy(2) by (auto simp: spec_cancel_def)
  have "fits b0 (unrest r a)" using fits_mono [OF assms(3) unrest_no_larger b0(3)] .
  moreover have "spec_limit now cid oid (bo_side r) p q (unrest r a) = (a', mk_response ACCEPTED cid (bk_symbol b) oid oid (bo_side r) p 0 q # rs, us)"
    using none m sy by (simp add: spec_limit_def)
  ultimately obtain b2 where b2: "addLimitOrder now cid oid (bo_side r) p q b0 = Inr b2" "represents b2 a'"
    "effect b0 (mk_response ACCEPTED cid (bk_symbol b) oid oid (bo_side r) p 0 q # rs) us b2"
    using addLimitOrder_ok [OF b0(2), of now cid oid "bo_side r" p q] by (cases "addLimitOrder now cid oid (bo_side r) p q b0") auto
  show ?thesis
    using b1 b0 b2 by (intro exI [of _ b1] exI [of _ b2] exI [of _ a'] exI [of _ rs] exI [of _ us]) (simp add: effect_def)
qed

theorem reprice_is_cancel_and_new_order_witness:
  "\<exists>b b1 b2 a'. represents b sample_book \<and> modifyOrder 5 1 11 99 7 b = Inr b1 \<and>
     rbind (cancelOrder 1 11 b) (addLimitOrder 5 1 11 BUY 99 7) = Inr b2 \<and> represents b1 a' \<and> represents b2 a'"
proof -
  obtain b where b: "represents b sample_book" "pool_room 8 b sample_book" using sample_exists by blast
  let ?r = "mk_info 11 1 ''ACME'' LIMIT BUY 100 10 10 1"
  have f: "fits b sample_book" using b(2) room_fits by (metis numeral_eq_Suc)
  have r: "own_order 1 11 sample_book = Some ?r" by code_simp
  have q: "(99 :: Price) \<noteq> bo_price ?r" "(0 :: Price) < 99" "(7 :: Qty) \<noteq> 0" "(7 :: Qty) \<noteq> Invalid_Qty"
    by (simp_all add: mk_info_def Invalid_Qty_def)
  have e: "bo_side ?r = BUY" by (simp add: mk_info_def)
  show ?thesis
    using reprice_is_cancel_and_new_order [OF b(1) sample_sound f r q, of 5] b(1) unfolding e by blast
qed

text \<open>Only BUY is told apart from the other sides: any other side matches like SELL.\<close>

lemma match_orders_other_side:
  assumes "match_orders sy cid oid SELL beyond leaves os = (os', l, rs, us)"
  shows "\<exists>rs'. match_orders sy cid oid sd beyond leaves os = (os', l, rs', us) \<and> length rs' = length rs"
  using assms
proof (induction os arbitrary: leaves os' l rs us)
  case (Cons r os)
  obtain os1 l1 rs1 us1 where n: "match_orders sy cid oid SELL beyond (if bo_client_id r = cid then leaves else leaves - min leaves (bo_qty r)) os =
      (os1, l1, rs1, us1)" using prod_cases4 by blast
  obtain rs1' where "match_orders sy cid oid sd beyond (if bo_client_id r = cid then leaves else leaves - min leaves (bo_qty r)) os = (os1, l1, rs1', us1)"
    "length rs1' = length rs1" using Cons.IH [OF n] by blast
  then show ?case
    using Cons.prems n by (auto simp: Let_def fill_responses_def split: if_splits)
qed simp

lemma match_book_other_side:
  assumes "match_book cid oid SELL p hl q a = (leaves, a', rs, us)" and "sd \<noteq> BUY"
  shows "\<exists>rs'. match_book cid oid sd p hl q a = (leaves, a', rs', us) \<and> length rs' = length rs"
proof -
  have "beyond_limit sd hl p = beyond_limit SELL hl p" using assms(2) by (simp add: beyond_limit_def fun_eq_iff)
  then show ?thesis
    using assms match_orders_other_side [of "ab_symbol a" cid oid "beyond_limit SELL hl p" q "side_orders True a" _ _ _ _ sd]
    by (fastforce simp: match_book_def split: prod.splits)
qed

text \<open>
  C39 An order with an invalid side is not refused: a limit order with side INVALID that is otherwise valid,
  processed by the matching thread with a block to spare in both pools, is acknowledged as ACCEPTED, trades with
  the bids exactly as a sell order of the same client, price and quantity would, and what is left rests
  among the asks, with the side INVALID, and is published as such.
\<close>

theorem invalid_side_rests_as_ask:
  assumes "represents (ctx_book ctx) a" and "fits (ctx_book ctx) a" and "lookup_order (req_order_id req) a = None"
    and "req_order_type req = LIMIT" and "req_side req = Side_INVALID"
    and "0 < req_price req" and "req_qty req \<noteq> 0" and "req_qty req \<noteq> Invalid_Qty"
    and "match_book (req_client_id req) (req_order_id req) SELL (req_price req) True (req_qty req) a = (leaves, a1, rs, us)"
  shows "\<exists>ctx' a' rs'. processRequest now ctx req = Inr ctx' \<and> represents (ctx_book ctx') a' \<and> length rs' = length rs \<and>
    bk_response_queue (ctx_book ctx') = push_all (mk_response ACCEPTED (req_client_id req) (bk_symbol (ctx_book ctx)) (req_order_id req)
      (req_order_id req) Side_INVALID (req_price req) 0 (req_qty req) # rs') (bk_response_queue (ctx_book ctx)) \<and>
    ab_bids a' = ab_bids a1 \<and>
    (if leaves = 0 then ab_asks a' = ab_asks a \<and> bk_update_queue (ctx_book ctx') = push_all us (bk_update_queue (ctx_book ctx))
     else mk_info (req_order_id req) (req_client_id req) (bk_symbol (ctx_book ctx)) LIMIT Side_INVALID (req_price req) (req_qty req) leaves now
         \<in> set (ab_asks a') \<and>
       bk_update_queue (ctx_book ctx') = push_all (us @ [mk_update MU_ADD (req_order_id req) (bk_symbol (ctx_book ctx)) Side_INVALID (req_price req) leaves])
         (bk_update_queue (ctx_book ctx)))"
proof -
  let ?b = "ctx_book ctx" and ?oid = "req_order_id req" and ?cid = "req_client_id req" and ?p = "req_price req" and ?q = "req_qty req"
  let ?x = "mk_info ?oid ?cid (ab_symbol a) LIMIT Side_INVALID ?p ?q leaves now"
  let ?a' = "if leaves = 0 then a1 else rest ?x a1"
  let ?us = "us @ (if leaves = 0 then [] else [mk_update MU_ADD ?oid (ab_symbol a) Side_INVALID ?p leaves])"
  obtain rs' where m: "match_book ?cid ?oid Side_INVALID ?p True ?q a = (leaves, a1, rs', us)" "length rs' = length rs"
    using match_book_other_side [OF assms(9), of Side_INVALID] by auto
  have "spec_request now req a = (?a', mk_response ACCEPTED ?cid (ab_symbol a) ?oid ?oid Side_INVALID ?p 0 ?q # rs', ?us)"
    using assms(3-8) m(1) by (simp add: spec_request_def spec_limit_def match_and_rest_def Let_def word_gt_0)
  then obtain b' where b': "dispatch now req ?b = Inr b'" "represents b' ?a'"
    "effect ?b (mk_response ACCEPTED ?cid (ab_symbol a) ?oid ?oid Side_INVALID ?p 0 ?q # rs') ?us b'"
    using dispatch_ok [OF assms(1), of now req] assms(2) by (cases "dispatch now req ?b") auto
  have bids: "ab_bids ?a' = ab_bids a1" and "ab_asks a1 = ab_asks a"
    using match_book_own_side [OF m(1)] by (simp_all add: rest_def mk_info_def set_side_def side_orders_def Let_def)
  moreover have "?x \<in> set (ab_asks (rest ?x a1))"
    using set_insert_order [of False ?x "ab_asks a1"] by (simp add: rest_def mk_info_def set_side_def side_orders_def Let_def)
  ultimately show ?thesis
    using b' m(2) represents_symbol [OF assms(1)]
    by (intro exI [of _ "ctx\<lparr>ctx_book := b'\<rparr>"] exI [of _ ?a'] exI [of _ rs']) (auto simp: processRequest_def effect_def)
qed

theorem invalid_side_rests_as_ask_witness:
  "\<exists>ctx ctx' a'. processRequest 5 ctx (sample_request LIMIT 9 99 Side_INVALID 100 20) = Inr ctx' \<and> represents (ctx_book ctx) sample_book \<and>
     represents (ctx_book ctx') a' \<and> map bo_order_id (ab_bids a') = [13] \<and>
     mk_info 99 9 ''ACME'' LIMIT Side_INVALID 100 20 5 5 \<in> set (ab_asks a')"
proof -
  obtain b where b: "represents b sample_book" "pool_room 8 b sample_book" using sample_exists by blast
  let ?ctx = "(mk_context 2 1 1 ''ACME'')\<lparr>ctx_book := b\<rparr>" and ?req = "sample_request LIMIT 9 99 Side_INVALID 100 20"
  let ?m = "match_book 9 99 SELL 100 True 20 sample_book"
  have f: "fits b sample_book" using b(2) room_fits by (metis numeral_eq_Suc)
  have l: "lookup_order 99 sample_book = None" "fst ?m = 5" "map bo_order_id (ab_bids (fst (snd ?m))) = [13]" by code_simp+
  obtain a1 rs us where m: "?m = (5, a1, rs, us)" using l(2) by (metis prod.collapse)
  have sy: "bk_symbol b = ''ACME''" using represents_symbol [OF b(1)] by (simp add: sample_book_def)
  obtain ctx' a' where "processRequest 5 ?ctx ?req = Inr ctx'" "represents (ctx_book ctx') a'" "ab_bids a' = ab_bids a1"
    "mk_info 99 9 ''ACME'' LIMIT Side_INVALID 100 20 5 5 \<in> set (ab_asks a')"
    using invalid_side_rests_as_ask [of ?ctx sample_book ?req 5 a1 rs us 5] b(1) f l(1) m sy
    by (auto simp: sample_request_def Invalid_Qty_def)
  then show ?thesis using b(1) l(3) m by (intro exI [of _ ?ctx] exI [of _ ctx'] exI [of _ a']) simp
qed

section \<open>The matching thread\<close>

text \<open>
  A matching thread works its whole queue off: from a context with waiting requests and room in
  the pools for that many, one iteration per request empties the queue, and book, responses and
  market updates are those of processing the requests one after the other in queue order.
\<close>

lemma matching_thread_drains_queue:
  assumes "queue_inv (ctx_request_queue ctx)" and "length nows = num_elements (ctx_request_queue ctx)"
    and "represents (ctx_book ctx) a" and "pool_room (length nows) (ctx_book ctx) a"
    and "spec_all (\<lambda>(now, req). spec_request now req) (zip nows (contents (ctx_request_queue ctx))) a = (a', rs, us)"
  shows "\<exists>ctx'. run_all run_step nows ctx = Inr ctx' \<and> contents (ctx_request_queue ctx') = [] \<and>
    represents (ctx_book ctx') a' \<and>
    bk_response_queue (ctx_book ctx') = push_all rs (bk_response_queue (ctx_book ctx)) \<and>
    bk_update_queue (ctx_book ctx') = push_all us (bk_update_queue (ctx_book ctx))"
  using run_steps_ok [OF queue_inv_read_inv [OF assms(1)] refl _ assms(3) _ assms(5)] assms(2,4)
  by (auto simp: effect_def)

end
