(* ===== verification/MarketData.thy ===== *)
theory MarketData
  imports BookProperties
begin

text \<open>
  The consumers of market data: the mirror of exchange/market_data/book_snapshot_service.h, which
  rebuilds every book from the stream of updates alone, and the fan-out of
  exchange/market_data/market_data_feed.h. The mirror follows the book through every operation,
  except when a resting order is repriced and fills completely.
\<close>

section \<open>The snapshot service\<close>

record SnapshotEntry =
  se_order_id :: OrderId
  se_side :: Side
  se_price :: Price
  se_qty :: Qty

type_synonym mirror_book = "OrderId \<rightharpoonup> SnapshotEntry"

record BookSnapshotService =
  ss_mirror :: "Symbol \<rightharpoonup> mirror_book"
  ss_last_snapshot_time :: Nanos

definition SNAPSHOT_INTERVAL_NANOS :: Nanos where
  "SNAPSHOT_INTERVAL_NANOS = 60 * NANOS_TO_SECS"

text \<open>The switch of \<open>applyUpdate\<close> on the book of the update's symbol.\<close>

definition update_book :: "BookUpdate \<Rightarrow> mirror_book \<Rightarrow> mirror_book" where
  "update_book u book =
     (case upd_type u of
        MU_ADD \<Rightarrow> book(upd_order_id u \<mapsto>
          \<lparr>se_order_id = upd_order_id u, se_side = upd_side u, se_price = upd_price u, se_qty = upd_qty u\<rparr>)
      | MU_MODIFY \<Rightarrow>
          (case book (upd_order_id u) of
             None \<Rightarrow> book
           | Some e \<Rightarrow> book(upd_order_id u \<mapsto> e\<lparr>se_qty := upd_qty u\<rparr>))
      | MU_CANCEL \<Rightarrow> book(upd_order_id u := None)
      | MU_TRADE \<Rightarrow> book
      | MU_INVALID \<Rightarrow> book)"

text \<open>\<open>mirror_[symbol]\<close> creates an empty book for a symbol it has not seen.\<close>

definition applyUpdate :: "BookUpdate \<Rightarrow> BookSnapshotService \<Rightarrow> BookSnapshotService" where
  "applyUpdate u s =
     (let book = (case ss_mirror s (upd_symbol u) of None \<Rightarrow> Map.empty | Some book \<Rightarrow> book) in
      s\<lparr>ss_mirror := (ss_mirror s)(upd_symbol u \<mapsto> update_book u book)\<rparr>)"

text \<open>
  The entries of one symbol. The order in which an \<open>unordered_map\<close> is walked is unspecified, so
  the vector is given as the set of its elements.
\<close>

definition snapshotFor :: "Symbol \<Rightarrow> BookSnapshotService \<Rightarrow> SnapshotEntry set" where
  "snapshotFor sy s = (case ss_mirror s sy of None \<Rightarrow> {} | Some book \<Rightarrow> ran book)"

text \<open>The number of orders logged for each symbol.\<close>

definition publishSnapshot :: "BookSnapshotService \<Rightarrow> Symbol \<rightharpoonup> nat" where
  "publishSnapshot s = (\<lambda>sy. map_option (\<lambda>book. card (dom book)) (ss_mirror s sy))"

text \<open>
  One iteration of the service's loop: apply every waiting update, then log a snapshot when the
  interval has passed. The clock is read twice.
\<close>

definition snapshot_timer ::
  "Nanos \<Rightarrow> Nanos \<Rightarrow> BookSnapshotService \<Rightarrow> BookSnapshotService \<times> (Symbol \<rightharpoonup> nat) option" where
  "snapshot_timer now1 now2 s =
     (if now1 - ss_last_snapshot_time s > SNAPSHOT_INTERVAL_NANOS
      then let s = s\<lparr>ss_last_snapshot_time := now2\<rparr> in (s, Some (publishSnapshot s))
      else (s, None))"

definition snapshot_run_once ::
  "Nanos \<Rightarrow> Nanos \<Rightarrow> BookUpdate LFQueue \<Rightarrow> BookSnapshotService
     \<Rightarrow> (BookUpdate LFQueue \<times> BookSnapshotService \<times> (Symbol \<rightharpoonup> nat) option) result" where
  "snapshot_run_once now1 now2 incoming_updates s =
     rbind (drain applyUpdate incoming_updates s) (\<lambda>(q, s). Inr (q, snapshot_timer now1 now2 s))"

section \<open>The feed\<close>

text \<open>
  A subscriber is a callback on some outside state \<open>'w\<close>. For every update the subscribers are
  called in the order of subscription, then the update is copied to the queue of the snapshot
  service.
\<close>

type_synonym 'w subscriber = "BookUpdate \<Rightarrow> 'w \<Rightarrow> 'w"

record 'w MarketDataFeed =
  fd_subscribers :: "'w subscriber list"
  fd_snapshot_feed :: "BookUpdate LFQueue"

definition SNAPSHOT_QUEUE_SIZE :: nat where "SNAPSHOT_QUEUE_SIZE = 2 ^ 16"

definition subscribe :: "'w subscriber \<Rightarrow> 'w MarketDataFeed \<Rightarrow> 'w MarketDataFeed" where
  "subscribe sub fd = fd\<lparr>fd_subscribers := fd_subscribers fd @ [sub]\<rparr>"

definition broadcast :: "'w subscriber list \<Rightarrow> BookUpdate \<Rightarrow> 'w \<Rightarrow> 'w" where
  "broadcast subs u w = fold (\<lambda>sub w. sub u w) subs w"

definition feed_update :: "BookUpdate \<Rightarrow> 'w MarketDataFeed \<times> 'w \<Rightarrow> 'w MarketDataFeed \<times> 'w" where
  "feed_update u = (\<lambda>(fd, w). (fd\<lparr>fd_snapshot_feed := push u (fd_snapshot_feed fd)\<rparr>, broadcast (fd_subscribers fd) u w))"

text \<open>One pass of the feed's loop over the queues of all symbols.\<close>

fun feed_run_once ::
  "BookUpdate LFQueue list \<Rightarrow> 'w MarketDataFeed \<times> 'w \<Rightarrow> (BookUpdate LFQueue list \<times> 'w MarketDataFeed \<times> 'w) result"
where
  "feed_run_once [] s = Inr ([], s)"
| "feed_run_once (q # qs) s =
     rbind (drain feed_update q s) (\<lambda>(q', s).
     rbind (feed_run_once qs s) (\<lambda>(qs', s). Inr (q' # qs', s)))"

section \<open>What the feed delivers\<close>

lemma fold_feed_update:
  "fold feed_update us (fd, w) =
     (fd\<lparr>fd_snapshot_feed := push_all us (fd_snapshot_feed fd)\<rparr>, fold (broadcast (fd_subscribers fd)) us w)"
  by (induction us arbitrary: fd w) (simp_all add: feed_update_def)

lemma feed_run_once_ok:
  assumes "\<And>q. q \<in> set qs \<Longrightarrow> read_inv q"
  shows "\<exists>qs'. feed_run_once qs (fd, w) =
      Inr (qs', fd\<lparr>fd_snapshot_feed := push_all (concat (map contents qs)) (fd_snapshot_feed fd)\<rparr>,
           fold (broadcast (fd_subscribers fd)) (concat (map contents qs)) w) \<and>
    map contents qs' = map (\<lambda>_. []) qs"
  using assms
proof (induction qs arbitrary: fd w)
  case (Cons q qs)
  obtain q' where "drain feed_update q (fd, w) = Inr (q', fold feed_update (contents q) (fd, w))" "contents q' = []"
    using drain_contents [of q feed_update "(fd, w)"] Cons.prems by auto
  then show ?case
    using Cons.IH [of "fd\<lparr>fd_snapshot_feed := push_all (contents q) (fd_snapshot_feed fd)\<rparr>"
        "fold (broadcast (fd_subscribers fd)) (contents q) w"] Cons.prems
    by (auto simp: fold_feed_update)
qed simp

section \<open>The mirror of an abstract book\<close>

definition entry_of :: "OrderInfo \<Rightarrow> SnapshotEntry" where
  "entry_of r = \<lparr>se_order_id = bo_order_id r, se_side = bo_side r, se_price = bo_price r, se_qty = bo_qty r\<rparr>"

definition entries :: "OrderInfo list \<Rightarrow> mirror_book" where
  "entries os = map_of (map (\<lambda>r. (bo_order_id r, entry_of r)) os)"

definition mirror_of :: "abook \<Rightarrow> mirror_book" where
  "mirror_of a = entries (all_orders a)"

lemma entries_simps [simp]:
  "entries [] = Map.empty" "entries (r # os) = (entries os)(bo_order_id r \<mapsto> entry_of r)"
  "entries (os @ os') = entries os' ++ entries os" "dom (entries os) = bo_order_id ` set os"
  by (simp_all add: entries_def dom_map_of_conv_image_fst image_image)

lemma entries_None [simp]: "entries os oid = None \<longleftrightarrow> oid \<notin> bo_order_id ` set os"
  by (metis domIff entries_simps(4))

lemma fill_updates_mirror:
  assumes "book (bo_order_id r) = Some (entry_of r)"
  shows "fold update_book (fill_updates sy r fill) book = book(bo_order_id r := entries (after_fill r fill) (bo_order_id r))"
  using assms by (simp add: fill_updates_def update_book_def after_fill_def entry_of_def)

lemma match_orders_mirror:
  assumes "match_orders sy cid oid sd beyond leaves os = (os', l', rs, us)"
    and "distinct (map bo_order_id os)" and "\<forall>r\<in>set os. N (bo_order_id r) = None"
  shows "fold update_book us (N ++ entries os) = N ++ entries os'"
  using assms
proof (induction os arbitrary: N leaves os' rs us)
  case (Cons r os)
  have fresh: "entries os (bo_order_id r) = None" "N (bo_order_id r) = None"
    and frame: "\<forall>s\<in>set os. (N(bo_order_id r := v)) (bo_order_id s) = None" for v
    using Cons.prems(2,3) by (auto simp: image_iff)
  from Cons.prems(1) show ?case
  proof (cases rule: match_orders_Cons_cases)
    case (own os1)
    have "entries os1 (bo_order_id r) = None"
      using match_orders_ids [OF own(4)] Cons.prems(2) by auto
    then have comm: "N ++ entries (r # x) = N(bo_order_id r \<mapsto> entry_of r) ++ entries x" if "x \<in> {os, os1}" for x
      using that fresh by (auto simp: map_add_def fun_eq_iff simp del: entries_None split: option.splits)
    have "fold update_book us (N(bo_order_id r \<mapsto> entry_of r) ++ entries os) = N(bo_order_id r \<mapsto> entry_of r) ++ entries os1"
      using Cons.prems(2) frame by (intro Cons.IH [OF own(4)]) (simp_all del: fun_upd_apply)
    then show ?thesis using comm [of os] comm [of os1] own(5) by (simp del: entries_simps(2))
  next
    case (fill fill os1 rs1 us1)
    let ?N = "N(bo_order_id r := entries (after_fill r fill) (bo_order_id r))"
    have os1: "entries os1 (bo_order_id r) = None"
      using match_orders_ids [OF fill(5)] Cons.prems(2) by auto
    have "fold update_book (fill_updates sy r fill) (N ++ entries (r # os)) = ?N ++ entries os"
      using fresh by (subst fill_updates_mirror) (auto simp: map_add_def fun_eq_iff simp del: entries_None split: option.splits)
    moreover have "fold update_book us1 (?N ++ entries os) = ?N ++ entries os1"
      using Cons.prems(2) frame by (intro Cons.IH [OF fill(5)]) (simp_all del: fun_upd_apply)
    moreover have "?N ++ entries os1 = N ++ entries os'"
      using os1 fresh fill(6)
      by (auto simp: after_fill_def map_add_def fun_eq_iff simp del: entries_None split: option.splits)
    ultimately show ?thesis using fill(8) by (simp del: entries_simps(2))
  qed simp
qed simp

lemma all_orders_append: "all_orders a = side_orders True a @ side_orders False a"
  by (simp add: all_orders_def side_orders_def)

lemma mirror_side:
  assumes "book_ok a"
  shows "mirror_of a = entries (side_orders (\<not> bid) a) ++ entries (side_orders bid a)"
proof (cases bid)
  case False
  have "dom (entries (side_orders True a)) \<inter> dom (entries (side_orders False a)) = {}"
    using book_okD(4) [OF assms] by simp
  then show ?thesis
    using False map_add_comm [of "entries (side_orders True a)"] by (simp add: mirror_of_def all_orders_append)
qed (simp add: mirror_of_def all_orders_append)

lemma other_side_disjoint:
  "book_ok a \<Longrightarrow> bo_order_id ` set (side_orders (\<not> bid) a) \<inter> bo_order_id ` set (side_orders bid a) = {}"
  using book_okD(4) [of a] by (cases bid) auto

lemma match_book_mirror:
  assumes ok: "book_ok a" and m: "match_book cid oid sd lp hl qty a = (l', a', rs, us)"
  shows "fold update_book us (mirror_of a) = mirror_of a'"
proof (rule match_book_cases [OF m])
  fix os
  let ?bid = "sd \<noteq> BUY"
  assume mo: "match_orders (ab_symbol a) cid oid sd (beyond_limit sd hl lp) qty (side_orders ?bid a) = (os, l', rs, us)"
    and a': "a' = set_side ?bid os a"
  have "fold update_book us (mirror_of a) = entries (side_orders (\<not> ?bid) a) ++ entries os"
    unfolding mirror_side [OF ok, of ?bid]
    using book_okD(3) [OF ok] other_side_disjoint [OF ok, of ?bid] by (intro match_orders_mirror [OF mo]) auto
  then show ?thesis
    using mirror_side [OF match_book_ok [OF ok m], of ?bid] a' by simp
qed

lemma entries_insert_order:
  assumes "bo_order_id x \<notin> bo_order_id ` set os"
  shows "entries (insert_order bid x os) = (entries os)(bo_order_id x \<mapsto> entry_of x)"
proof -
  let ?P = "\<lambda>r. \<not> price_before bid (bo_price x) (bo_price r)"
  have "entries (takeWhile ?P os) (bo_order_id x) = None"
    using assms by (auto dest: set_takeWhileD)
  moreover have "entries os = entries (dropWhile ?P os) ++ entries (takeWhile ?P os)"
    by (metis entries_simps(3) takeWhile_dropWhile_id)
  ultimately show ?thesis
    by (auto simp: insert_order_def map_add_def fun_eq_iff simp del: entries_None split: option.splits)
qed

lemma rest_mirror:
  assumes ok: "book_ok a" "book_ok (rest x a)" and fresh: "lookup_order (bo_order_id x) a = None"
  shows "mirror_of (rest x a) = (mirror_of a)(bo_order_id x \<mapsto> entry_of x)"
proof -
  let ?bid = "bo_side x = BUY"
  have "bo_order_id x \<notin> bo_order_id ` set (side_orders ?bid a)"
    using fresh by (cases ?bid) (auto simp: lookup_None_iff all_orders_sides)
  then show ?thesis
    unfolding mirror_side [OF ok(1), of ?bid] mirror_side [OF ok(2), of ?bid]
    by (simp add: rest_def Let_def entries_insert_order)
qed

lemma entries_delete_order: "entries (delete_order oid os) = (entries os)(oid := None)"
  by (induction os) (auto simp: delete_order_def fun_eq_iff)

lemma unrest_mirror:
  assumes ok: "book_ok a" and own: "own_order cid oid a = Some r"
  shows "mirror_of (unrest r a) = (mirror_of a)(oid := None)"
proof -
  let ?bid = "bo_side r = BUY"
  have "oid \<in> bo_order_id ` set (side_orders ?bid a)"
    using own_order_side(1) [OF ok own] own_orderD(2) [OF own] by auto
  then have "entries (side_orders (\<not> ?bid) a) oid = None"
    using other_side_disjoint [OF ok, of ?bid] by auto
  then show ?thesis
    unfolding mirror_side [OF ok, of ?bid] mirror_side [OF unrest_ok [OF ok], of _ ?bid]
    using own_orderD(2) [OF own]
    by (auto simp: unrest_def Let_def entries_delete_order map_add_def fun_eq_iff simp del: entries_None)
qed

lemma mirror_own:
  assumes ok: "book_ok a" and own: "own_order cid oid a = Some r"
  shows "mirror_of a oid = Some (entry_of r)"
proof -
  have "distinct (map fst (map (\<lambda>r. (bo_order_id r, entry_of r)) (all_orders a)))"
    using ok by (simp add: book_ok_def comp_def)
  then show ?thesis
    using own_orderD(1,2) [OF own] by (auto simp: mirror_of_def entries_def intro!: map_of_is_SomeI)
qed

lemma entries_update_qty:
  "entries (update_qty oid q os) = (entries os)(oid := map_option (\<lambda>e. e\<lparr>se_qty := q\<rparr>) (entries os oid))"
  by (induction os) (auto simp: update_qty_def fun_eq_iff entry_of_def)

lemma update_qty_mirror:
  assumes ok: "sound a" and own: "own_order cid oid a = Some r" and q: "q \<noteq> 0"
  shows "mirror_of (set_side (bo_side r = BUY) (update_qty oid q (side_orders (bo_side r = BUY) a)) a) =
    (mirror_of a)(oid \<mapsto> (entry_of r)\<lparr>se_qty := q\<rparr>)"
proof -
  let ?bid = "bo_side r = BUY"
  have book: "book_ok a" "book_ok (set_side ?bid (update_qty oid q (side_orders ?bid a)) a)"
    using ok update_qty_sound [OF ok q] by auto
  have r: "r \<in> set (side_orders ?bid a)" "bo_order_id r = oid"
    using own_order_side(1) [OF book(1) own] own_orderD(2) [OF own] by auto
  have "entries (side_orders ?bid a) oid = Some (entry_of r)"
    using r book_okD(3) [OF book(1), of ?bid]
    by (auto simp: entries_def comp_def intro!: map_of_is_SomeI)
  then show ?thesis
    unfolding mirror_side [OF book(1), of ?bid] mirror_side [OF book(2), of ?bid]
    by (simp add: entries_update_qty)
qed


section \<open>The mirror follows the book\<close>

lemma fold_update_other:
  "(\<And>u. u \<in> set us \<Longrightarrow> upd_order_id u \<noteq> k) \<Longrightarrow> fold update_book us (M(k := e)) = (fold update_book us M)(k := e)"
proof (induction us arbitrary: M)
  case (Cons u us)
  have "update_book u (M(k := e)) = (update_book u M)(k := e)"
    using Cons.prems [of u] by (auto simp: update_book_def fun_eq_iff split: MarketUpdateType.splits option.splits)
  then show ?case using Cons by (simp del: fun_upd_apply)
qed simp

lemma match_orders_updates:
  assumes "match_orders sy cid oid sd beyond leaves os = (os', l', rs, us)" and "u \<in> set us"
  shows "upd_order_id u \<in> bo_order_id ` set os" "upd_symbol u = sy"
proof -
  have "upd_order_id u \<in> bo_order_id ` set os \<and> upd_symbol u = sy"
    using assms
  proof (induction os arbitrary: leaves os' rs us)
    case (Cons r os)
    from Cons.prems(1) show ?case
    proof (cases rule: match_orders_Cons_cases)
      case (fill fill os1 rs1 us1)
      then have "u \<in> set (fill_updates sy r fill) \<or> u \<in> set us1" using Cons.prems(2) by auto
      then show ?thesis using Cons.IH [OF fill(5)] by (auto simp: fill_updates_def split: if_splits)
    qed (use Cons in auto)
  qed simp
  then show "upd_order_id u \<in> bo_order_id ` set os" "upd_symbol u = sy" by simp_all
qed

lemma match_book_updates:
  assumes "match_book cid oid sd lp hl qty a = (l', a', rs, us)" and "u \<in> set us"
  shows "lookup_order (upd_order_id u) a \<noteq> None" "upd_symbol u = ab_symbol a"
proof (rule_tac [!] match_book_cases [OF assms(1)])
  fix os
  assume m: "match_orders (ab_symbol a) cid oid sd (beyond_limit sd hl lp) qty (side_orders (sd \<noteq> BUY) a) = (os, l', rs, us)"
  show "lookup_order (upd_order_id u) a \<noteq> None"
    using match_orders_updates(1) [OF m assms(2)] by (cases "sd = BUY") (auto simp: lookup_None_iff all_orders_sides)
  show "upd_symbol u = ab_symbol a" using match_orders_updates(2) [OF m assms(2)] .
qed

lemma mirror_None: "mirror_of a oid = None \<longleftrightarrow> lookup_order oid a = None"
  by (simp add: mirror_of_def lookup_None_iff)

lemma rest_lookup: "lookup_order (bo_order_id x) (rest x a) \<noteq> None"
  by (cases "bo_side x = BUY") (auto simp: rest_def lookup_None_iff all_orders_sides)

text \<open>
  The updates of a match, followed by the addition of what rests, applied to the mirror of the
  book with any entry \<open>e\<close> under the id of the incoming order.
\<close>

lemma match_and_rest_mirror:
  assumes ok: "sound a" and fresh: "lookup_order oid a = None" and p: "0 < price" and ot: "ot = LIMIT"
    and m: "match_and_rest now cid oid ot sd price qty a = (a', rs, us)"
  shows "fold update_book us ((mirror_of a)(oid := e)) =
    (if lookup_order oid a' = None then (mirror_of a')(oid := e) else mirror_of a')"
proof -
  obtain leaves a1 rs1 us1 where mb: "match_book cid oid sd price True qty a = (leaves, a1, rs1, us1)"
    using prod_cases4 by blast
  have "fold update_book us1 ((mirror_of a)(oid := e)) = (fold update_book us1 (mirror_of a))(oid := e)"
    using match_book_updates(1) [OF mb] fresh by (intro fold_update_other) blast
  then have us1: "fold update_book us1 ((mirror_of a)(oid := e)) = (mirror_of a1)(oid := e)"
    using match_book_mirror [OF _ mb] ok by simp
  have fresh1: "lookup_order oid a1 = None" using match_book_lookup_None [OF mb fresh] .
  show ?thesis
  proof (cases "leaves = 0")
    case True
    then show ?thesis using m mb us1 fresh1 by (simp add: match_and_rest_def)
  next
    case False
    let ?x = "mk_info oid cid (ab_symbol a) ot sd price qty leaves now"
    have a': "a' = rest ?x a1" "us = us1 @ [mk_update MU_ADD oid (ab_symbol a) sd price leaves]"
      using False m mb by (auto simp: match_and_rest_def word_gt_0)
    have "book_ok a1" "book_ok (rest ?x a1)"
      using match_book_ok [OF _ mb] match_and_rest_sound [OF ok fresh p ot m] ok a'(1) by auto
    then have "mirror_of a' = (mirror_of a1)(oid \<mapsto> entry_of ?x)"
      using rest_mirror [of a1 ?x] fresh1 a'(1) by (simp add: mk_info_def)
    moreover have "lookup_order oid a' \<noteq> None"
      using rest_lookup [of ?x a1] a'(1) by (simp add: mk_info_def)
    ultimately show ?thesis
      using us1 a'(2) by (auto simp: update_book_def entry_of_def mk_info_def)
  qed
qed

text \<open>
  A modify that changes the price of an own order and fills it completely: the order has left
  the book, but no update said so.
\<close>

definition repriced_away :: "EngineOrderRequest \<Rightarrow> abook \<Rightarrow> abook \<Rightarrow> bool" where
  "repriced_away req a a' \<longleftrightarrow> req_order_type req = MODIFY \<and>
     own_order (req_client_id req) (req_order_id req) a \<noteq> None \<and> lookup_order (req_order_id req) a' = None"

lemma spec_limit_mirror:
  assumes "sound a" and "0 < price" and "spec_limit now cid oid sd price qty a = (a', rs, us)"
  shows "fold update_book us (mirror_of a) = mirror_of a'"
proof (cases "lookup_order oid a")
  case None
  then have m: "match_and_rest now cid oid LIMIT sd price qty a = (a', tl rs, us)"
    using assms(3) by (auto simp: spec_limit_def split: prod.splits)
  have "(mirror_of a)(oid := None) = mirror_of a" using None mirror_None [of a oid] by auto
  moreover have "lookup_order oid a' = None \<Longrightarrow> (mirror_of a')(oid := None) = mirror_of a'"
    using mirror_None [of a' oid] by auto
  ultimately show ?thesis
    using match_and_rest_mirror [OF assms(1) None assms(2) refl m, of None] by (simp split: if_splits)
qed (use assms in \<open>simp add: spec_limit_def\<close>)

lemma spec_immediate_mirror:
  assumes "sound a" and "spec_immediate cid oid sd price hl qty a = (a', rs, us)"
  shows "fold update_book us (mirror_of a) = mirror_of a'"
  using assms match_book_mirror by (auto simp: spec_immediate_def split: if_splits prod.splits)

lemma spec_cancel_mirror:
  assumes "sound a" and "spec_cancel cid oid a = (a', rs, us)"
  shows "fold update_book us (mirror_of a) = mirror_of a'"
proof (cases "own_order cid oid a")
  case (Some r)
  then show ?thesis
    using assms unrest_mirror [OF _ Some] by (auto simp: spec_cancel_def update_book_def)
qed (use assms in \<open>auto simp: spec_cancel_def\<close>)

lemma requeue_mirror:
  assumes ok: "sound a" and own: "own_order cid oid a = Some r" and "q \<noteq> 0"
  shows "mirror_of (rest (mk_info oid cid (ab_symbol a) (bo_order_type r) (bo_side r) (bo_price r) q q now) (unrest r a)) =
    (mirror_of a)(oid \<mapsto> (entry_of r)\<lparr>se_qty := q\<rparr>)" (is "mirror_of (rest ?x _) = _")
proof -
  have "mirror_of (rest ?x (unrest r a)) = (mirror_of (unrest r a))(oid \<mapsto> entry_of ?x)"
    using rest_mirror [of "unrest r a" ?x] unrest_ok requeue_sound [OF assms] unrest_lookup_None [OF _ own] ok
    by (simp add: mk_info_def)
  then show ?thesis
    using unrest_mirror [OF _ own] ok own_orderD(2) [OF own] by (auto simp: entry_of_def mk_info_def)
qed

lemma spec_modify_mirror:
  assumes ok: "sound a" and own: "own_order cid oid a = Some r" and m: "spec_modify now cid oid p q a = (a', rs, us)"
  shows "fold update_book us (mirror_of a) =
    (if lookup_order oid a' = None then (mirror_of a')(oid \<mapsto> entry_of r) else mirror_of a')"
proof -
  have e: "mirror_of a oid = Some (entry_of r)" using mirror_own [OF _ own] ok by blast
  have there: "lookup_order oid a \<noteq> None" using own_orderD(4) [OF own] by simp
  have lim: "bo_order_type r = LIMIT" using own_order_side(2) [OF _ own] ok by (auto simp: order_ok_def)
  have unr: "sound (unrest r a)" "lookup_order oid (unrest r a) = None"
    using ok unrest_ok unrest_uncrossed unrest_lookup_None [OF _ own] by auto
  have restored: "(mirror_of (unrest r a))(oid \<mapsto> entry_of r) = mirror_of a"
    using unrest_mirror [OF _ own] ok e by (auto simp: fun_eq_iff)
  have changed: "update_book (mk_update MU_MODIFY oid sy sd pr q) (mirror_of a) = (mirror_of a)(oid \<mapsto> (entry_of r)\<lparr>se_qty := q\<rparr>)"
    for sy sd pr using e by (simp add: update_book_def)
  consider "bad_modify p q" | "\<not> bad_modify p q" "p \<noteq> bo_price r"
    | "\<not> bad_modify p q" "p = bo_price r" "q < bo_qty r"
    | "\<not> bad_modify p q" "p = bo_price r" "\<not> q < bo_qty r" "q > bo_qty r"
    | "\<not> bad_modify p q" "p = bo_price r" "q = bo_qty r"
    by force
  then show ?thesis
  proof cases
    case 2
    then have "match_and_rest now cid oid (bo_order_type r) (bo_side r) p q (unrest r a) = (a', tl rs, us)" "0 < p"
      using m own by (auto simp: spec_modify_def Let_def split: prod.splits)
    then show ?thesis using match_and_rest_mirror [OF unr _ lim, of p _ _ _ _ a' _ us "Some (entry_of r)"] restored by auto
  next
    case 3
    then have "a' = set_side (bo_side r = BUY) (update_qty oid q (side_orders (bo_side r = BUY) a)) a"
      "us = [mk_update MU_MODIFY oid (ab_symbol a) (bo_side r) (bo_price r) q]"
      using m own by (auto simp: spec_modify_def Let_def)
    moreover from this have "mirror_of a' = (mirror_of a)(oid \<mapsto> (entry_of r)\<lparr>se_qty := q\<rparr>)"
      using update_qty_mirror [OF ok own] 3 by simp
    moreover from this have "lookup_order oid a' \<noteq> None" using mirror_None [of a' oid] by simp
    ultimately show ?thesis using changed by (cases "lookup_order oid a'") simp_all
  next
    case 4
    then have "mirror_of a' = (mirror_of a)(oid \<mapsto> (entry_of r)\<lparr>se_qty := q\<rparr>)"
      "us = [mk_update MU_MODIFY oid (ab_symbol a) (bo_side r) (bo_price r) q]"
      using m own requeue_mirror [OF ok own] by (auto simp: spec_modify_def Let_def)
    moreover from this have "lookup_order oid a' \<noteq> None" using mirror_None [of a' oid] by simp
    ultimately show ?thesis using changed by (cases "lookup_order oid a'") simp_all
  qed (use m own there in \<open>auto simp: spec_modify_def Let_def\<close>)
qed


text \<open>One request: the mirror is exact, except for the entry of a repriced-away order.\<close>

lemma spec_request_mirror:
  assumes ok: "sound a" and s: "spec_request now req a = (a', rs, us)"
  shows "fold update_book us (mirror_of a) =
    (if repriced_away req a a'
     then (mirror_of a')(req_order_id req := map_option entry_of (own_order (req_client_id req) (req_order_id req) a))
     else mirror_of a')"
proof (cases "req_order_type req = MODIFY \<and> own_order (req_client_id req) (req_order_id req) a \<noteq> None")
  case False
  then have "fold update_book us (mirror_of a) = mirror_of a'"
    using s spec_limit_mirror [OF ok] spec_immediate_mirror [OF ok] spec_cancel_mirror [OF ok]
    by (cases "req_order_type req")
      (auto simp: spec_request_def spec_modify_def Let_def needs_price_def not_le split: if_splits)
  then show ?thesis using False by (auto simp: repriced_away_def)
next
  case True
  then obtain r where r: "own_order (req_client_id req) (req_order_id req) a = Some r" by blast
  show ?thesis
  proof (cases "us = [] \<and> a' = a")
    case True
    then show ?thesis using own_orderD(4) [OF r] by (simp add: repriced_away_def)
  next
    case False
    then have "spec_modify now (req_client_id req) (req_order_id req) (req_price req) (req_qty req) a = (a', rs, us)"
      using True s by (auto simp: spec_request_def Let_def split: if_splits)
    from spec_modify_mirror [OF ok r this] show ?thesis
      using True r by (simp add: repriced_away_def)
  qed
qed

text \<open>The service's view of one symbol.\<close>

definition mirrored :: "Symbol \<Rightarrow> BookSnapshotService \<Rightarrow> mirror_book" where
  "mirrored sy s = (case ss_mirror s sy of None \<Rightarrow> Map.empty | Some book \<Rightarrow> book)"

lemma snapshotFor_mirrored: "snapshotFor sy s = ran (mirrored sy s)"
  by (simp add: snapshotFor_def mirrored_def split: option.splits)

lemma mirrored_fold:
  assumes "\<And>u. u \<in> set us \<Longrightarrow> upd_symbol u = sy"
  shows "mirrored sy (fold applyUpdate us s) = fold update_book us (mirrored sy s)"
    and "sy' \<noteq> sy \<Longrightarrow> mirrored sy' (fold applyUpdate us s) = mirrored sy' s"
  using assms by (induction us arbitrary: s) (auto simp: applyUpdate_def mirrored_def Let_def)

lemma match_and_rest_symbols:
  assumes "match_and_rest now cid oid ot sd price qty a = (a', rs, us)" and "u \<in> set us"
  shows "upd_symbol u = ab_symbol a"
  using assms match_book_updates(2) by (auto simp: match_and_rest_def split: prod.splits if_splits)

lemma spec_request_symbols:
  assumes "spec_request now req a = (a', rs, us)" and "u \<in> set us"
  shows "upd_symbol u = ab_symbol a"
proof -
  have sy: "ab_symbol (unrest r a) = ab_symbol a" for r by (simp add: unrest_def Let_def)
  show ?thesis
    using assms match_and_rest_symbols match_book_updates(2) sy
    by (cases "req_order_type req")
      (fastforce simp: spec_request_def spec_limit_def spec_immediate_def spec_cancel_def spec_modify_def Let_def
        split: if_splits prod.splits option.splits)+
qed

lemma mirror_entries: "book_ok a \<Longrightarrow> ran (mirror_of a) = entry_of ` set (all_orders a)"
  by (simp add: mirror_of_def entries_def book_ok_def ran_distinct comp_def image_image)

section \<open>Runs of requests\<close>

fun never_repriced_away :: "(Nanos \<times> EngineOrderRequest) list \<Rightarrow> abook \<Rightarrow> bool" where
  "never_repriced_away [] a \<longleftrightarrow> True"
| "never_repriced_away (x # xs) a \<longleftrightarrow>
     (let a' = fst (spec_request (fst x) (snd x) a) in \<not> repriced_away (snd x) a a' \<and> never_repriced_away xs a')"

lemma rest_symbol [simp]: "ab_symbol (rest x a) = ab_symbol a" "ab_symbol (unrest r a) = ab_symbol a"
  by (simp_all add: unrest_def rest_def Let_def)

lemma match_and_rest_symbol:
  "match_and_rest now cid oid ot sd p q a = (a', rs, us) \<Longrightarrow> ab_symbol a' = ab_symbol a"
  using match_book_symbol by (auto simp: match_and_rest_def split: prod.splits if_splits)

lemma spec_modify_symbol:
  assumes "spec_modify now cid oid p q a = (a', rs, us)"
  shows "ab_symbol a' = ab_symbol a"
proof (cases "own_order cid oid a")
  case (Some r)
  then show ?thesis
    using assms match_and_rest_symbol [of now cid oid "bo_order_type r" "bo_side r" p q "unrest r a"]
    by (auto simp: spec_modify_def Let_def split: if_splits prod.splits)
qed (use assms in \<open>simp add: spec_modify_def\<close>)

lemma spec_request_symbol:
  assumes "spec_request now req a = (a', rs, us)"
  shows "ab_symbol a' = ab_symbol a"
proof -
  have "spec_limit now cid oid sd p q a = (a', rs, us) \<Longrightarrow> ab_symbol a' = ab_symbol a" for cid oid sd p q
    using match_and_rest_symbol by (auto simp: spec_limit_def split: if_splits prod.splits)
  moreover have "spec_immediate cid oid sd p hl q a = (a', rs, us) \<Longrightarrow> ab_symbol a' = ab_symbol a" for cid oid sd p hl q
    using match_book_symbol by (auto simp: spec_immediate_def split: if_splits prod.splits)
  moreover have "spec_cancel cid oid a = (a', rs, us) \<Longrightarrow> ab_symbol a' = ab_symbol a" for cid oid
    by (auto simp: spec_cancel_def split: option.splits)
  ultimately show ?thesis
    using assms spec_modify_symbol by (cases "req_order_type req") (auto simp: spec_request_def Let_def split: if_splits)
qed

lemma spec_all_mirror:
  assumes "sound a" and "spec_all (\<lambda>(now, req). spec_request now req) xs a = (a', rs, us)" and "never_repriced_away xs a"
  shows "fold update_book us (mirror_of a) = mirror_of a' \<and> (\<forall>u\<in>set us. upd_symbol u = ab_symbol a) \<and> sound a'"
  using assms
proof (induction xs arbitrary: a rs us)
  case (Cons x xs)
  obtain now req where x: "x = (now, req)" by (cases x)
  obtain a1 rs1 us1 rs2 us2 where s: "spec_request now req a = (a1, rs1, us1)"
    "spec_all (\<lambda>(now, req). spec_request now req) xs a1 = (a', rs2, us2)" "us = us1 @ us2"
    using Cons.prems(2) x by (auto split: prod.splits)
  have nr: "\<not> repriced_away req a a1" "never_repriced_away xs a1" using Cons.prems(3) x s(1) by (simp_all add: Let_def)
  have "fold update_book us1 (mirror_of a) = mirror_of a1" using spec_request_mirror [OF Cons.prems(1) s(1)] nr(1) by simp
  moreover have "fold update_book us2 (mirror_of a1) = mirror_of a' \<and> (\<forall>u\<in>set us2. upd_symbol u = ab_symbol a1) \<and> sound a'"
    using Cons.IH [OF spec_request_sound [OF Cons.prems(1) s(1)] s(2) nr(2)] .
  ultimately show ?case
    using s(3) spec_request_symbol [OF s(1)] spec_request_symbols [OF s(1)] by auto
qed simp

lemma snapshot_run_once_ok:
  assumes "queue_inv q"
  shows "\<exists>q' s' log. snapshot_run_once now1 now2 q s = Inr (q', s', log) \<and> contents q' = [] \<and>
    ss_mirror s' = ss_mirror (fold applyUpdate (contents q) s)"
proof -
  obtain q' where "drain applyUpdate q s = Inr (q', fold applyUpdate (contents q) s)" "contents q' = []"
    using drain_contents_inv [OF assms, of applyUpdate s] by blast
  then show ?thesis
    by (cases "now1 - ss_last_snapshot_time (fold applyUpdate (contents q) s) > SNAPSHOT_INTERVAL_NANOS")
      (simp_all add: snapshot_run_once_def snapshot_timer_def Let_def)
qed

section \<open>Properties\<close>

text \<open>
  The snapshot service rebuilds the book from market data alone: after any run of requests
  with room in the pools, none of which reprices an order away, applying the published updates
  to a mirror that agreed with the book before makes it agree with the book after: the snapshot of
  the symbol holds exactly one entry per resting order, with its side, price and open quantity.
\<close>

lemma snapshot_mirrors_book:
  assumes "represents b a" and "sound a" and "pool_room (length xs) b a"
    and "spec_all (\<lambda>(now, req). spec_request now req) xs a = (a', rs, us)" and "never_repriced_away xs a"
    and "mirrored (bk_symbol b) s = mirror_of a" and "queue_inv q" and "contents q = us"
  shows "\<exists>b' q' s' log. run_all (\<lambda>(now, req). dispatch now req) xs b = Inr b' \<and> represents b' a' \<and>
    bk_update_queue b' = push_all us (bk_update_queue b) \<and>
    snapshot_run_once now1 now2 q s = Inr (q', s', log) \<and> contents q' = [] \<and>
    snapshotFor (bk_symbol b) s' = entry_of ` set (all_orders a')"
proof -
  obtain b' where b': "run_all (\<lambda>(now, req). dispatch now req) xs b = Inr b'" "represents b' a'" "effect b rs us b'"
    using engine.run_ok [OF assms(1,3,4)] by blast
  obtain q' s' log where s': "snapshot_run_once now1 now2 q s = Inr (q', s', log)" "contents q' = []"
    "ss_mirror s' = ss_mirror (fold applyUpdate us s)"
    using snapshot_run_once_ok [OF assms(7)] assms(8) by metis
  have m: "fold update_book us (mirror_of a) = mirror_of a'" "\<forall>u\<in>set us. upd_symbol u = bk_symbol b" "book_ok a'"
    using spec_all_mirror [OF assms(2,4,5)] represents_symbol [OF assms(1)] by auto
  have "mirrored (bk_symbol b) s' = mirrored (bk_symbol b) (fold applyUpdate us s)"
    using s'(3) by (simp add: mirrored_def)
  also have "\<dots> = mirror_of a'" using m(1,2) mirrored_fold(1) [of us "bk_symbol b" s] assms(6) by simp
  finally show ?thesis
    using b' s'(1,2) mirror_entries [OF m(3)]
    by (intro exI [of _ b'] exI [of _ q'] exI [of _ s'] exI [of _ log]) (simp add: effect_def snapshotFor_mirrored)
qed

text \<open>
  C33 A resting order that is repriced and fills completely leaves a phantom in the market data:
  the order is gone from the book, but the updates published for the request leave its old entry
  in the snapshot.
\<close>

theorem repriced_away_order_stays_in_snapshot:
  assumes "represents b a" and "sound a" and "fits b a" and "spec_request now req a = (a', rs, us)"
    and "repriced_away req a a'" and "own_order (req_client_id req) (req_order_id req) a = Some r"
    and "mirrored (bk_symbol b) s = mirror_of a"
  shows "\<exists>b'. dispatch now req b = Inr b' \<and> represents b' a' \<and> bk_update_queue b' = push_all us (bk_update_queue b) \<and>
    lookup_order (req_order_id req) a' = None \<and> entry_of r \<in> snapshotFor (bk_symbol b) (fold applyUpdate us s)"
proof -
  obtain b' where b': "dispatch now req b = Inr b'" "represents b' a'" "effect b rs us b'"
    using dispatch_ok [OF assms(1), of now req] assms(3,4) by (cases "dispatch now req b") auto
  have "mirrored (bk_symbol b) (fold applyUpdate us s) = (mirror_of a')(req_order_id req \<mapsto> entry_of r)"
    using mirrored_fold(1) [of us "bk_symbol b" s] spec_request_symbols [OF assms(4)] represents_symbol [OF assms(1)]
      spec_request_mirror [OF assms(2,4)] assms(5-7) by simp
  then show ?thesis
    using b' assms(5) by (auto simp: effect_def snapshotFor_mirrored repriced_away_def ran_def intro!: exI)
qed

theorem repriced_away_order_stays_in_snapshot_witness:
  "\<exists>b b' a' us. represents b sample_book \<and> dispatch 5 (sample_request MODIFY 3 14 SELL 99 8) b = Inr b' \<and> represents b' a' \<and>
     lookup_order 14 a' = None \<and> entry_of (mk_info 14 3 ''ACME'' LIMIT SELL 105 8 8 4) \<in>
       snapshotFor ''ACME'' (fold applyUpdate us \<lparr>ss_mirror = [''ACME'' \<mapsto> mirror_of sample_book], ss_last_snapshot_time = 0\<rparr>)"
proof -
  obtain b where b: "represents b sample_book" "pool_room 8 b sample_book" using sample_exists by blast
  let ?req = "sample_request MODIFY 3 14 SELL 99 8" and ?r = "mk_info 14 3 ''ACME'' LIMIT SELL 105 8 8 4"
  let ?s = "\<lparr>ss_mirror = [''ACME'' \<mapsto> mirror_of sample_book], ss_last_snapshot_time = 0\<rparr>"
  have f: "fits b sample_book" using b(2) room_fits by (metis numeral_eq_Suc)
  obtain a' rs us where sp: "spec_request 5 ?req sample_book = (a', rs, us)" using prod_cases3 by blast
  have "repriced_away ?req sample_book (fst (spec_request 5 ?req sample_book))" by code_simp
  then have away: "repriced_away ?req sample_book a'" using sp by simp
  have own: "own_order (req_client_id ?req) (req_order_id ?req) sample_book = Some ?r" by code_simp
  have sy: "bk_symbol b = ''ACME''" "req_order_id ?req = 14"
    using represents_symbol [OF b(1)] by (simp_all add: sample_book_def sample_request_def)
  have mir: "mirrored (bk_symbol b) ?s = mirror_of sample_book" using sy(1) by (simp add: mirrored_def)
  show ?thesis
    using repriced_away_order_stays_in_snapshot [OF b(1) sample_sound f sp away own mir] b(1) unfolding sy by blast
qed

text \<open>
  One pass of the feed hands every waiting update of every symbol to every subscriber, in queue
  order, copies all of them in the same order to the snapshot service, and leaves the queues empty.
\<close>

lemma feed_delivers_every_update:
  assumes "\<forall>q\<in>set qs. read_inv q"
  shows "\<exists>qs'. feed_run_once qs (fd, w) =
      Inr (qs', fd\<lparr>fd_snapshot_feed := push_all (concat (map contents qs)) (fd_snapshot_feed fd)\<rparr>,
           fold (broadcast (fd_subscribers fd)) (concat (map contents qs)) w) \<and>
    map contents qs' = map (\<lambda>_. []) qs"
  by (rule feed_run_once_ok) (use assms in blast)

end
