(* ===== verification/Gateway.thy ===== *)
theory Gateway
  imports MatchingCore
begin

text \<open>
  The entry of the exchange: the sequencer of exchange/order_server/request_sequencer.h, which
  sorts the buffered requests by receive time and hands them to a router, and the gateway of
  exchange/order_server/order_server.h with its inbox and its drain of the response queues.

  \<open>std::sort\<close> promises a permutation that is sorted by the comparison and nothing about elements
  that compare equal. The model takes the sort as an argument \<open>srt\<close>; \<open>sort_contract\<close> is that
  promise for the comparison by receive time.
\<close>

section \<open>The sequencer\<close>

definition MAX_PENDING_GATEWAY_REQUESTS :: nat where "MAX_PENDING_GATEWAY_REQUESTS = 8192"

text \<open>The used prefix of the array \<open>pending_\<close>; the router and the state it changes are arguments.\<close>

record RequestSequencer =
  sq_pending :: "EngineOrderRequest list"

type_synonym sort_fun = "EngineOrderRequest list \<Rightarrow> EngineOrderRequest list"
type_synonym 'm router = "EngineOrderRequest \<Rightarrow> 'm \<Rightarrow> 'm"

definition sequencer_flush :: "sort_fun \<Rightarrow> 'm router \<Rightarrow> RequestSequencer \<times> 'm \<Rightarrow> RequestSequencer \<times> 'm" where
  "sequencer_flush srt router = (\<lambda>(sq, m).
     if sq_pending sq = [] then (sq, m)
     else (sq\<lparr>sq_pending := []\<rparr>, fold router (srt (sq_pending sq)) m))"

definition isFull :: "nat \<Rightarrow> RequestSequencer \<Rightarrow> bool" where
  "isFull cap sq \<longleftrightarrow> length (sq_pending sq) \<ge> cap"

definition sequencer_enqueue ::
  "nat \<Rightarrow> sort_fun \<Rightarrow> 'm router \<Rightarrow> Nanos \<Rightarrow> EngineOrderRequest \<Rightarrow> RequestSequencer \<times> 'm \<Rightarrow> RequestSequencer \<times> 'm" where
  "sequencer_enqueue cap srt router rx_time request s =
     (let (sq, m) = (if isFull cap (fst s) then sequencer_flush srt router s else s);
          tagged = request\<lparr>req_recv_time := rx_time\<rparr> in
      (sq\<lparr>sq_pending := sq_pending sq @ [tagged]\<rparr>, m))"

section \<open>The gateway\<close>

text \<open>An inbox entry is a receive time and the request as it was submitted.\<close>

record 'w OrderGatewayServer =
  gw_sequencer :: RequestSequencer
  gw_inbox :: "(Nanos \<times> EngineOrderRequest) list"
  gw_response_callback :: "(EngineOrderResponse \<Rightarrow> 'w \<Rightarrow> 'w) option"

definition new_OrderGatewayServer :: "'w OrderGatewayServer" where
  "new_OrderGatewayServer = \<lparr>gw_sequencer = \<lparr>sq_pending = []\<rparr>, gw_inbox = [], gw_response_callback = None\<rparr>"

definition onResponse :: "(EngineOrderResponse \<Rightarrow> 'w \<Rightarrow> 'w) \<Rightarrow> 'w OrderGatewayServer \<Rightarrow> 'w OrderGatewayServer" where
  "onResponse callback gw = gw\<lparr>gw_response_callback := Some callback\<rparr>"

definition submit :: "Nanos \<Rightarrow> EngineOrderRequest \<Rightarrow> 'w OrderGatewayServer \<Rightarrow> 'w OrderGatewayServer" where
  "submit now request gw = gw\<lparr>gw_inbox := gw_inbox gw @ [(now, request)]\<rparr>"

definition drainInbox ::
  "nat \<Rightarrow> sort_fun \<Rightarrow> 'm router \<Rightarrow> 'w OrderGatewayServer \<times> 'm \<Rightarrow> 'w OrderGatewayServer \<times> 'm" where
  "drainInbox cap srt router = (\<lambda>(gw, m).
     if gw_inbox gw = [] then (gw, m)
     else
       let batch = gw_inbox gw;
           (sq, m) = fold (\<lambda>(rx_time, request). sequencer_enqueue cap srt router rx_time request) batch
                       (gw_sequencer gw, m) in
       (gw\<lparr>gw_inbox := [], gw_sequencer := sq\<rparr>, m))"

text \<open>The first two calls of the gateway's loop body: drain the inbox, then flush the sequencer.\<close>

definition sequence_pass ::
  "nat \<Rightarrow> sort_fun \<Rightarrow> 'm router \<Rightarrow> 'w OrderGatewayServer \<times> 'm \<Rightarrow> 'w OrderGatewayServer \<times> 'm" where
  "sequence_pass cap srt router s =
     (let (gw, m) = drainInbox cap srt router s;
          (sq, m) = sequencer_flush srt router (gw_sequencer gw, m) in
      (gw\<lparr>gw_sequencer := sq\<rparr>, m))"

definition deliver :: "'w OrderGatewayServer \<Rightarrow> EngineOrderResponse \<Rightarrow> 'w \<Rightarrow> 'w" where
  "deliver gw resp w = (case gw_response_callback gw of None \<Rightarrow> w | Some callback \<Rightarrow> callback resp w)"

text \<open>Drain every response queue in turn.\<close>

fun drainResponses ::
  "'w OrderGatewayServer \<Rightarrow> EngineOrderResponse LFQueue list \<Rightarrow> 'w \<Rightarrow> (EngineOrderResponse LFQueue list \<times> 'w) result"
where
  "drainResponses gw [] w = Inr ([], w)"
| "drainResponses gw (queue # queues) w =
     rbind (drain (deliver gw) queue w) (\<lambda>(q', w).
     rbind (drainResponses gw queues w) (\<lambda>(qs', w). Inr (q' # qs', w)))"

section \<open>The contract of the sort\<close>

definition by_recv_time :: "EngineOrderRequest list \<Rightarrow> bool" where
  "by_recv_time rs \<longleftrightarrow> sorted_wrt (\<lambda>a b. \<not> req_recv_time b < req_recv_time a) rs"

definition sort_contract :: "sort_fun \<Rightarrow> bool" where
  "sort_contract srt \<longleftrightarrow> (\<forall>rs. mset (srt rs) = mset rs \<and> by_recv_time (srt rs))"

text \<open>A request as the sequencer stores it.\<close>

definition tag :: "Nanos \<times> EngineOrderRequest \<Rightarrow> EngineOrderRequest" where
  "tag = (\<lambda>(rx_time, request). request\<lparr>req_recv_time := rx_time\<rparr>)"

definition enqueue_batch ::
  "nat \<Rightarrow> sort_fun \<Rightarrow> 'm router \<Rightarrow> (Nanos \<times> EngineOrderRequest) list \<Rightarrow> RequestSequencer \<times> 'm \<Rightarrow> RequestSequencer \<times> 'm" where
  "enqueue_batch cap srt router batch =
     fold (\<lambda>(rx_time, request). sequencer_enqueue cap srt router rx_time request) batch"

lemma enqueue_batch_simps [simp]:
  "enqueue_batch cap srt router [] s = s"
  "enqueue_batch cap srt router (b # batch) s =
     enqueue_batch cap srt router batch (sequencer_enqueue cap srt router (fst b) (snd b) s)"
  by (simp_all add: enqueue_batch_def split: prod.splits)

lemma tag_pair: "tag b = (snd b)\<lparr>req_recv_time := fst b\<rparr>"
  by (simp add: tag_def split: prod.splits)

lemma enqueue_batch_fits:
  "length (sq_pending sq) + length batch \<le> cap \<Longrightarrow>
     enqueue_batch cap srt router batch (sq, m) = (sq\<lparr>sq_pending := sq_pending sq @ map tag batch\<rparr>, m)"
  by (induction batch arbitrary: sq) (auto simp: sequencer_enqueue_def isFull_def tag_pair)

lemma sequence_pass_eq:
  assumes "gw_sequencer gw = \<lparr>sq_pending = []\<rparr>"
  shows "sequence_pass cap srt router (gw, m) =
    (gw\<lparr>gw_inbox := []\<rparr>, snd (sequencer_flush srt router (enqueue_batch cap srt router (gw_inbox gw) (\<lparr>sq_pending = []\<rparr>, m))))"
proof -
  have flush: "sequencer_flush srt router s = (\<lparr>sq_pending = []\<rparr>, snd (sequencer_flush srt router s))" for s
    by (cases s) (auto simp: sequencer_flush_def)
  show ?thesis
    using assms flush [of "enqueue_batch cap srt router (gw_inbox gw) (\<lparr>sq_pending = []\<rparr>, m)"]
    by (cases gw; cases "gw_inbox gw = []")
      (auto simp: sequence_pass_def drainInbox_def enqueue_batch_def [symmetric] sequencer_flush_def split: prod.splits)
qed

locale request_sort =
  fixes srt :: sort_fun
  assumes contract: "sort_contract srt"
begin

lemma srt_mset [simp]: "mset (srt rs) = mset rs"
  using contract by (simp add: sort_contract_def)

lemma srt_sorted [simp]: "by_recv_time (srt rs)"
  using contract by (simp add: sort_contract_def)

lemma srt_Nil [simp]: "srt [] = []"
  using srt_mset [of "[]"] by (simp del: srt_mset)

text \<open>With distinct receive times there is only one sorted order.\<close>

lemma srt_unique:
  assumes "distinct (map req_recv_time rs)"
  shows "srt rs = sort_key req_recv_time rs"
proof -
  have "sorted (map req_recv_time (srt rs))"
    using srt_sorted [of rs] by (simp add: by_recv_time_def sorted_map not_less)
  moreover have "inj_on req_recv_time (set rs)" using assms by (simp add: distinct_map)
  ultimately show ?thesis
    using sort_key_inj_key_eq [of rs "srt rs" req_recv_time] by simp
qed

text \<open>A pass routes a permutation of the inbox, whatever its size.\<close>

lemma flush_routes:
  "\<exists>ys. snd (sequencer_flush srt router (sq, m)) = fold router ys m \<and> mset ys = mset (sq_pending sq)"
  by (rule exI [of _ "srt (sq_pending sq)"]) (auto simp: sequencer_flush_def)

lemma enqueue_batch_routes:
  "\<exists>ys sq'. enqueue_batch cap srt router batch (sq, m) = (sq', fold router ys m) \<and>
     mset ys + mset (sq_pending sq') = mset (sq_pending sq) + mset (map tag batch)"
proof (induction batch arbitrary: sq m)
  case Nil
  show ?case by (rule exI [of _ "[]"]) simp
next
  case (Cons b batch)
  obtain zs sq1 where step: "sequencer_enqueue cap srt router (fst b) (snd b) (sq, m) = (sq1, fold router zs m)"
    "mset zs + mset (sq_pending sq1) = mset (sq_pending sq) + {#tag b#}"
  proof (cases "isFull cap sq \<and> sq_pending sq \<noteq> []")
    case True
    then show ?thesis
      using that [of "\<lparr>sq_pending = [tag b]\<rparr>" "srt (sq_pending sq)"]
      by (simp add: sequencer_enqueue_def sequencer_flush_def tag_pair)
  next
    case False
    then show ?thesis
      using that [of "sq\<lparr>sq_pending := sq_pending sq @ [tag b]\<rparr>" "[]"]
      by (auto simp: sequencer_enqueue_def sequencer_flush_def tag_pair)
  qed
  obtain ys sq' where IH: "enqueue_batch cap srt router batch (sq1, fold router zs m) = (sq', fold router (zs @ ys) m)"
    "mset ys + mset (sq_pending sq') = mset (sq_pending sq1) + mset (map tag batch)"
    using Cons.IH [of sq1 "fold router zs m"] by auto
  have "mset (zs @ ys) + mset (sq_pending sq') = (mset zs + mset (sq_pending sq1)) + mset (map tag batch)"
    using IH(2) by (simp add: union_assoc)
  then show ?case
    using step IH(1) by (intro exI [of _ "zs @ ys"] exI [of _ sq']) simp
qed

lemma sequence_pass_routes:
  assumes "gw_sequencer gw = \<lparr>sq_pending = []\<rparr>"
  shows "\<exists>ys. sequence_pass cap srt router (gw, m) = (gw\<lparr>gw_inbox := []\<rparr>, fold router ys m) \<and>
    mset ys = mset (map tag (gw_inbox gw))"
proof -
  obtain ys sq' where e: "enqueue_batch cap srt router (gw_inbox gw) (\<lparr>sq_pending = []\<rparr>, m) = (sq', fold router ys m)"
    "mset ys + mset (sq_pending sq') = mset (map tag (gw_inbox gw))"
    using enqueue_batch_routes [of cap router "gw_inbox gw" "\<lparr>sq_pending = []\<rparr>" m] by auto
  obtain zs where "snd (sequencer_flush srt router (sq', fold router ys m)) = fold router zs (fold router ys m)"
    "mset zs = mset (sq_pending sq')"
    using flush_routes [of router sq' "fold router ys m"] by blast
  then show ?thesis
    using e sequence_pass_eq [OF assms, of cap srt router m] by (intro exI [of _ "ys @ zs"]) simp
qed

text \<open>An inbox that fits into the buffer is routed in receive-time order.\<close>

lemma sequence_pass_sorted:
  assumes "gw_sequencer gw = \<lparr>sq_pending = []\<rparr>" and "length (gw_inbox gw) \<le> cap"
  shows "sequence_pass cap srt router (gw, m) = (gw\<lparr>gw_inbox := []\<rparr>, fold router (srt (map tag (gw_inbox gw))) m)"
  using sequence_pass_eq [OF assms(1), of cap srt router m] assms(2)
    enqueue_batch_fits [of "\<lparr>sq_pending = []\<rparr>" "gw_inbox gw" cap srt router m]
  by (simp add: sequencer_flush_def)

end

text \<open>A sort that meets the contract: the stable sort of the library.\<close>

lemma sort_key_contract: "sort_contract (sort_key req_recv_time)"
proof -
  have "sorted (map req_recv_time (sort_key req_recv_time rs))" for rs :: "EngineOrderRequest list" by simp
  then show ?thesis by (simp add: sort_contract_def by_recv_time_def not_less sorted_map)
qed

interpretation stable: request_sort "sort_key req_recv_time"
  by unfold_locales (rule sort_key_contract)

section \<open>Routing a sequence of requests\<close>

definition for_symbol :: "Symbol \<Rightarrow> EngineOrderRequest list \<Rightarrow> EngineOrderRequest list" where
  "for_symbol sy rs = filter (\<lambda>r. req_symbol r = sy) rs"

lemma for_symbol_simps [simp]:
  "for_symbol sy [] = []" "for_symbol sy (r # rs) = (if req_symbol r = sy then r # for_symbol sy rs else for_symbol sy rs)"
  by (simp_all add: for_symbol_def)

lemma fold_routeRequest:
  "mc_contexts (fold routeRequest rs mc) sy =
     map_option (\<lambda>ctx. ctx\<lparr>ctx_request_queue := push_all (for_symbol sy rs) (ctx_request_queue ctx)\<rparr>) (mc_contexts mc sy)"
  "mc_unknown_symbol_responses (fold routeRequest rs mc) =
     push_all (map reject_of (filter (\<lambda>r. mc_contexts mc (req_symbol r) = None) rs)) (mc_unknown_symbol_responses mc)"
proof (induction rs arbitrary: mc)
  case (Cons r rs)
  { case 1
    show ?case
      using Cons(1) [of "routeRequest r mc"]
      by (cases "mc_contexts mc sy") (auto simp: routeRequest_def split: option.splits)
  next
    case 2
    have "mc_contexts (routeRequest r mc) s = None \<longleftrightarrow> mc_contexts mc s = None" for s
      by (auto simp: routeRequest_def split: option.splits)
    then show ?case
      using Cons(2) [of "routeRequest r mc"]
      by (auto simp: routeRequest_def publishReject_def split: option.splits) }
qed (simp_all add: map_option.id [unfolded id_def])

section \<open>Draining the responses\<close>

lemma drainResponses_ok:
  assumes "\<And>q. q \<in> set qs \<Longrightarrow> read_inv q"
  shows "\<exists>qs'. drainResponses gw qs w = Inr (qs', fold (deliver gw) (concat (map contents qs)) w) \<and>
    map contents qs' = map (\<lambda>_. []) qs"
  using assms
proof (induction qs arbitrary: w)
  case (Cons q qs)
  obtain q' where "drain (deliver gw) q w = Inr (q', fold (deliver gw) (contents q) w)" "contents q' = []"
    using drain_contents [of q "deliver gw" w] Cons.prems by auto
  then show ?case using Cons.IH [of "fold (deliver gw) (contents q) w"] Cons.prems by auto
qed simp

text \<open>Another sort that meets the contract: equal receive times come out in reverse.\<close>

definition reversing_sort :: sort_fun where
  "reversing_sort rs = rev (sort_key (\<lambda>r. - req_recv_time r) rs)"

lemma reversing_sort_contract: "sort_contract reversing_sort"
proof -
  have "sorted (map (\<lambda>r. - req_recv_time r) (sort_key (\<lambda>r. - req_recv_time r) rs))" for rs :: "EngineOrderRequest list" by simp
  then show ?thesis
    by (simp add: sort_contract_def by_recv_time_def not_less sorted_map reversing_sort_def sorted_wrt_rev)
qed

interpretation reversing: request_sort reversing_sort
  by unfold_locales (rule reversing_sort_contract)

section \<open>Properties\<close>

text \<open>
  The gateway loses and duplicates nothing: whatever the size of the inbox and whichever order the
  sort gives equal receive times, one pass hands every submitted request to the router exactly once,
  stamped with its receive time, and leaves inbox and sequencer empty.
\<close>

lemma gateway_routes_every_request:
  assumes "sort_contract srt" and "gw_sequencer gw = \<lparr>sq_pending = []\<rparr>"
  shows "\<exists>ys. sequence_pass cap srt router (gw, m) = (gw\<lparr>gw_inbox := []\<rparr>, fold router ys m) \<and>
    mset ys = mset (map tag (gw_inbox gw))"
  using request_sort.sequence_pass_routes [OF request_sort.intro [OF assms(1)] assms(2)] .

text \<open>
  C13 A backlog that fits into the sequencer's buffer is routed in receive-time order, and a request
  enters the queue of its own symbol in that order; requests for unknown symbols are answered with
  REJECTED on the queue reserved for them. With pairwise different receive times the result does not
  depend on the sort: it is the one of the stable sort.
\<close>

theorem gateway_sequences_by_receive_time:
  assumes "sort_contract srt" and "gw_sequencer gw = \<lparr>sq_pending = []\<rparr>"
    and "length (gw_inbox gw) \<le> MAX_PENDING_GATEWAY_REQUESTS"
  shows "\<exists>ys mc'. sequence_pass MAX_PENDING_GATEWAY_REQUESTS srt routeRequest (gw, mc) = (gw\<lparr>gw_inbox := []\<rparr>, mc') \<and>
    mset ys = mset (map tag (gw_inbox gw)) \<and> by_recv_time ys \<and>
    (distinct (map fst (gw_inbox gw)) \<longrightarrow> ys = sort_key req_recv_time (map tag (gw_inbox gw))) \<and>
    (\<forall>sy. mc_contexts mc' sy =
       map_option (\<lambda>ctx. ctx\<lparr>ctx_request_queue := push_all (for_symbol sy ys) (ctx_request_queue ctx)\<rparr>) (mc_contexts mc sy)) \<and>
    mc_unknown_symbol_responses mc' =
      push_all (map reject_of (filter (\<lambda>r. mc_contexts mc (req_symbol r) = None) ys)) (mc_unknown_symbol_responses mc)"
proof -
  have s: "request_sort srt" using assms(1) by (rule request_sort.intro)
  let ?ys = "srt (map tag (gw_inbox gw))"
  have "map req_recv_time (map tag (gw_inbox gw)) = map fst (gw_inbox gw)" by (simp add: tag_pair)
  then have "distinct (map fst (gw_inbox gw)) \<Longrightarrow> ?ys = sort_key req_recv_time (map tag (gw_inbox gw))"
    using request_sort.srt_unique [OF s, of "map tag (gw_inbox gw)"] by metis
  then show ?thesis
    using request_sort.sequence_pass_sorted [OF s assms(2,3), of routeRequest mc]
      request_sort.srt_mset [OF s] request_sort.srt_sorted [OF s] fold_routeRequest [of ?ys mc]
    by (intro exI [of _ ?ys] exI [of _ "fold routeRequest ?ys mc"]) simp
qed

theorem gateway_sequences_by_receive_time_witness:
  "\<exists>mc'. sequence_pass MAX_PENDING_GATEWAY_REQUESTS reversing_sort routeRequest
      (submit 3 (EngineOrderRequest_default\<lparr>req_order_id := 1\<rparr>)
        (submit 7 EngineOrderRequest_default (new_OrderGatewayServer :: unit OrderGatewayServer)),
       mk_core 4 4 4 [''A'']) = (new_OrderGatewayServer, mc') \<and>
    mc_unknown_symbol_responses mc' =
      push_all [reject_of (EngineOrderRequest_default\<lparr>req_order_id := 1, req_recv_time := 3\<rparr>),
        reject_of (EngineOrderRequest_default\<lparr>req_recv_time := 7\<rparr>)] (new_LFQueue 4 EngineOrderResponse_default)"
proof -
  let ?gw = "submit 3 (EngineOrderRequest_default\<lparr>req_order_id := 1\<rparr>)
    (submit 7 EngineOrderRequest_default (new_OrderGatewayServer :: unit OrderGatewayServer))"
  let ?mc = "mk_core 4 4 4 [''A'']"
  have gw: "gw_sequencer ?gw = \<lparr>sq_pending = []\<rparr>" "length (gw_inbox ?gw) \<le> MAX_PENDING_GATEWAY_REQUESTS"
    "?gw\<lparr>gw_inbox := []\<rparr> = new_OrderGatewayServer" "distinct (map fst (gw_inbox ?gw))"
    "gw_inbox ?gw = [(7, EngineOrderRequest_default), (3, EngineOrderRequest_default\<lparr>req_order_id := 1\<rparr>)]"
    by (simp_all add: submit_def new_OrderGatewayServer_def MAX_PENDING_GATEWAY_REQUESTS_def)
  have mc: "mc_contexts ?mc [] = None" "mc_unknown_symbol_responses ?mc = new_LFQueue 4 EngineOrderResponse_default"
    by (simp_all add: mk_core_def add_symbol_def Let_def)
  obtain ys mc' where "sequence_pass MAX_PENDING_GATEWAY_REQUESTS reversing_sort routeRequest (?gw, ?mc) = (new_OrderGatewayServer, mc')"
    "ys = sort_key req_recv_time (map tag (gw_inbox ?gw))"
    "mc_unknown_symbol_responses mc' =
      push_all (map reject_of (filter (\<lambda>r. mc_contexts ?mc (req_symbol r) = None) ys)) (mc_unknown_symbol_responses ?mc)"
    using gateway_sequences_by_receive_time [OF reversing_sort_contract gw(1,2), of ?mc] gw(3,4) by metis
  moreover have "sort_key req_recv_time (map tag (gw_inbox ?gw)) =
      [EngineOrderRequest_default\<lparr>req_order_id := 1, req_recv_time := 3\<rparr>, EngineOrderRequest_default\<lparr>req_recv_time := 7\<rparr>]"
    unfolding gw(5) by (simp add: tag_def)
  moreover have "req_symbol EngineOrderRequest_default = []" by (simp add: EngineOrderRequest_default_def)
  ultimately show ?thesis
    using mc by (intro exI [of _ mc']) simp
qed

text \<open>
  Requests with the same receive time have no order of their own: two sorts that both keep the
  promise of \<open>std::sort\<close> route the same inbox differently, so that arrival order does not decide.
\<close>

lemma equal_receive_times_are_unordered:
  assumes "gw_sequencer gw = \<lparr>sq_pending = []\<rparr>" and "gw_inbox gw = [(t, r1), (t, r2)]"
    and "tag (t, r1) \<noteq> tag (t, r2)" and "2 \<le> cap"
  shows "\<exists>srt srt'. sort_contract srt \<and> sort_contract srt' \<and>
    sequence_pass cap srt (\<lambda>r out. out @ [r]) (gw, []) = (gw\<lparr>gw_inbox := []\<rparr>, [tag (t, r1), tag (t, r2)]) \<and>
    sequence_pass cap srt' (\<lambda>r out. out @ [r]) (gw, []) = (gw\<lparr>gw_inbox := []\<rparr>, [tag (t, r2), tag (t, r1)])"
proof -
  have "length (gw_inbox gw) \<le> cap" using assms(2,4) by simp
  then show ?thesis
    using sort_key_contract reversing_sort_contract assms(2)
      stable.sequence_pass_sorted [OF assms(1), of cap "\<lambda>r out. out @ [r]" "[]"]
      reversing.sequence_pass_sorted [OF assms(1), of cap "\<lambda>r out. out @ [r]" "[]"]
    by (intro exI [of _ "sort_key req_recv_time"] exI [of _ reversing_sort])
      (simp add: tag_def reversing_sort_def)
qed

text \<open>
  C38 Receive-time order holds within one flush only. When the buffer is full the sequencer routes what
  it holds before it takes the next request: after exactly as many requests as the buffer has slots, a
  request that was received before all of them is still routed last.
\<close>

theorem full_buffer_breaks_receive_order:
  assumes "sort_contract srt" and "gw_sequencer gw = \<lparr>sq_pending = []\<rparr>"
    and "gw_inbox gw = batch @ [late]" and "length batch = cap" and "0 < cap"
    and "\<forall>b \<in> set batch. fst late < fst b"
  shows "\<exists>ys. sequence_pass cap srt router (gw, m) = (gw\<lparr>gw_inbox := []\<rparr>, fold router (ys @ [tag late]) m) \<and>
    mset ys = mset (map tag batch) \<and> \<not> by_recv_time (ys @ [tag late])"
proof -
  have s: "request_sort srt" using assms(1) by (rule request_sort.intro)
  let ?ys = "srt (map tag batch)"
  have one: "srt [r] = [r]" for r using request_sort.srt_mset [OF s, of "[r]"] by simp
  have set: "set ?ys = set (map tag batch)" using request_sort.srt_mset [OF s] mset_eq_setD by metis
  have "enqueue_batch cap srt router (batch @ [late]) (\<lparr>sq_pending = []\<rparr>, m) =
      (\<lparr>sq_pending = [tag late]\<rparr>, fold router ?ys m)"
    using enqueue_batch_fits [of "\<lparr>sq_pending = []\<rparr>" batch cap srt router m] assms(4,5)
    by (auto simp: enqueue_batch_def sequencer_enqueue_def sequencer_flush_def isFull_def tag_pair split: prod.splits)
  then have pass: "sequence_pass cap srt router (gw, m) = (gw\<lparr>gw_inbox := []\<rparr>, fold router (?ys @ [tag late]) m)"
    using sequence_pass_eq [OF assms(2), of cap srt router m] assms(3) by (simp add: sequencer_flush_def one)
  obtain b where "b \<in> set batch" using assms(4,5) by (cases batch) auto
  then have "tag b \<in> set ?ys \<and> req_recv_time (tag late) < req_recv_time (tag b)"
    using set assms(6) by (auto simp: tag_pair)
  then have "\<not> by_recv_time (?ys @ [tag late])" by (auto simp: by_recv_time_def sorted_wrt_append)
  then show ?thesis using pass request_sort.srt_mset [OF s] by blast
qed

theorem full_buffer_breaks_receive_order_witness:
  "\<exists>ys. sequence_pass 2 (sort_key req_recv_time) (\<lambda>r out. out @ [r])
      (fold (\<lambda>t. submit t EngineOrderRequest_default) [8, 9, 5] (new_OrderGatewayServer :: unit OrderGatewayServer), []) =
     (new_OrderGatewayServer, ys) \<and> \<not> by_recv_time ys"
proof -
  let ?gw = "fold (\<lambda>t. submit t EngineOrderRequest_default) [8, 9, 5] (new_OrderGatewayServer :: unit OrderGatewayServer)"
  let ?batch = "[(8, EngineOrderRequest_default), (9, EngineOrderRequest_default)]"
  have log: "fold (\<lambda>r out. out @ [r]) ys zs = zs @ ys" for ys zs :: "EngineOrderRequest list"
    by (induction ys arbitrary: zs) simp_all
  have gw: "gw_sequencer ?gw = \<lparr>sq_pending = []\<rparr>" "gw_inbox ?gw = ?batch @ [(5, EngineOrderRequest_default)]"
    "?gw\<lparr>gw_inbox := []\<rparr> = new_OrderGatewayServer"
    by (simp_all add: submit_def new_OrderGatewayServer_def)
  obtain ys where "sequence_pass 2 (sort_key req_recv_time) (\<lambda>r out. out @ [r]) (?gw, []) = (new_OrderGatewayServer, ys)"
    "\<not> by_recv_time ys"
    using full_buffer_breaks_receive_order [OF sort_key_contract gw(1,2), of 2 "\<lambda>r out. out @ [r]" "[]"] gw(3)
    unfolding log append_Nil by auto
  then show ?thesis by blast
qed

text \<open>
  The receive time is taken before the inbox is locked: a request that was stamped earlier but
  reaches the inbox after a pass is routed after a request with a later receive time.
\<close>

lemma late_submission_is_overtaken:
  assumes "sort_contract srt" and "gw_sequencer gw = \<lparr>sq_pending = []\<rparr>" and "gw_inbox gw = []"
    and "t1 < t2" and "0 < cap"
    and "sequence_pass cap srt router (submit t2 r2 gw, m) = (gw', m')"
  shows "sequence_pass cap srt router (submit t1 r1 gw', m') = (gw, router (tag (t1, r1)) (router (tag (t2, r2)) m))"
proof -
  have s: "request_sort srt" using assms(1) by (rule request_sort.intro)
  have one: "srt [r] = [r]" for r using request_sort.srt_mset [OF s, of "[r]"] by simp
  have pass: "sequence_pass cap srt router (submit t r gw, n) = (gw, router (tag (t, r)) n)" for t r n
    using request_sort.sequence_pass_sorted [OF s, of "submit t r gw" cap router n] assms(2,3,5)
    by (cases gw) (simp add: submit_def one)
  have "gw' = gw" "m' = router (tag (t2, r2)) m" using assms(6) by (simp_all add: pass)
  then show ?thesis by (simp add: pass)
qed

text \<open>
  Every waiting response reaches the registered callback: one drain runs through the response
  queues in order, hands each element of each queue over once and in queue order, and empties them.
\<close>

lemma gateway_delivers_every_response:
  assumes "\<forall>q \<in> set qs. read_inv q" and "gw_response_callback gw = Some callback"
  shows "\<exists>qs'. drainResponses gw qs w = Inr (qs', fold callback (concat (map contents qs)) w) \<and>
    map contents qs' = map (\<lambda>_. []) qs"
proof -
  have "deliver gw = callback" using assms(2) by (simp add: deliver_def fun_eq_iff)
  then show ?thesis using drainResponses_ok [of qs gw w] assms(1) by metis
qed

end
