(* ===== verification/Csv.thy ===== *)
theory Csv
  imports Types
begin

text \<open>
  The input side of exchange/exchange_main.cpp: splitting a CSV line into fields, the numeric
  conversions of the standard library (\<open>std::stoull\<close>, \<open>std::stoll\<close>) with their exceptions, parsing a
  line into a request, reading all lines, and collecting the symbols in the order they are first
  seen.
\<close>

section \<open>Fields\<close>

fun parseType :: "string \<Rightarrow> OrderType" where
  "parseType s =
     (if s = ''LIMIT'' then LIMIT else if s = ''MARKET'' then MARKET else if s = ''IOC'' then IOC
      else if s = ''CANCEL'' then CANCEL else if s = ''MODIFY'' then MODIFY else OT_INVALID)"

fun parseSide :: "string \<Rightarrow> Side" where
  "parseSide s = (if s = ''BUY'' then BUY else if s = ''SELL'' then SELL else Side_INVALID)"

text \<open>
  \<open>std::getline(ss, field, ',')\<close> extracts up to the next comma or the end of the text, and fails
  when nothing is left to extract: a comma at the very end does not open another field.
\<close>

function splitFields :: "string \<Rightarrow> string list" where
  "splitFields line =
     (if line = [] then []
      else takeWhile (\<lambda>c. c \<noteq> CHR '','') line #
        (case dropWhile (\<lambda>c. c \<noteq> CHR '','') line of [] \<Rightarrow> [] | _ # rest \<Rightarrow> splitFields rest))"
  by pat_completeness auto

termination
proof (relation "measure length")
  fix line :: string and c rest
  assume "dropWhile (\<lambda>c. c \<noteq> CHR '','') line = c # rest"
  then have "length (c # rest) \<le> length line" by (metis length_dropWhile_le)
  then show "(rest, line) \<in> measure length" by simp
qed simp

declare splitFields.simps [simp del]

section \<open>Numeric conversions\<close>

datatype parse_error = InvalidArgument | OutOfRange

definition is_digit :: "char \<Rightarrow> bool" where
  "is_digit c \<longleftrightarrow> 48 \<le> (of_char c :: nat) \<and> (of_char c :: nat) \<le> 57"

definition is_space :: "char \<Rightarrow> bool" where
  "is_space c \<longleftrightarrow> (of_char c :: nat) = 32 \<or> (9 \<le> (of_char c :: nat) \<and> (of_char c :: nat) \<le> 13)"

definition digits_value :: "string \<Rightarrow> nat" where
  "digits_value ds = foldl (\<lambda>n c. 10 * n + (of_char c - 48)) 0 ds"

text \<open>
  The text that \<open>strtoull\<close> and \<open>strtoll\<close> accept in base ten: white space, an optional sign, digits.
  What follows is ignored. \<open>None\<close> when there is no digit.
\<close>

definition scan_number :: "string \<Rightarrow> (bool \<times> nat) option" where
  "scan_number s =
     (let s = dropWhile is_space s;
          (neg, s) = (case s of c # t \<Rightarrow> if c = CHR ''-'' then (True, t) else if c = CHR ''+'' then (False, t) else (False, s)
                      | [] \<Rightarrow> (False, []));
          ds = takeWhile is_digit s in
      if ds = [] then None else Some (neg, digits_value ds))"

text \<open>A negative number is negated in the unsigned type.\<close>

definition stoull :: "string \<Rightarrow> parse_error + 64 word" where
  "stoull s =
     (case scan_number s of
        None \<Rightarrow> Inl InvalidArgument
      | Some (neg, n) \<Rightarrow>
          if n \<ge> 2 ^ 64 then Inl OutOfRange else Inr (if neg then - word_of_nat n else word_of_nat n))"

definition stoll :: "string \<Rightarrow> parse_error + int" where
  "stoll s =
     (case scan_number s of
        None \<Rightarrow> Inl InvalidArgument
      | Some (neg, n) \<Rightarrow>
          let i = (if neg then - int n else int n) in
          if i < - (2 ^ 63) \<or> i \<ge> 2 ^ 63 then Inl OutOfRange else Inr i)"

section \<open>Lines\<close>

fun ebind :: "'e + 'a \<Rightarrow> ('a \<Rightarrow> 'e + 'b) \<Rightarrow> 'e + 'b" where
  "ebind (Inl e) f = Inl e"
| "ebind (Inr x) f = f x"

text \<open>\<open>None\<close> when \<open>parseLine\<close> returns false; an exception of a conversion leaves the function.\<close>

definition parseLine :: "string \<Rightarrow> parse_error + EngineOrderRequest option" where
  "parseLine line =
     (if line = [] \<or> hd line = CHR ''#'' then Inr None
      else
        let fields = splitFields line in
        if length fields \<noteq> 7 then Inr None
        else
          let order_type = parseType (fields ! 0) in
          if order_type = OT_INVALID then Inr None
          else
            ebind (stoull (fields ! 1)) (\<lambda>client_id.
            ebind (stoull (fields ! 3)) (\<lambda>order_id.
            ebind (stoll (fields ! 5)) (\<lambda>price.
            ebind (stoull (fields ! 6)) (\<lambda>qty.
            Inr (Some \<lparr>req_order_type = order_type, req_client_id = client_id, req_symbol = fields ! 2,
              req_order_id = order_id, req_side = parseSide (fields ! 4), req_price = price, req_qty = qty,
              req_recv_time = 0\<rparr>))))))"

text \<open>
  The read loop of \<open>main\<close>: the parsed orders and the lines reported as malformed. An exception is
  not caught, so it ends the program.
\<close>

fun read_orders :: "string list \<Rightarrow> parse_error + (EngineOrderRequest list \<times> string list)" where
  "read_orders [] = Inr ([], [])"
| "read_orders (line # lines) =
     ebind (parseLine line) (\<lambda>r.
     ebind (read_orders lines) (\<lambda>(orders, skipped).
     Inr (case r of
            Some req \<Rightarrow> (req # orders, skipped)
          | None \<Rightarrow> (orders, if line \<noteq> [] \<and> hd line \<noteq> CHR ''#'' then line # skipped else skipped))))"

text \<open>The symbols that need a book, in first-seen order.\<close>

definition symbols_of :: "EngineOrderRequest list \<Rightarrow> Symbol list" where
  "symbols_of orders =
     foldl (\<lambda>symbols r. if req_symbol r \<in> set symbols then symbols else symbols @ [req_symbol r]) [] orders"

lemma symbols_of_fold:
  "distinct acc \<Longrightarrow>
     distinct (foldl (\<lambda>symbols r. if req_symbol r \<in> set symbols then symbols else symbols @ [req_symbol r]) acc orders) \<and>
     set (foldl (\<lambda>symbols r. if req_symbol r \<in> set symbols then symbols else symbols @ [req_symbol r]) acc orders) =
       set acc \<union> req_symbol ` set orders"
  by (induction orders arbitrary: acc) auto

lemma symbols_of_ok: "distinct (symbols_of orders)" "set (symbols_of orders) = req_symbol ` set orders"
  using symbols_of_fold [of "[]" orders] by (simp_all add: symbols_of_def)

section \<open>Printing and parsing are inverse\<close>

text \<open>The line that describes a request in the format of the input file.\<close>

definition csv_line :: "EngineOrderRequest \<Rightarrow> string" where
  "csv_line r =
     orderTypeToString (req_order_type r) @ '','' @ show_u64 (req_client_id r) @ '','' @ req_symbol r @ '','' @
     show_u64 (req_order_id r) @ '','' @ sideToString (req_side r) @ '','' @ show_i64 (req_price r) @ '','' @
     show_u64 (req_qty r)"

lemma splitFields_field:
  assumes "CHR '','' \<notin> set f"
  shows "splitFields (f @ CHR '','' # rest) = f # splitFields rest" and "f \<noteq> [] \<Longrightarrow> splitFields f = [f]"
proof -
  have all: "\<forall>c\<in>set f. c \<noteq> CHR '',''" using assms by auto
  then have "takeWhile (\<lambda>c. c \<noteq> CHR '','') (f @ CHR '','' # rest) = f"
    "dropWhile (\<lambda>c. c \<noteq> CHR '','') (f @ CHR '','' # rest) = CHR '','' # rest"
    by (simp_all add: takeWhile_append2 dropWhile_append2)
  then show "splitFields (f @ CHR '','' # rest) = f # splitFields rest"
    by (subst splitFields.simps) simp
  show "splitFields f = [f]" if "f \<noteq> []"
    using all that by (subst splitFields.simps) (simp add: takeWhile_eq_all_conv [THEN iffD2] dropWhile_eq_Nil_conv [THEN iffD2])
qed

lemma digit_char:
  assumes "n < 10"
  shows "is_digit (char_of (48 + n))" "of_char (char_of (48 + n) :: char) = (48 + n :: nat)"
proof -
  show v: "of_char (char_of (48 + n) :: char) = (48 + n :: nat)"
    using assms by (simp add: of_char_of)
  show "is_digit (char_of (48 + n))" using v assms by (simp add: is_digit_def)
qed

lemma show_nat_digits: "(\<forall>c\<in>set (show_nat n). is_digit c) \<and> show_nat n \<noteq> [] \<and> digits_value (show_nat n) = n"
proof (induction n rule: show_nat.induct)
  case (1 n)
  show ?case
  proof (cases "n < 10")
    case True
    then show ?thesis using digit_char [of n] by (subst (1 2 3) show_nat.simps) (simp add: digits_value_def)
  next
    case False
    have "n mod 10 < 10" by simp
    with False 1 digit_char [of "n mod 10"] show ?thesis
      by (subst (1 2 3) show_nat.simps) (auto simp: digits_value_def)
  qed
qed

lemma digit_not:
  assumes "is_digit c"
  shows "\<not> is_space c" "c \<noteq> CHR ''-''" "c \<noteq> CHR ''+''" "c \<noteq> CHR '',''"
  using assms by (auto simp: is_digit_def is_space_def)

lemma scan_digits:
  assumes "\<forall>c\<in>set ds. is_digit c" and "ds \<noteq> []"
  shows "scan_number ds = Some (False, digits_value ds)" "scan_number (CHR ''-'' # ds) = Some (True, digits_value ds)"
proof -
  obtain c t where ds: "ds = c # t" using assms(2) by (cases ds) auto
  have tw: "takeWhile is_digit ds = ds" using assms(1) by (simp add: takeWhile_eq_all_conv)
  have c: "is_digit c" using assms(1) ds by simp
  show "scan_number ds = Some (False, digits_value ds)"
    using tw digit_not [OF c] c ds by (simp add: scan_number_def Let_def takeWhile_eq_all_conv [THEN iffD2])
  have "\<not> is_space (CHR ''-'')" by (simp add: is_space_def)
  then show "scan_number (CHR ''-'' # ds) = Some (True, digits_value ds)"
    using assms(2) by (simp add: scan_number_def Let_def tw)
qed

lemma stoull_show: "stoull (show_u64 w) = Inr w"
  using show_nat_digits [of "unat w"] scan_digits(1) [of "show_nat (unat w)"] unsigned_less [of w, where ?'a = nat]
  by (simp add: stoull_def show_u64_def)

lemma stoll_show:
  assumes "- (2 ^ 63) \<le> i" and "i < 2 ^ 63"
  shows "stoll (show_i64 i) = Inr i"
  using assms show_nat_digits [of "nat i"] show_nat_digits [of "nat (- i)"]
    scan_digits(1) [of "show_nat (nat i)"] scan_digits(2) [of "show_nat (nat (- i))"]
  by (auto simp: stoll_def show_i64_def Let_def)

lemma no_comma:
  "CHR '','' \<notin> set (show_u64 w)" "CHR '','' \<notin> set (show_i64 i)"
  "CHR '','' \<notin> set (orderTypeToString ot)" "CHR '','' \<notin> set (sideToString sd)"
proof -
  show "CHR '','' \<notin> set (show_u64 w)" using show_nat_digits digit_not(4) by (auto simp: show_u64_def)
  show "CHR '','' \<notin> set (show_i64 i)" using show_nat_digits digit_not(4) by (auto simp: show_i64_def)
  show "CHR '','' \<notin> set (orderTypeToString ot)" by (cases ot) auto
  show "CHR '','' \<notin> set (sideToString sd)" by (cases sd) auto
qed

lemma parse_show: "parseType (orderTypeToString ot) = ot" "parseSide (sideToString sd) = sd"
proof -
  show "parseType (orderTypeToString ot) = ot" by (cases ot) simp_all
  show "parseSide (sideToString sd) = sd" by (cases sd) simp_all
qed

lemma csv_fields:
  assumes "CHR '','' \<notin> set (req_symbol r)"
  shows "splitFields (csv_line r) =
    [orderTypeToString (req_order_type r), show_u64 (req_client_id r), req_symbol r, show_u64 (req_order_id r),
     sideToString (req_side r), show_i64 (req_price r), show_u64 (req_qty r)]"
proof -
  have "show_u64 (req_qty r) \<noteq> []" using show_nat_digits by (simp add: show_u64_def)
  then show ?thesis
    using assms by (simp add: csv_line_def splitFields_field no_comma)
qed

lemma parseLine_csv:
  assumes "req_order_type r \<noteq> OT_INVALID" and "CHR '','' \<notin> set (req_symbol r)"
    and "- (2 ^ 63) \<le> req_price r" and "req_price r < 2 ^ 63"
  shows "parseLine (csv_line r) = Inr (Some (r\<lparr>req_recv_time := 0\<rparr>))"
proof -
  have "csv_line r \<noteq> [] \<and> hd (csv_line r) \<noteq> CHR ''#''"
    by (cases "req_order_type r") (simp_all add: csv_line_def)
  then show ?thesis
    using assms csv_fields [OF assms(2)] stoll_show [OF assms(3,4)]
    by (simp add: parseLine_def stoull_show parse_show del: parseType.simps parseSide.simps)
qed

section \<open>Properties\<close>

text \<open>
  C31 The input format is complete and parsing inverts it: for every request with a valid type, a
  symbol without commas and a 64-bit price, the line that describes it parses to that request
  (with receive time zero, set later by the gateway).
\<close>

theorem parse_print_roundtrip:
  assumes "req_order_type r \<noteq> OT_INVALID" and "CHR '','' \<notin> set (req_symbol r)"
    and "- (2 ^ 63) \<le> req_price r" and "req_price r < 2 ^ 63"
  shows "parseLine (csv_line r) = Inr (Some (r\<lparr>req_recv_time := 0\<rparr>))"
  using assms by (rule parseLine_csv)

definition sample_line_request :: EngineOrderRequest where
  "sample_line_request = \<lparr>req_order_type = LIMIT, req_client_id = 1, req_symbol = ''ACME'', req_order_id = 42,
     req_side = BUY, req_price = 100, req_qty = 10, req_recv_time = 7\<rparr>"

theorem parse_print_roundtrip_witness:
  "parseLine ''LIMIT,1,ACME,42,BUY,100,10'' = Inr (Some (sample_line_request\<lparr>req_recv_time := 0\<rparr>))"
proof -
  have "csv_line sample_line_request = ''LIMIT,1,ACME,42,BUY,100,10''" by code_simp
  then show ?thesis
    using parse_print_roundtrip [of sample_line_request] by (simp add: sample_line_request_def)
qed

lemma read_orders_first_error:
  assumes "\<forall>l \<in> set pre. \<exists>r. parseLine l = Inr r" and "parseLine line = Inl e"
  shows "read_orders (pre @ line # post) = Inl e"
  using assms
proof (induction pre)
  case (Cons l pre)
  then show ?case by (cases "parseLine l") auto
qed simp

lemma parseLine_error:
  assumes "line \<noteq> []" and "hd line \<noteq> CHR ''#''" and "splitFields line = [ty, client, sy, oid, sd, pr, q]" and "parseType ty \<noteq> OT_INVALID"
    and "stoull client = Inl x \<or> stoull oid = Inl x \<or> stoll pr = Inl x \<or> stoull q = Inl x"
  shows "\<exists>e. (stoull client = Inl e \<or> stoull oid = Inl e \<or> stoll pr = Inl e \<or> stoull q = Inl e) \<and> parseLine line = Inl e"
  using assms
  by (cases "stoull client"; cases "stoull oid"; cases "stoll pr"; cases "stoull q") (auto simp: parseLine_def simp del: parseType.simps)

text \<open>
  C40 One bad number ends the program: a line that is no comment and has seven fields and an order type, but a
  client id, order id, price or quantity that cannot be converted, because it has no digits or does not fit into 64
  bits, is not skipped. When the lines before it convert, reading ends at this line with an exception that
  one of its fields raises, whatever comes after it.
\<close>

theorem bad_number_aborts_reading:
  assumes "\<forall>l \<in> set pre. \<exists>r. parseLine l = Inr r"
    and "line \<noteq> []" and "hd line \<noteq> CHR ''#''" and "splitFields line = [ty, client, sy, oid, sd, pr, q]" and "parseType ty \<noteq> OT_INVALID"
    and "stoull client = Inl x \<or> stoull oid = Inl x \<or> stoll pr = Inl x \<or> stoull q = Inl x"
  shows "\<exists>e. (stoull client = Inl e \<or> stoull oid = Inl e \<or> stoll pr = Inl e \<or> stoull q = Inl e) \<and>
    read_orders (pre @ line # post) = Inl e"
  using parseLine_error [OF assms(2-6)] read_orders_first_error [OF assms(1)] by blast

theorem bad_number_aborts_reading_witness:
  "read_orders ([''# orders''] @ ''LIMIT,1,ACME,43,BUY,abc,10'' # [''LIMIT,1,ACME,42,BUY,100,10'']) = Inl InvalidArgument"
proof -
  have "scan_number ''abc'' = None" "scan_number ''1'' = Some (False, 1)" "scan_number ''43'' = Some (False, 43)"
    "scan_number ''10'' = Some (False, 10)" by code_simp+
  then have n: "stoull ''1'' = Inr 1" "stoull ''43'' = Inr 43" "stoll ''abc'' = Inl InvalidArgument" "stoull ''10'' = Inr 10"
    by (simp_all add: stoull_def stoll_def)
  have f: "splitFields ''LIMIT,1,ACME,43,BUY,abc,10'' = [''LIMIT'', ''1'', ''ACME'', ''43'', ''BUY'', ''abc'', ''10'']" by code_simp
  have c: "\<forall>l \<in> set [''# orders'']. \<exists>r. parseLine l = Inr r" by (simp add: parseLine_def)
  show ?thesis
    using bad_number_aborts_reading [OF c _ _ f, of InvalidArgument "[''LIMIT,1,ACME,42,BUY,100,10'']"] by (auto simp: n)
qed

text \<open>
  A negative number is not refused in an unsigned field: it wraps around modulo 2 to the 64th,
  so that quantity -1 is the reserved invalid quantity.
\<close>

lemma negative_quantity_wraps:
  assumes "\<forall>c\<in>set ds. is_digit c" and "ds \<noteq> []" and "digits_value ds < 2 ^ 64"
  shows "stoull (CHR ''-'' # ds) = Inr (- word_of_nat (digits_value ds))"
  using assms(3) scan_digits(2) [OF assms(1,2)] by (simp add: stoull_def)

end
