(* ===== verification/System.thy ===== *)
theory System
  imports MarketData Gateway Csv
begin

text \<open>
  The running exchange of exchange/exchange_main.cpp: gateway, matching core, feed and snapshot
  service wired together, and the steps its threads take in any order. A step is one submission,
  one pass of the sequencer, one call of the router, one iteration of a matching thread, one
  element taken off a response, update or snapshot queue, or one look at the snapshot timer; the threads' loops are sequences of such
  steps. The main result is that, as long as no queue overflows, every interleaving gives each
  symbol the effects of processing its routed requests one after the other.
\<close>

section \<open>State\<close>

text \<open>
  \<open>ex_routing\<close> holds the requests of a sequencer pass that the gateway thread has not yet handed to
  the router: the router is called for one request at a time, while the matching threads run. The
  world of the two callbacks that \<open>main\<close> registers are its vectors of text lines.
\<close>

record Exchange =
  ex_gateway :: "string list OrderGatewayServer"
  ex_routing :: "EngineOrderRequest list"
  ex_core :: MatchingCore
  ex_feed :: "string list MarketDataFeed"
  ex_snapshots :: BookSnapshotService
  ex_response_lines :: "string list"
  ex_update_lines :: "string list"

definition response_callback :: "EngineOrderResponse \<Rightarrow> string list \<Rightarrow> string list" where
  "response_callback r response_lines = response_lines @ [EngineOrderResponse_toString r]"

definition update_callback :: "BookUpdate \<Rightarrow> string list \<Rightarrow> string list" where
  "update_callback u update_lines = update_lines @ [BookUpdate_toString u]"

text \<open>The objects of \<open>main\<close>, wired together; the sizes of queues and pools are arguments.\<close>

definition mk_exchange :: "nat \<Rightarrow> nat \<Rightarrow> nat \<Rightarrow> nat \<Rightarrow> Symbol list \<Rightarrow> Exchange" where
  "mk_exchange queue_size n_orders n_levels feed_size symbols =
     \<lparr>ex_gateway = onResponse response_callback new_OrderGatewayServer, ex_routing = [],
      ex_core = mk_core queue_size n_orders n_levels symbols,
      ex_feed = subscribe update_callback \<lparr>fd_subscribers = [], fd_snapshot_feed = new_LFQueue feed_size BookUpdate_default\<rparr>,
      ex_snapshots = \<lparr>ss_mirror = Map.empty, ss_last_snapshot_time = 0\<rparr>,
      ex_response_lines = [], ex_update_lines = []\<rparr>"

section \<open>The queues behind the recorded pointers\<close>

text \<open>
  Reading and writing through an element of \<open>responseQueues()\<close> or \<open>updateQueues()\<close>. The pointer to the
  queue of a destroyed context is a bad pointer.
\<close>

fun response_queue :: "MatchingCore \<Rightarrow> queue_ref \<Rightarrow> EngineOrderResponse LFQueue result" where
  "response_queue mc (Of_Symbol sy) =
     (case mc_contexts mc sy of None \<Rightarrow> Inl BadPointer | Some ctx \<Rightarrow> Inr (bk_response_queue (ctx_book ctx)))"
| "response_queue mc Of_Unknown = Inr (mc_unknown_symbol_responses mc)"
| "response_queue mc Dangling = Inl BadPointer"

fun update_queue :: "MatchingCore \<Rightarrow> queue_ref \<Rightarrow> BookUpdate LFQueue result" where
  "update_queue mc (Of_Symbol sy) =
     (case mc_contexts mc sy of None \<Rightarrow> Inl BadPointer | Some ctx \<Rightarrow> Inr (bk_update_queue (ctx_book ctx)))"
| "update_queue mc Of_Unknown = Inl BadPointer"
| "update_queue mc Dangling = Inl BadPointer"

definition set_context :: "Symbol \<Rightarrow> SymbolContext \<Rightarrow> MatchingCore \<Rightarrow> MatchingCore" where
  "set_context sy ctx mc = mc\<lparr>mc_contexts := (mc_contexts mc)(sy \<mapsto> ctx)\<rparr>"

fun set_response_queue :: "queue_ref \<Rightarrow> EngineOrderResponse LFQueue \<Rightarrow> MatchingCore \<Rightarrow> MatchingCore" where
  "set_response_queue (Of_Symbol sy) q mc =
     (case mc_contexts mc sy of None \<Rightarrow> mc
      | Some ctx \<Rightarrow> set_context sy (ctx\<lparr>ctx_book := (ctx_book ctx)\<lparr>bk_response_queue := q\<rparr>\<rparr>) mc)"
| "set_response_queue Of_Unknown q mc = mc\<lparr>mc_unknown_symbol_responses := q\<rparr>"
| "set_response_queue Dangling q mc = mc"

fun set_update_queue :: "queue_ref \<Rightarrow> BookUpdate LFQueue \<Rightarrow> MatchingCore \<Rightarrow> MatchingCore" where
  "set_update_queue (Of_Symbol sy) q mc =
     (case mc_contexts mc sy of None \<Rightarrow> mc
      | Some ctx \<Rightarrow> set_context sy (ctx\<lparr>ctx_book := (ctx_book ctx)\<lparr>bk_update_queue := q\<rparr>\<rparr>) mc)"
| "set_update_queue Of_Unknown q mc = mc"
| "set_update_queue Dangling q mc = mc"

section \<open>Steps\<close>

text \<open>One round of a reader's loop: nothing on an empty queue, otherwise the body and the advance.\<close>

definition read_one :: "('a \<Rightarrow> 's \<Rightarrow> 's) \<Rightarrow> 'a LFQueue \<Rightarrow> 's \<Rightarrow> ('a LFQueue \<times> 's) result" where
  "read_one body q s =
     (case getNextToRead q of
        None \<Rightarrow> Inr (q, s)
      | Some x \<Rightarrow> rbind (updateReadIndex q) (\<lambda>q'. Inr (q', body x s)))"

text \<open>
  What the threads do. The index of \<open>Respond\<close> and \<open>Publish\<close> is the position of the queue in the list
  the reader was built with.
\<close>

datatype event =
    Submit Nanos EngineOrderRequest
  | Sequence
  | Route
  | Match Symbol Nanos
  | Respond nat
  | Publish nat
  | Apply
  | Timer Nanos Nanos

text \<open>A producer thread submits a request.\<close>

definition submit_step :: "Nanos \<Rightarrow> EngineOrderRequest \<Rightarrow> Exchange \<Rightarrow> Exchange" where
  "submit_step now req ex = ex\<lparr>ex_gateway := submit now req (ex_gateway ex)\<rparr>"

text \<open>
  The gateway thread drains the inbox and flushes the sequencer. The calls of the router are
  collected in the order they are made.
\<close>

definition sequence_step :: "nat \<Rightarrow> sort_fun \<Rightarrow> Exchange \<Rightarrow> Exchange" where
  "sequence_step cap srt ex =
     (let (gw, routed) = sequence_pass cap srt (\<lambda>r out. out @ [r]) (ex_gateway ex, ex_routing ex) in
      ex\<lparr>ex_gateway := gw, ex_routing := routed\<rparr>)"

text \<open>One call of the router that \<open>main\<close> gives to the gateway.\<close>

definition route_step :: "Exchange \<Rightarrow> Exchange" where
  "route_step ex =
     (case ex_routing ex of
        [] \<Rightarrow> ex
      | r # rs \<Rightarrow> ex\<lparr>ex_routing := rs, ex_core := routeRequest r (ex_core ex)\<rparr>)"

text \<open>One iteration of the matching thread of a symbol.\<close>

definition match_step :: "Symbol \<Rightarrow> Nanos \<Rightarrow> Exchange \<Rightarrow> Exchange result" where
  "match_step sy now ex =
     (case mc_contexts (ex_core ex) sy of
        None \<Rightarrow> Inr ex
      | Some ctx \<Rightarrow> rbind (run_step now ctx) (\<lambda>ctx'. Inr (ex\<lparr>ex_core := set_context sy ctx' (ex_core ex)\<rparr>)))"

text \<open>The gateway thread, the feed thread and the snapshot thread each take one element off a queue.\<close>

definition respond_step :: "nat \<Rightarrow> Exchange \<Rightarrow> Exchange result" where
  "respond_step i ex =
     (if i < length (mc_response_queues (ex_core ex)) then
        let ref = mc_response_queues (ex_core ex) ! i in
        rbind (response_queue (ex_core ex) ref) (\<lambda>q.
        rbind (read_one (deliver (ex_gateway ex)) q (ex_response_lines ex)) (\<lambda>(q', lines).
        Inr (ex\<lparr>ex_core := set_response_queue ref q' (ex_core ex), ex_response_lines := lines\<rparr>)))
      else Inr ex)"

definition publish_step :: "nat \<Rightarrow> Exchange \<Rightarrow> Exchange result" where
  "publish_step i ex =
     (if i < length (mc_update_queues (ex_core ex)) then
        let ref = mc_update_queues (ex_core ex) ! i in
        rbind (update_queue (ex_core ex) ref) (\<lambda>q.
        rbind (read_one feed_update q (ex_feed ex, ex_update_lines ex)) (\<lambda>(q', fd, lines).
        Inr (ex\<lparr>ex_core := set_update_queue ref q' (ex_core ex), ex_feed := fd, ex_update_lines := lines\<rparr>)))
      else Inr ex)"

definition apply_step :: "Exchange \<Rightarrow> Exchange result" where
  "apply_step ex =
     rbind (read_one applyUpdate (fd_snapshot_feed (ex_feed ex)) (ex_snapshots ex)) (\<lambda>(q', s).
     Inr (ex\<lparr>ex_feed := (ex_feed ex)\<lparr>fd_snapshot_feed := q'\<rparr>, ex_snapshots := s\<rparr>))"

text \<open>The end of an iteration of the snapshot thread: the timer, with the two readings of the clock.\<close>

definition timer_step :: "Nanos \<Rightarrow> Nanos \<Rightarrow> Exchange \<Rightarrow> Exchange" where
  "timer_step now1 now2 ex = ex\<lparr>ex_snapshots := fst (snapshot_timer now1 now2 (ex_snapshots ex))\<rparr>"

fun exchange_step :: "nat \<Rightarrow> sort_fun \<Rightarrow> event \<Rightarrow> Exchange \<Rightarrow> Exchange result" where
  "exchange_step cap srt (Submit now req) ex = Inr (submit_step now req ex)"
| "exchange_step cap srt Sequence ex = Inr (sequence_step cap srt ex)"
| "exchange_step cap srt Route ex = Inr (route_step ex)"
| "exchange_step cap srt (Match sy now) ex = match_step sy now ex"
| "exchange_step cap srt (Respond i) ex = respond_step i ex"
| "exchange_step cap srt (Publish i) ex = publish_step i ex"
| "exchange_step cap srt Apply ex = apply_step ex"
| "exchange_step cap srt (Timer now1 now2) ex = Inr (timer_step now1 now2 ex)"

section \<open>Runs without overflow\<close>

text \<open>
  The queues do not refuse a write, so a queue has overflowed exactly when it counts more elements
  than it has slots. Meant are the queues that connect the components: the request, response and update
  queues of the symbols, the responses to unknown symbols and the feed of the snapshots. The queues of
  the loggers belong to no component here; what overflow does to them is in \<open>LFQueue\<close> and \<open>LoggerLife\<close>.
  A run carries two histories: the requests that were submitted, with their
  receive times, and the requests that were routed, in order.
\<close>

definition ctx_no_overflow :: "SymbolContext \<Rightarrow> bool" where
  "ctx_no_overflow ctx \<longleftrightarrow>
     num_elements (ctx_request_queue ctx) \<le> capacity (ctx_request_queue ctx) \<and>
     num_elements (bk_response_queue (ctx_book ctx)) \<le> capacity (bk_response_queue (ctx_book ctx)) \<and>
     num_elements (bk_update_queue (ctx_book ctx)) \<le> capacity (bk_update_queue (ctx_book ctx))"

definition no_overflow :: "Symbol list \<Rightarrow> Exchange \<Rightarrow> bool" where
  "no_overflow symbols ex \<longleftrightarrow>
     list_all (\<lambda>sy. case mc_contexts (ex_core ex) sy of None \<Rightarrow> True | Some ctx \<Rightarrow> ctx_no_overflow ctx) symbols \<and>
     num_elements (mc_unknown_symbol_responses (ex_core ex)) \<le> capacity (mc_unknown_symbol_responses (ex_core ex)) \<and>
     num_elements (fd_snapshot_feed (ex_feed ex)) \<le> capacity (fd_snapshot_feed (ex_feed ex))"

fun submitted_by :: "event \<Rightarrow> EngineOrderRequest list" where
  "submitted_by (Submit now req) = [tag (now, req)]"
| "submitted_by _ = []"

fun routed_by :: "event \<Rightarrow> Exchange \<Rightarrow> EngineOrderRequest list" where
  "routed_by Route ex = take 1 (ex_routing ex)"
| "routed_by _ ex = []"

inductive exchange_run ::
  "nat \<Rightarrow> sort_fun \<Rightarrow> Symbol list \<Rightarrow> EngineOrderRequest list \<Rightarrow> EngineOrderRequest list \<Rightarrow> Exchange \<Rightarrow> bool"
  for cap srt symbols where
  start: "0 < qs \<Longrightarrow> 0 < no \<Longrightarrow> no < 2 ^ 64 \<Longrightarrow> 0 < nl \<Longrightarrow> 0 < fs \<Longrightarrow>
    exchange_run cap srt symbols [] [] (mk_exchange qs no nl fs symbols)"
| step: "exchange_run cap srt symbols subs log ex \<Longrightarrow> exchange_step cap srt ev ex = Inr ex' \<Longrightarrow> no_overflow symbols ex' \<Longrightarrow>
    exchange_run cap srt symbols (subs @ submitted_by ev) (log @ routed_by ev ex) ex'"

text \<open>Nothing is waiting between the inbox and the two callbacks.\<close>

definition quiet :: "Symbol list \<Rightarrow> Exchange \<Rightarrow> bool" where
  "quiet symbols ex \<longleftrightarrow>
     gw_inbox (ex_gateway ex) = [] \<and> ex_routing ex = [] \<and> num_elements (mc_unknown_symbol_responses (ex_core ex)) = 0 \<and>
     list_all (\<lambda>sy. case mc_contexts (ex_core ex) sy of None \<Rightarrow> True | Some ctx \<Rightarrow>
       num_elements (ctx_request_queue ctx) = 0 \<and> num_elements (bk_response_queue (ctx_book ctx)) = 0 \<and>
       num_elements (bk_update_queue (ctx_book ctx)) = 0) symbols"

text \<open>A list of events as an executable run.\<close>

fun run_events ::
  "nat \<Rightarrow> sort_fun \<Rightarrow> Symbol list \<Rightarrow> event list \<Rightarrow> EngineOrderRequest list \<times> EngineOrderRequest list \<times> Exchange
     \<Rightarrow> (EngineOrderRequest list \<times> EngineOrderRequest list \<times> Exchange) option" where
  "run_events cap srt symbols [] s = Some s"
| "run_events cap srt symbols (ev # evs) (subs, log, ex) =
     (case exchange_step cap srt ev ex of
        Inl e \<Rightarrow> None
      | Inr ex' \<Rightarrow>
          if no_overflow symbols ex' then run_events cap srt symbols evs (subs @ submitted_by ev, log @ routed_by ev ex, ex')
          else None)"

lemma run_events_run:
  "exchange_run cap srt symbols subs log ex \<Longrightarrow> run_events cap srt symbols evs (subs, log, ex) = Some (subs', log', ex') \<Longrightarrow>
     exchange_run cap srt symbols subs' log' ex'"
  by (induction evs arbitrary: subs log ex) (auto split: sum.splits if_splits intro: exchange_run.step)

section \<open>The program\<close>

text \<open>
  The rest of \<open>main\<close>: reading the orders (the program ends with status 1 when there are none), the
  exchange with the sizes of the source, submitting all orders, polling until no response has come
  in for fifteen polls, and the text of the report. The clock readings of the submissions and the
  sizes that the polls observe are arguments.
\<close>

definition main_orders :: "string list \<Rightarrow> parse_error + (EngineOrderRequest list \<times> Symbol list) option" where
  "main_orders lines =
     ebind (read_orders lines) (\<lambda>(orders, skipped).
     Inr (if orders = [] then None else Some (orders, symbols_of orders)))"

text \<open>
  How the program begins: it ends with status 1 without an argument, when the input file cannot be
  opened or when it holds no order; otherwise it goes on with the orders and their symbols. The
  argument \<open>files\<close> gives the lines of the files that can be opened.
\<close>

datatype main_begins = Exit_1 string | Goes_on "EngineOrderRequest list" "Symbol list"

definition main_begin :: "string list \<Rightarrow> (string \<rightharpoonup> string list) \<Rightarrow> parse_error + main_begins" where
  "main_begin argv files =
     (if length argv < 2 then Inr (Exit_1 (''usage: '' @ hd argv @ '' <orders.csv> [output.txt]''))
      else
        case files (argv ! 1) of
          None \<Rightarrow> Inr (Exit_1 (''could not open '' @ argv ! 1))
        | Some lines \<Rightarrow>
            ebind (main_orders lines) (\<lambda>r.
            Inr (case r of
                   None \<Rightarrow> Exit_1 (''no valid orders found in '' @ argv ! 1)
                 | Some (orders, symbols) \<Rightarrow> Goes_on orders symbols)))"

definition main_exchange :: "Symbol list \<Rightarrow> Exchange" where
  "main_exchange symbols = mk_exchange SYMBOL_QUEUE_SIZE MAX_RESTING_ORDERS MAX_PRICE_LEVELS SNAPSHOT_QUEUE_SIZE symbols"

definition main_submissions :: "Nanos list \<Rightarrow> EngineOrderRequest list \<Rightarrow> event list" where
  "main_submissions nows orders = map2 Submit nows orders"

lemma submitted_main: "concat (map submitted_by (main_submissions nows orders)) = map2 (\<lambda>now req. tag (now, req)) nows orders"
  unfolding main_submissions_def by (induction nows orders rule: list_induct2') simp_all

text \<open>The exchange of the program is one of the exchanges that runs start from.\<close>

lemma main_exchange_run: "exchange_run cap srt symbols [] [] (main_exchange symbols)"
  unfolding main_exchange_def
  by (rule exchange_run.start)
    (simp_all add: SYMBOL_QUEUE_SIZE_def MAX_RESTING_ORDERS_def MAX_PRICE_LEVELS_def SNAPSHOT_QUEUE_SIZE_def)

fun wait_idle :: "nat \<Rightarrow> nat \<Rightarrow> nat list \<Rightarrow> nat option" where
  "wait_idle last_seen idle_polls [] = (if idle_polls < 15 then None else Some last_seen)"
| "wait_idle last_seen idle_polls (seen # later) =
     (if idle_polls < 15 then
        if seen = last_seen then wait_idle last_seen (idle_polls + 1) later else wait_idle seen 0 later
      else Some last_seen)"

fun comma_separated :: "Symbol list \<Rightarrow> string" where
  "comma_separated [] = []"
| "comma_separated [sy] = sy"
| "comma_separated (sy # sys) = sy @ '','' @ comma_separated sys"

definition report :: "EngineOrderRequest list \<Rightarrow> Symbol list \<Rightarrow> Exchange \<Rightarrow> string" where
  "report orders symbols ex =
     ''orders read: '' @ show_nat (length orders) @ '', symbols: '' @ comma_separated symbols
     @ [CHR 0x0A, CHR 0x0A] @ ''--- responses ---'' @ [CHR 0x0A]
     @ concat (map (\<lambda>r. r @ [CHR 0x0A]) (ex_response_lines ex))
     @ [CHR 0x0A] @ ''--- book updates ---'' @ [CHR 0x0A]
     @ concat (map (\<lambda>u. u @ [CHR 0x0A]) (ex_update_lines ex))"

text \<open>Where the report goes: to the file named by the second argument if it can be opened, else to standard output.\<close>

datatype output_stream = Std_out | Output_file string

definition main_output :: "string list \<Rightarrow> (string \<Rightarrow> bool) \<Rightarrow> output_stream" where
  "main_output argv can_open = (if length argv \<ge> 3 \<and> can_open (argv ! 2) then Output_file (argv ! 2) else Std_out)"

end
