(* ===== verification/SystemInvariant.thy ===== *)
theory SystemInvariant
  imports System
begin

text \<open>
  The invariant of the running exchange and the proof that every step keeps it. Per symbol, a
  history of processed requests explains the book, the responses delivered or still queued, and the
  market updates published or still queued, as one sequential run of the specification; the
  unprocessed rest of the routed requests is the request queue.
\<close>

section \<open>Reading one element\<close>

lemma read_one_ok:
  assumes "queue_inv q"
  obtains q' xs where "read_one body q s = Inr (q', fold body xs s)" and "queue_inv q'" and "contents q = xs @ contents q'"
proof (cases "contents q")
  case Nil
  then have "read_one body q s = Inr (q, s)" using assms by (simp add: read_one_def getNextToRead_contents queue_inv_read_inv)
  then show ?thesis using that [of q "[]"] assms by simp
next
  case (Cons x xs)
  then obtain q' where q': "updateReadIndex q = Inr q'" "contents q' = xs" "queue_inv q'"
    using ring.adv_elems [OF assms Cons] by blast
  then have "read_one body q s = Inr (q', body x s)"
    using Cons assms by (simp add: read_one_def getNextToRead_contents queue_inv_read_inv)
  then show ?thesis using that [of q' "[x]"] Cons q' by simp
qed

lemma push_ok:
  assumes "queue_inv q" and "num_elements (push_all xs q) \<le> capacity (push_all xs q)"
  shows "queue_inv (push_all xs q)" and "contents (push_all xs q) = contents q @ xs"
  using assms by (simp_all add: push_all_inv push_all_contents)

section \<open>The symbol of a response\<close>

lemma match_orders_response_symbol:
  "match_orders sy cid oid sd beyond leaves os = (os', l', rs, us) \<Longrightarrow> r \<in> set rs \<Longrightarrow> rsp_symbol r = sy"
  by (induction sy cid oid sd beyond leaves os arbitrary: os' l' rs us rule: match_orders.induct)
    (auto simp: fill_responses_def Let_def split: if_splits prod.splits)

lemma match_book_response_symbol:
  "match_book cid oid sd lp hl q a = (l, a', rs, us) \<Longrightarrow> r \<in> set rs \<Longrightarrow> rsp_symbol r = ab_symbol a"
  using match_orders_response_symbol by (auto simp: match_book_def Let_def split: prod.splits)

lemma match_and_rest_response_symbol:
  "match_and_rest now cid oid ot sd p q a = (a', rs, us) \<Longrightarrow> r \<in> set rs \<Longrightarrow> rsp_symbol r = ab_symbol a"
  using match_book_response_symbol by (auto simp: match_and_rest_def split: prod.splits if_splits)

lemma spec_request_response_symbol:
  assumes "spec_request now req a = (a', rs, us)" and "r \<in> set rs" and "req_symbol req = ab_symbol a"
  shows "rsp_symbol r = ab_symbol a"
  using assms match_and_rest_response_symbol match_book_response_symbol
  by (cases "req_order_type req")
    (fastforce simp: spec_request_def spec_limit_def spec_immediate_def spec_cancel_def spec_modify_def Let_def
      reject_of_def reject_response_def split: if_splits prod.splits option.splits)+

lemma spec_all_snoc:
  "spec_all spec (xs @ [x]) a =
     (case spec_all spec xs a of (a1, rs1, us1) \<Rightarrow> case spec x a1 of (a2, rs2, us2) \<Rightarrow> (a2, rs1 @ rs2, us1 @ us2))"
  by (induction xs arbitrary: a) (auto split: prod.splits)

lemma spec_all_symbols:
  assumes "spec_all (\<lambda>(now, req). spec_request now req) hist a = (a', rs, us)"
    and "\<forall>x \<in> set hist. req_symbol (snd x) = ab_symbol a"
  shows "(\<forall>r \<in> set rs. rsp_symbol r = ab_symbol a) \<and> (\<forall>u \<in> set us. upd_symbol u = ab_symbol a) \<and> ab_symbol a' = ab_symbol a"
  using assms
proof (induction hist arbitrary: a rs us)
  case (Cons x hist)
  obtain a1 rs1 us1 rs2 us2 where s: "spec_request (fst x) (snd x) a = (a1, rs1, us1)"
    "spec_all (\<lambda>(now, req). spec_request now req) hist a1 = (a', rs2, us2)" "rs = rs1 @ rs2" "us = us1 @ us2"
    using Cons.prems(1) by (auto split: prod.splits)
  have "ab_symbol a1 = ab_symbol a" using spec_request_symbol [OF s(1)] .
  then show ?case
    using Cons.IH [OF s(2)] Cons.prems(2) s(3,4) spec_request_symbols [OF s(1)] spec_request_response_symbol [OF s(1)] by auto
qed simp

section \<open>The invariant\<close>

abbreviation of_symbol :: "Symbol \<Rightarrow> EngineOrderResponse list \<Rightarrow> EngineOrderResponse list" where
  "of_symbol sy \<equiv> filter (\<lambda>r. rsp_symbol r = sy)"

abbreviation updates_of :: "Symbol \<Rightarrow> BookUpdate list \<Rightarrow> BookUpdate list" where
  "updates_of sy \<equiv> filter (\<lambda>u. upd_symbol u = sy)"

definition sequential ::
  "Symbol \<Rightarrow> (Nanos \<times> EngineOrderRequest) list \<Rightarrow> abook \<Rightarrow> EngineOrderResponse list \<Rightarrow> BookUpdate list \<Rightarrow> bool" where
  "sequential sy hist a rs us \<longleftrightarrow> spec_all (\<lambda>(now, req). spec_request now req) hist (empty_abook sy) = (a, rs, us)"

definition symbol_inv ::
  "Symbol \<Rightarrow> EngineOrderRequest list \<Rightarrow> EngineOrderResponse list \<Rightarrow> BookUpdate list \<Rightarrow> SymbolContext \<Rightarrow> bool" where
  "symbol_inv sy log delivered published ctx \<longleftrightarrow>
     queue_inv (ctx_request_queue ctx) \<and> queue_inv (bk_response_queue (ctx_book ctx)) \<and> queue_inv (bk_update_queue (ctx_book ctx)) \<and>
     (\<exists>hist a. sequential sy hist a (of_symbol sy delivered @ contents (bk_response_queue (ctx_book ctx)))
         (updates_of sy published @ contents (bk_update_queue (ctx_book ctx))) \<and>
       map snd hist @ contents (ctx_request_queue ctx) = for_symbol sy log \<and> represents (ctx_book ctx) a)"

lemma for_symbol_append [simp]: "for_symbol sy (xs @ ys) = for_symbol sy xs @ for_symbol sy ys"
  by (simp add: for_symbol_def)

lemma for_symbol_set: "r \<in> set (for_symbol sy xs) \<Longrightarrow> req_symbol r = sy"
  by (simp add: for_symbol_def)

lemma sequential_symbols:
  assumes "sequential sy hist a rs us" and "map snd hist @ rest_reqs = for_symbol sy log"
  shows "(\<forall>r \<in> set rs. rsp_symbol r = sy) \<and> (\<forall>u \<in> set us. upd_symbol u = sy)"
proof -
  have "req_symbol (snd x) = sy" if "x \<in> set hist" for x
  proof -
    have "snd x \<in> set (map snd hist @ rest_reqs)" using that by simp
    then show ?thesis unfolding assms(2) by (rule for_symbol_set)
  qed
  then show ?thesis
    using spec_all_symbols [of hist "empty_abook sy" a rs us] assms(1) by (simp add: sequential_def empty_abook_def)
qed

lemma symbol_inv_route:
  assumes "symbol_inv sy log D P ctx" and "req_symbol r = sy"
    and "num_elements (push r (ctx_request_queue ctx)) \<le> capacity (push r (ctx_request_queue ctx))"
  shows "symbol_inv sy (log @ [r]) D P (ctx\<lparr>ctx_request_queue := push r (ctx_request_queue ctx)\<rparr>)"
proof -
  have "queue_inv (push r (ctx_request_queue ctx))" "contents (push r (ctx_request_queue ctx)) = contents (ctx_request_queue ctx) @ [r]"
    using push_ok [of "ctx_request_queue ctx" "[r]"] assms by (simp_all add: symbol_inv_def)
  then show ?thesis using assms(1,2) by (auto simp: symbol_inv_def)
qed

lemma symbol_inv_route_other: "symbol_inv sy log D P ctx \<Longrightarrow> req_symbol r \<noteq> sy \<Longrightarrow> symbol_inv sy (log @ [r]) D P ctx"
  by (simp add: symbol_inv_def)

lemma symbol_inv_match:
  assumes inv: "symbol_inv sy log D P ctx" and run: "run_step now ctx = Inr ctx'" and room: "ctx_no_overflow ctx'"
  shows "symbol_inv sy log D P ctx'"
proof (cases "contents (ctx_request_queue ctx)")
  case Nil
  then have "ctx' = ctx" using inv run by (simp add: symbol_inv_def run_step_def getNextToRead_contents queue_inv_read_inv)
  then show ?thesis using inv by simp
next
  case (Cons req reqs)
  let ?b = "ctx_book ctx" and ?q = "ctx_request_queue ctx"
  obtain hist a where h: "sequential sy hist a (of_symbol sy D @ contents (bk_response_queue ?b)) (updates_of sy P @ contents (bk_update_queue ?b))"
    "map snd hist @ contents ?q = for_symbol sy log" "represents ?b a"
    using inv by (auto simp: symbol_inv_def)
  have q: "queue_inv ?q" "queue_inv (bk_response_queue ?b)" "queue_inv (bk_update_queue ?b)" using inv by (simp_all add: symbol_inv_def)
  obtain q' where q': "updateReadIndex ?q = Inr q'" "contents q' = reqs" "queue_inv q'"
    using ring.adv_elems [OF q(1) Cons] by blast
  have "getNextToRead ?q = Some req" using Cons q(1) by (simp add: getNextToRead_contents queue_inv_read_inv)
  then obtain b' where b': "dispatch now req ?b = Inr b'" "ctx' = ctx\<lparr>ctx_book := b', ctx_request_queue := q'\<rparr>"
    using run q'(1) by (auto simp: run_step_def processRequest_def rbind_eq_Inr)
  obtain a' rs us where s: "spec_request now req a = (a', rs, us)" using prod_cases3 by blast
  then have "represents b' a'" "effect ?b rs us b'" using dispatch_ok [OF h(3), of now req] b'(1) by simp_all
  moreover have "queue_inv (push_all rs (bk_response_queue ?b))" "contents (push_all rs (bk_response_queue ?b)) = contents (bk_response_queue ?b) @ rs"
    "queue_inv (push_all us (bk_update_queue ?b))" "contents (push_all us (bk_update_queue ?b)) = contents (bk_update_queue ?b) @ us"
    using q(2,3) room calculation(2) b'(2) by (simp_all add: ctx_no_overflow_def effect_def push_all_inv push_all_contents)
  moreover have "sequential sy (hist @ [(now, req)]) a' (of_symbol sy D @ contents (bk_response_queue ?b) @ rs)
      (updates_of sy P @ contents (bk_update_queue ?b) @ us)"
    using h(1) s by (simp add: sequential_def spec_all_snoc)
  moreover have "map snd (hist @ [(now, req)]) @ reqs = for_symbol sy log" using h(2) Cons by simp
  ultimately show ?thesis
    using q'(2,3) b'(2) unfolding symbol_inv_def effect_def by (auto intro!: exI [of _ "hist @ [(now, req)]"] exI [of _ a'])
qed

lemma represents_queue_updates [simp]:
  "represents (b\<lparr>bk_response_queue := rq\<rparr>) a \<longleftrightarrow> represents b a"
  "represents (b\<lparr>bk_update_queue := uq\<rparr>) a \<longleftrightarrow> represents b a"
proof -
  have "b\<lparr>bk_response_queue := rq\<rparr> = b\<lparr>bk_response_queue := rq, bk_update_queue := bk_update_queue b\<rparr>"
    "b\<lparr>bk_update_queue := uq\<rparr> = b\<lparr>bk_response_queue := bk_response_queue b, bk_update_queue := uq\<rparr>" by (cases b; simp)+
  then show "represents (b\<lparr>bk_response_queue := rq\<rparr>) a \<longleftrightarrow> represents b a"
    "represents (b\<lparr>bk_update_queue := uq\<rparr>) a \<longleftrightarrow> represents b a" by (metis represents_queues)+
qed

lemma symbol_inv_respond:
  assumes "symbol_inv sy log D P ctx" and "contents (bk_response_queue (ctx_book ctx)) = xs @ contents q" and "queue_inv q"
  shows "symbol_inv sy log (D @ xs) P (ctx\<lparr>ctx_book := (ctx_book ctx)\<lparr>bk_response_queue := q\<rparr>\<rparr>)"
    and "\<forall>r \<in> set xs. rsp_symbol r = sy"
proof -
  let ?b = "ctx_book ctx"
  obtain hist a where h: "sequential sy hist a (of_symbol sy D @ xs @ contents q) (updates_of sy P @ contents (bk_update_queue ?b))"
    "map snd hist @ contents (ctx_request_queue ctx) = for_symbol sy log" "represents ?b a"
    using assms(1,2) by (auto simp: symbol_inv_def)
  show sy: "\<forall>r \<in> set xs. rsp_symbol r = sy" using sequential_symbols [OF h(1,2)] unfolding set_append by blast
  then have "of_symbol sy (D @ xs) = of_symbol sy D @ xs" by (simp add: filter_id_conv)
  then show "symbol_inv sy log (D @ xs) P (ctx\<lparr>ctx_book := ?b\<lparr>bk_response_queue := q\<rparr>\<rparr>)"
    using assms(1,3) h unfolding symbol_inv_def by (intro conjI exI [of _ hist] exI [of _ a]) (simp_all del: filter_append)
qed

lemma symbol_inv_publish:
  assumes "symbol_inv sy log D P ctx" and "contents (bk_update_queue (ctx_book ctx)) = xs @ contents q" and "queue_inv q"
  shows "symbol_inv sy log D (P @ xs) (ctx\<lparr>ctx_book := (ctx_book ctx)\<lparr>bk_update_queue := q\<rparr>\<rparr>)"
    and "\<forall>u \<in> set xs. upd_symbol u = sy"
proof -
  let ?b = "ctx_book ctx"
  obtain hist a where h: "sequential sy hist a (of_symbol sy D @ contents (bk_response_queue ?b)) (updates_of sy P @ xs @ contents q)"
    "map snd hist @ contents (ctx_request_queue ctx) = for_symbol sy log" "represents ?b a"
    using assms(1,2) by (auto simp: symbol_inv_def)
  show sy: "\<forall>u \<in> set xs. upd_symbol u = sy" using sequential_symbols [OF h(1,2)] unfolding set_append by blast
  then have "updates_of sy (P @ xs) = updates_of sy P @ xs" by (simp add: filter_id_conv)
  then show "symbol_inv sy log D (P @ xs) (ctx\<lparr>ctx_book := ?b\<lparr>bk_update_queue := q\<rparr>\<rparr>)"
    using assms(1,3) h unfolding symbol_inv_def by (intro conjI exI [of _ hist] exI [of _ a]) (simp_all del: filter_append)
qed

lemma symbol_inv_other:
  assumes "symbol_inv sy log D P ctx"
  shows "of_symbol sy D' = [] \<Longrightarrow> symbol_inv sy log (D @ D') P ctx"
    and "updates_of sy P' = [] \<Longrightarrow> symbol_inv sy log D (P @ P') ctx"
  using assms by (simp_all add: symbol_inv_def)

lemma mirrored_updates_of:
  "mirrored sy (fold applyUpdate us s) = fold update_book (updates_of sy us) (mirrored sy s)"
proof (induction us arbitrary: s)
  case (Cons u us)
  have "mirrored sy (applyUpdate u s) = (if upd_symbol u = sy then update_book u (mirrored sy s) else mirrored sy s)"
    by (simp add: applyUpdate_def mirrored_def Let_def)
  then show ?case using Cons.IH [of "applyUpdate u s"] by simp
qed simp

definition gateway_inv ::
  "EngineOrderRequest list \<Rightarrow> EngineOrderRequest list \<Rightarrow> string list OrderGatewayServer \<Rightarrow> EngineOrderRequest list \<Rightarrow> bool" where
  "gateway_inv subs log gw routing \<longleftrightarrow>
     gw_response_callback gw = Some response_callback \<and> gw_sequencer gw = \<lparr>sq_pending = []\<rparr> \<and>
     mset log + mset routing + mset (map tag (gw_inbox gw)) = mset subs"

definition core_inv ::
  "Symbol list \<Rightarrow> EngineOrderRequest list \<Rightarrow> EngineOrderResponse list \<Rightarrow> BookUpdate list \<Rightarrow> MatchingCore \<Rightarrow> bool" where
  "core_inv symbols log delivered published mc \<longleftrightarrow>
     mc_response_queues mc = map Of_Symbol symbols @ [Of_Unknown] \<and> mc_update_queues mc = map Of_Symbol symbols \<and>
     (\<forall>sy. mc_contexts mc sy = None \<longleftrightarrow> sy \<notin> set symbols) \<and>
     queue_inv (mc_unknown_symbol_responses mc) \<and> (\<forall>u \<in> set published. upd_symbol u \<in> set symbols) \<and>
     filter (\<lambda>r. rsp_symbol r \<notin> set symbols) delivered @ contents (mc_unknown_symbol_responses mc) =
       map reject_of (filter (\<lambda>r. req_symbol r \<notin> set symbols) log) \<and>
     (\<forall>sy ctx. mc_contexts mc sy = Some ctx \<longrightarrow> symbol_inv sy log delivered published ctx)"

definition feed_inv ::
  "BookUpdate list \<Rightarrow> BookUpdate list \<Rightarrow> string list MarketDataFeed \<Rightarrow> BookSnapshotService \<Rightarrow> string list \<Rightarrow> bool" where
  "feed_inv published applied fd snapshots lines \<longleftrightarrow>
     fd_subscribers fd = [update_callback] \<and> queue_inv (fd_snapshot_feed fd) \<and>
     published = applied @ contents (fd_snapshot_feed fd) \<and>
     (\<forall>sy. mirrored sy snapshots = fold update_book (updates_of sy applied) Map.empty) \<and>
     lines = map BookUpdate_toString published"

definition exchange_inv ::
  "Symbol list \<Rightarrow> EngineOrderRequest list \<Rightarrow> EngineOrderRequest list \<Rightarrow> EngineOrderResponse list \<Rightarrow> BookUpdate list
     \<Rightarrow> BookUpdate list \<Rightarrow> Exchange \<Rightarrow> bool" where
  "exchange_inv symbols subs log delivered published applied ex \<longleftrightarrow>
     gateway_inv subs log (ex_gateway ex) (ex_routing ex) \<and> core_inv symbols log delivered published (ex_core ex) \<and>
     feed_inv published applied (ex_feed ex) (ex_snapshots ex) (ex_update_lines ex) \<and>
     ex_response_lines ex = map EngineOrderResponse_toString delivered"

lemma mk_core_unknown [simp]: "mc_unknown_symbol_responses (mk_core qs no nl symbols) = new_LFQueue qs EngineOrderResponse_default"
proof -
  have "mc_unknown_symbol_responses (foldl (add_symbol qs no nl) mc sys) = mc_unknown_symbol_responses mc" for sys mc
    by (induction sys arbitrary: mc) (simp_all add: add_symbol_def Let_def)
  then show ?thesis by (simp add: mk_core_def Let_def)
qed

lemma mk_exchange_inv:
  assumes "distinct symbols" and "0 < qs" and "0 < no" and "no < 2 ^ 64" and "0 < nl" and "0 < fs"
  shows "exchange_inv symbols [] [] [] [] [] (mk_exchange qs no nl fs symbols)"
proof -
  note mc = core_for_distinct_symbols [OF assms(1), of qs no nl]
  have "symbol_inv sy [] [] [] (mk_context qs no nl sy)" for sy
  proof -
    let ?b = "ctx_book (mk_context qs no nl sy)"
    have "represents ?b (empty_abook sy)" using mk_book_represents assms(3-5) by (simp add: mk_context_def)
    moreover have "contents (bk_response_queue ?b) = []" "contents (bk_update_queue ?b) = []"
      "queue_inv (bk_response_queue ?b)" "queue_inv (bk_update_queue ?b)"
      using assms(2) by (simp_all add: mk_context_def mk_book_def)
    ultimately show ?thesis
      using assms(2) unfolding symbol_inv_def
      by (auto simp: sequential_def mk_context_def intro!: exI [of _ "[]"])
  qed
  then show ?thesis
    using assms mc
    by (simp add: exchange_inv_def gateway_inv_def core_inv_def feed_inv_def mk_exchange_def onResponse_def subscribe_def
        new_OrderGatewayServer_def mirrored_def split: if_splits)
qed

lemma core_inv_known: "core_inv symbols log D P mc \<Longrightarrow> mc_contexts mc sy = Some ctx \<Longrightarrow> sy \<in> set symbols"
  unfolding core_inv_def by (metis option.distinct(1))

lemma core_inv_set_context:
  assumes "core_inv symbols log D P mc" and "mc_contexts mc sy = Some ctx0" and "symbol_inv sy log D' P' ctx"
    and "\<And>sy' ctx'. sy' \<noteq> sy \<Longrightarrow> symbol_inv sy' log D P ctx' \<Longrightarrow> symbol_inv sy' log D' P' ctx'"
    and "filter (\<lambda>r. rsp_symbol r \<notin> set symbols) D' = filter (\<lambda>r. rsp_symbol r \<notin> set symbols) D"
    and "\<And>u. u \<in> set P' \<Longrightarrow> upd_symbol u \<in> set symbols"
  shows "core_inv symbols log D' P' (set_context sy ctx mc)"
  using assms core_inv_known [OF assms(1,2)] unfolding core_inv_def set_context_def by auto

lemma no_overflow_ctx:
  assumes "no_overflow symbols ex" and "mc_contexts (ex_core ex) sy = Some ctx" and "sy \<in> set symbols"
  shows "ctx_no_overflow ctx"
  using assms by (auto simp: no_overflow_def list_all_iff)

section \<open>Every step keeps the invariant\<close>

lemma submit_inv:
  assumes "exchange_inv symbols subs log D P A ex"
  shows "exchange_inv symbols (subs @ [tag (now, req)]) log D P A (submit_step now req ex)"
  using assms by (simp add: exchange_inv_def gateway_inv_def submit_step_def submit_def)

lemma sequence_inv:
  assumes "sort_contract srt" and "exchange_inv symbols subs log D P A ex"
  shows "exchange_inv symbols subs log D P A (sequence_step cap srt ex)"
proof -
  have s: "request_sort srt" using assms(1) by (rule request_sort.intro)
  have "gw_sequencer (ex_gateway ex) = \<lparr>sq_pending = []\<rparr>" using assms(2) by (simp add: exchange_inv_def gateway_inv_def)
  then obtain ys where "sequence_pass cap srt (\<lambda>r out. out @ [r]) (ex_gateway ex, ex_routing ex) =
      ((ex_gateway ex)\<lparr>gw_inbox := []\<rparr>, ex_routing ex @ ys)" "mset ys = mset (map tag (gw_inbox (ex_gateway ex)))"
    using request_sort.sequence_pass_routes [OF s, of "ex_gateway ex" cap "\<lambda>r out. out @ [r]" "ex_routing ex"] by auto
  then show ?thesis
    using assms(2) by (simp add: exchange_inv_def gateway_inv_def sequence_step_def union_assoc)
qed

lemma route_inv:
  assumes inv: "exchange_inv symbols subs log D P A ex" and room: "no_overflow symbols (route_step ex)"
  shows "exchange_inv symbols subs (log @ take 1 (ex_routing ex)) D P A (route_step ex)"
proof (cases "ex_routing ex")
  case (Cons r rs)
  let ?mc = "ex_core ex"
  have core: "core_inv symbols log D P ?mc" using inv by (simp add: exchange_inv_def)
  have ex': "route_step ex = ex\<lparr>ex_routing := rs, ex_core := routeRequest r ?mc\<rparr>" using Cons by (simp add: route_step_def)
  have "core_inv symbols (log @ [r]) D P (routeRequest r ?mc)"
  proof (cases "mc_contexts ?mc (req_symbol r)")
    case None
    then have out: "req_symbol r \<notin> set symbols" using core by (simp add: core_inv_def)
    have mc': "routeRequest r ?mc = ?mc\<lparr>mc_unknown_symbol_responses := push (reject_of r) (mc_unknown_symbol_responses ?mc)\<rparr>"
      using None by (simp add: routeRequest_def publishReject_def)
    have "symbol_inv sy (log @ [r]) D P ctx" if "mc_contexts ?mc sy = Some ctx" for sy ctx
      using symbol_inv_route_other [of sy log D P ctx r] core that out core_inv_known [OF core that] by (auto simp: core_inv_def)
    moreover have "queue_inv (push (reject_of r) (mc_unknown_symbol_responses ?mc))"
      "contents (push (reject_of r) (mc_unknown_symbol_responses ?mc)) = contents (mc_unknown_symbol_responses ?mc) @ [reject_of r]"
      using push_ok [of "mc_unknown_symbol_responses ?mc" "[reject_of r]"] core room
      by (simp_all add: core_inv_def no_overflow_def ex' mc')
    ultimately show ?thesis using core out by (simp add: core_inv_def mc')
  next
    case (Some ctx)
    let ?ctx = "ctx\<lparr>ctx_request_queue := push r (ctx_request_queue ctx)\<rparr>"
    have mc': "routeRequest r ?mc = set_context (req_symbol r) ?ctx ?mc" using Some by (simp add: routeRequest_def set_context_def)
    have sy: "req_symbol r \<in> set symbols" using core_inv_known [OF core Some] .
    have "ctx_no_overflow ?ctx"
      using no_overflow_ctx [OF room _ sy, of ?ctx] by (simp add: ex' mc' set_context_def)
    then have "symbol_inv (req_symbol r) (log @ [r]) D P ?ctx"
      using symbol_inv_route [of "req_symbol r" log D P ctx r] core Some by (simp add: core_inv_def ctx_no_overflow_def)
    moreover have "symbol_inv sy (log @ [r]) D P ctx'" if "mc_contexts ?mc sy = Some ctx'" "sy \<noteq> req_symbol r" for sy ctx'
      using symbol_inv_route_other [of sy log D P ctx' r] core that by (simp add: core_inv_def)
    ultimately show ?thesis using core sy Some by (auto simp: core_inv_def mc' set_context_def)
  qed
  then show ?thesis
    using inv Cons by (simp add: exchange_inv_def gateway_inv_def ex' union_assoc)
qed (use inv in \<open>simp add: route_step_def\<close>)

lemma match_inv:
  assumes inv: "exchange_inv symbols subs log D P A ex" and st: "match_step sy now ex = Inr ex'" and room: "no_overflow symbols ex'"
  shows "exchange_inv symbols subs log D P A ex'"
proof (cases "mc_contexts (ex_core ex) sy")
  case None
  then show ?thesis using st inv by (simp add: match_step_def)
next
  case (Some ctx)
  have core: "core_inv symbols log D P (ex_core ex)" using inv by (simp add: exchange_inv_def)
  have known: "\<And>u. u \<in> set P \<Longrightarrow> upd_symbol u \<in> set symbols" using core by (simp add: core_inv_def)
  obtain ctx' where c: "run_step now ctx = Inr ctx'" "ex' = ex\<lparr>ex_core := set_context sy ctx' (ex_core ex)\<rparr>"
    using st Some by (auto simp: match_step_def rbind_eq_Inr)
  have "ctx_no_overflow ctx'"
    using no_overflow_ctx [OF room, of sy ctx'] core_inv_known [OF core Some] by (simp add: c(2) set_context_def)
  then have "symbol_inv sy log D P ctx'" using symbol_inv_match [OF _ c(1)] core Some by (simp add: core_inv_def)
  then have "core_inv symbols log D P (set_context sy ctx' (ex_core ex))" 
    using core_inv_set_context [OF core Some _ _ _ known] by blast
  then show ?thesis using inv c(2) by (simp add: exchange_inv_def)
qed

lemma fold_response_callback: "fold response_callback rs lines = lines @ map EngineOrderResponse_toString rs"
  by (induction rs arbitrary: lines) (simp_all add: response_callback_def)

lemma core_inv_symbol_responses:
  assumes core: "core_inv symbols log D P mc" and ctx: "mc_contexts mc sy = Some ctx"
    and q: "queue_inv q'" "contents (bk_response_queue (ctx_book ctx)) = xs @ contents q'"
  shows "core_inv symbols log (D @ xs) P (set_response_queue (Of_Symbol sy) q' mc)"
proof -
  have "symbol_inv sy log D P ctx" using core ctx by (simp add: core_inv_def)
  note r = symbol_inv_respond [OF this q(2,1)]
  have "of_symbol sy' xs = []" if "sy' \<noteq> sy" for sy' using r(2) that by (auto simp: filter_empty_conv)
  moreover have "filter (\<lambda>r. rsp_symbol r \<notin> set symbols) xs = []"
    using r(2) core_inv_known [OF core ctx] by (auto simp: filter_empty_conv)
  moreover have "\<And>u. u \<in> set P \<Longrightarrow> upd_symbol u \<in> set symbols" using core by (simp add: core_inv_def)
  ultimately show ?thesis using core_inv_set_context [OF core ctx r(1)] symbol_inv_other(1) ctx by simp
qed

lemma core_inv_unknown_responses:
  assumes core: "core_inv symbols log D P mc"
    and q: "queue_inv q'" "contents (mc_unknown_symbol_responses mc) = xs @ contents q'"
  shows "core_inv symbols log (D @ xs) P (set_response_queue Of_Unknown q' mc)"
proof -
  have "rsp_symbol r \<notin> set symbols" if "r \<in> set xs" for r
  proof -
    have "r \<in> set (map reject_of (filter (\<lambda>r. req_symbol r \<notin> set symbols) log))"
      using core that q(2) unfolding core_inv_def by (metis Un_iff set_append)
    then show ?thesis by (auto simp: reject_of_def)
  qed
  then have out: "filter (\<lambda>r. rsp_symbol r \<notin> set symbols) xs = xs" "\<And>sy. sy \<in> set symbols \<Longrightarrow> of_symbol sy xs = []"
    by (auto simp: filter_id_conv filter_empty_conv)
  have "symbol_inv sy log (D @ xs) P ctx" if "mc_contexts mc sy = Some ctx" for sy ctx
    using symbol_inv_other(1) out(2) core_inv_known [OF core that] core that by (simp add: core_inv_def)
  then show ?thesis using core q out(1) by (simp add: core_inv_def)
qed

lemma core_inv_response_queue:
  assumes "core_inv symbols log D P mc" and "response_queue mc ref = Inr q"
  shows "queue_inv q"
    and "queue_inv q' \<Longrightarrow> contents q = xs @ contents q' \<Longrightarrow> core_inv symbols log (D @ xs) P (set_response_queue ref q' mc)"
proof -
  show "queue_inv q"
    using assms by (cases ref) (auto simp: core_inv_def symbol_inv_def split: option.splits)
  assume "queue_inv q'" "contents q = xs @ contents q'"
  then show "core_inv symbols log (D @ xs) P (set_response_queue ref q' mc)"
    using assms core_inv_symbol_responses [OF assms(1)] core_inv_unknown_responses [OF assms(1)]
    by (cases ref) (simp_all split: option.splits)
qed

lemma respond_inv:
  assumes inv: "exchange_inv symbols subs log D P A ex" and st: "respond_step i ex = Inr ex'"
  shows "\<exists>D'. exchange_inv symbols subs log (D @ D') P A ex'"
proof (cases "i < length (mc_response_queues (ex_core ex))")
  case True
  let ?ref = "mc_response_queues (ex_core ex) ! i"
  have core: "core_inv symbols log D P (ex_core ex)" using inv by (simp add: exchange_inv_def)
  have cb: "deliver (ex_gateway ex) = response_callback"
    using inv by (simp add: exchange_inv_def gateway_inv_def deliver_def fun_eq_iff)
  obtain q where q: "response_queue (ex_core ex) ?ref = Inr q" using st True by (auto simp: respond_step_def Let_def rbind_eq_Inr)
  obtain q' xs where q': "read_one response_callback q (ex_response_lines ex) = Inr (q', fold response_callback xs (ex_response_lines ex))"
    "queue_inv q'" "contents q = xs @ contents q'"
    by (rule read_one_ok [OF core_inv_response_queue(1) [OF core q]])
  have "ex' = ex\<lparr>ex_core := set_response_queue ?ref q' (ex_core ex),
      ex_response_lines := ex_response_lines ex @ map EngineOrderResponse_toString xs\<rparr>"
    using st True q q'(1) by (simp add: respond_step_def Let_def cb fold_response_callback)
  then show ?thesis
    using core_inv_response_queue(2) [OF core q q'(2,3)] inv by (intro exI [of _ xs]) (simp add: exchange_inv_def)
qed (use st inv in \<open>auto simp: respond_step_def intro!: exI [of _ "[]"]\<close>)

lemma respond_reads:
  assumes inv: "exchange_inv symbols subs log D P A ex" and i: "i < length (mc_response_queues (ex_core ex))"
    and q: "response_queue (ex_core ex) (mc_response_queues (ex_core ex) ! i) = Inr q" "getNextToRead q = Some r"
    and st: "respond_step i ex = Inr ex'"
  shows "exchange_inv symbols subs log (D @ [r]) P A ex'"
proof -
  let ?ref = "mc_response_queues (ex_core ex) ! i"
  have core: "core_inv symbols log D P (ex_core ex)" using inv by (simp add: exchange_inv_def)
  have cb: "deliver (ex_gateway ex) = response_callback"
    using inv by (simp add: exchange_inv_def gateway_inv_def deliver_def fun_eq_iff)
  note qi = core_inv_response_queue(1) [OF core q(1)]
  obtain xs where xs: "contents q = r # xs"
    using q(2) getNextToRead_contents [OF queue_inv_read_inv [OF qi]] by (cases "contents q") auto
  obtain q' where q': "updateReadIndex q = Inr q'" "contents q' = xs" "queue_inv q'" using ring.adv_elems [OF qi xs] by blast
  have "ex' = ex\<lparr>ex_core := set_response_queue ?ref q' (ex_core ex),
      ex_response_lines := ex_response_lines ex @ [EngineOrderResponse_toString r]\<rparr>"
    using st i q q'(1) by (simp add: respond_step_def read_one_def cb response_callback_def)
  then show ?thesis
    using core_inv_response_queue(2) [OF core q(1) q'(3), of "[r]"] xs q'(2) inv by (simp add: exchange_inv_def)
qed

lemma fold_update_callback: "fold update_callback us lines = lines @ map BookUpdate_toString us"
  by (induction us arbitrary: lines) (simp_all add: update_callback_def)

lemma publish_inv:
  assumes inv: "exchange_inv symbols subs log D P A ex" and st: "publish_step i ex = Inr ex'" and room: "no_overflow symbols ex'"
  shows "\<exists>P'. exchange_inv symbols subs log D (P @ P') A ex'"
proof (cases "i < length (mc_update_queues (ex_core ex))")
  case True
  have core: "core_inv symbols log D P (ex_core ex)" and feed: "feed_inv P A (ex_feed ex) (ex_snapshots ex) (ex_update_lines ex)"
    using inv by (simp_all add: exchange_inv_def)
  obtain sy where ref: "mc_update_queues (ex_core ex) ! i = Of_Symbol sy" "sy \<in> set symbols"
    using core True by (auto simp: core_inv_def)
  then obtain ctx where ctx: "mc_contexts (ex_core ex) sy = Some ctx" using core unfolding core_inv_def by (metis option.exhaust)
  have sinv: "symbol_inv sy log D P ctx" using core ctx by (simp add: core_inv_def)
  have qi: "queue_inv (bk_update_queue (ctx_book ctx))" using sinv by (simp add: symbol_inv_def)
  obtain q' us where q': "read_one feed_update (bk_update_queue (ctx_book ctx)) (ex_feed ex, ex_update_lines ex) =
      Inr (q', fold feed_update us (ex_feed ex, ex_update_lines ex))" "queue_inv q'" "contents (bk_update_queue (ctx_book ctx)) = us @ contents q'"
    by (rule read_one_ok [OF qi])
  let ?fd = "(ex_feed ex)\<lparr>fd_snapshot_feed := push_all us (fd_snapshot_feed (ex_feed ex))\<rparr>"
  let ?mc = "set_context sy (ctx\<lparr>ctx_book := (ctx_book ctx)\<lparr>bk_update_queue := q'\<rparr>\<rparr>) (ex_core ex)"
  have subs: "broadcast (fd_subscribers (ex_feed ex)) = update_callback"
    using feed by (simp add: feed_inv_def broadcast_def fun_eq_iff)
  have ex': "ex' = ex\<lparr>ex_core := ?mc, ex_feed := ?fd, ex_update_lines := ex_update_lines ex @ map BookUpdate_toString us\<rparr>"
    using st True ref(1) ctx q'(1) by (simp add: publish_step_def Let_def fold_feed_update subs fold_update_callback)
  note p = symbol_inv_publish [OF sinv q'(3,2)]
  have "updates_of sy' us = []" if "sy' \<noteq> sy" for sy' using p(2) that by (auto simp: filter_empty_conv)
  moreover have "upd_symbol u \<in> set symbols" if "u \<in> set (P @ us)" for u
    using that core p(2) ref(2) unfolding core_inv_def by auto
  ultimately have "core_inv symbols log D (P @ us) ?mc"
    using core_inv_set_context [OF core ctx p(1)] symbol_inv_other(2) by simp
  moreover have "queue_inv (push_all us (fd_snapshot_feed (ex_feed ex)))"
    "contents (push_all us (fd_snapshot_feed (ex_feed ex))) = contents (fd_snapshot_feed (ex_feed ex)) @ us"
    using push_ok [of "fd_snapshot_feed (ex_feed ex)" us] feed room by (simp_all add: feed_inv_def no_overflow_def ex')
  ultimately show ?thesis
    using inv by (intro exI [of _ us]) (simp add: exchange_inv_def feed_inv_def ex')
qed (use st inv in \<open>auto simp: publish_step_def intro!: exI [of _ "[]"]\<close>)

lemma apply_inv:
  assumes inv: "exchange_inv symbols subs log D P A ex" and st: "apply_step ex = Inr ex'"
  shows "\<exists>A'. exchange_inv symbols subs log D P (A @ A') ex'"
proof -
  have feed: "feed_inv P A (ex_feed ex) (ex_snapshots ex) (ex_update_lines ex)" using inv by (simp add: exchange_inv_def)
  have qi: "queue_inv (fd_snapshot_feed (ex_feed ex))" using feed by (simp add: feed_inv_def)
  obtain q' us where q': "read_one applyUpdate (fd_snapshot_feed (ex_feed ex)) (ex_snapshots ex) = Inr (q', fold applyUpdate us (ex_snapshots ex))"
    "queue_inv q'" "contents (fd_snapshot_feed (ex_feed ex)) = us @ contents q'"
    by (rule read_one_ok [OF qi])
  have "ex' = ex\<lparr>ex_feed := (ex_feed ex)\<lparr>fd_snapshot_feed := q'\<rparr>, ex_snapshots := fold applyUpdate us (ex_snapshots ex)\<rparr>"
    using st q'(1) by (simp add: apply_step_def)
  then show ?thesis using inv q'(2,3) by (intro exI [of _ us]) (auto simp: exchange_inv_def feed_inv_def mirrored_updates_of)
qed

lemma mirrored_timer [simp]: "mirrored sy (fst (snapshot_timer now1 now2 s)) = mirrored sy s"
  by (simp add: snapshot_timer_def mirrored_def Let_def)

lemma timer_inv: "exchange_inv symbols subs log D P A ex \<Longrightarrow> exchange_inv symbols subs log D P A (timer_step now1 now2 ex)"
  by (cases ex; clarsimp simp: exchange_inv_def feed_inv_def timer_step_def)

lemma exchange_run_inv:
  assumes "distinct symbols" and "sort_contract srt" and "exchange_run cap srt symbols subs log ex"
  shows "\<exists>D P A. exchange_inv symbols subs log D P A ex"
  using assms(3)
proof (induction rule: exchange_run.induct)
  case (start qs no nl fs)
  then show ?case using mk_exchange_inv [OF assms(1)] by blast
next
  case (step subs log ex ev ex')
  then obtain D P A where inv: "exchange_inv symbols subs log D P A ex" by blast
  show ?case
  proof (cases ev)
    case (Submit now req)
    then show ?thesis using submit_inv [OF inv, of now req] step.hyps by auto
  next
    case Sequence
    then show ?thesis using sequence_inv [OF assms(2) inv] step.hyps by auto
  next
    case Route
    then show ?thesis using route_inv [OF inv] step.hyps by auto
  next
    case (Match sy now)
    then show ?thesis using match_inv [OF inv _ step.hyps(3), of sy now] step.hyps(2) by auto
  next
    case (Respond i)
    then show ?thesis using respond_inv [OF inv, of i ex'] step.hyps(2) by auto
  next
    case (Publish i)
    then show ?thesis using publish_inv [OF inv _ step.hyps(3), of i] step.hyps(2) by auto
  next
    case Apply
    then show ?thesis using apply_inv [OF inv, of ex'] step.hyps(2) by auto
  next
    case (Timer now1 now2)
    then show ?thesis using timer_inv [OF inv, of now1 now2] step.hyps(2) by auto
  qed
qed

lemma main_begin_symbols:
  assumes "main_begin argv files = Inr (Goes_on orders symbols)"
  shows "symbols = symbols_of orders" and "orders \<noteq> []"
proof -
  obtain lines where "main_orders lines = Inr (Some (orders, symbols))"
    using assms by (cases "files (argv ! 1)"; cases "main_orders (the (files (argv ! 1)))")
      (auto simp: main_begin_def split: if_splits option.splits)
  then show "symbols = symbols_of orders" "orders \<noteq> []"
    by (cases "read_orders lines"; auto simp: main_orders_def split: if_splits)+
qed

section \<open>No step goes wrong\<close>

lemma run_step_error:
  assumes "symbol_inv sy log D P ctx" and "run_step now ctx = Inl e"
  shows "e = PoolOutOfSpace"
proof (cases "contents (ctx_request_queue ctx)")
  case Nil
  then show ?thesis using assms by (simp add: symbol_inv_def run_step_def getNextToRead_contents queue_inv_read_inv)
next
  case (Cons req reqs)
  have q: "queue_inv (ctx_request_queue ctx)" using assms(1) by (simp add: symbol_inv_def)
  obtain q' where "updateReadIndex (ctx_request_queue ctx) = Inr q'" using ring.adv_elems [OF q Cons] by blast
  moreover have "getNextToRead (ctx_request_queue ctx) = Some req" using Cons q by (simp add: getNextToRead_contents queue_inv_read_inv)
  ultimately have "dispatch now req (ctx_book ctx) = Inl e"
    using assms(2) by (auto simp: run_step_def processRequest_def rbind_eq_Inl rbind_eq_Inr)
  moreover obtain a where "represents (ctx_book ctx) a" using assms(1) by (auto simp: symbol_inv_def)
  moreover obtain a' rs us where "spec_request now req a = (a', rs, us)" using prod_cases3 by blast
  ultimately show ?thesis using dispatch_ok [of "ctx_book ctx" a now req] by simp
qed

lemma respond_step_ok:
  assumes "exchange_inv symbols subs log D P A ex"
  shows "\<exists>ex'. respond_step i ex = Inr ex'"
proof (cases "i < length (mc_response_queues (ex_core ex))")
  case True
  let ?ref = "mc_response_queues (ex_core ex) ! i"
  have core: "core_inv symbols log D P (ex_core ex)" using assms by (simp add: exchange_inv_def)
  have "?ref \<in> set (map Of_Symbol symbols @ [Of_Unknown])" using core True nth_mem unfolding core_inv_def by metis
  then obtain q where q: "response_queue (ex_core ex) ?ref = Inr q"
    using core by (auto simp: core_inv_def split: option.splits)
  obtain q' xs where "read_one (deliver (ex_gateway ex)) q (ex_response_lines ex) = Inr (q', fold (deliver (ex_gateway ex)) xs (ex_response_lines ex))"
    by (rule read_one_ok [OF core_inv_response_queue(1) [OF core q]])
  then show ?thesis using True q by (simp add: respond_step_def Let_def)
qed (simp add: respond_step_def)

lemma publish_step_ok:
  assumes "exchange_inv symbols subs log D P A ex"
  shows "\<exists>ex'. publish_step i ex = Inr ex'"
proof (cases "i < length (mc_update_queues (ex_core ex))")
  case True
  have core: "core_inv symbols log D P (ex_core ex)" using assms by (simp add: exchange_inv_def)
  obtain sy where ref: "mc_update_queues (ex_core ex) ! i = Of_Symbol sy" "sy \<in> set symbols"
    using core True by (auto simp: core_inv_def)
  then obtain ctx where ctx: "mc_contexts (ex_core ex) sy = Some ctx" using core unfolding core_inv_def by (metis option.exhaust)
  then have "queue_inv (bk_update_queue (ctx_book ctx))" using core by (simp add: core_inv_def symbol_inv_def)
  then obtain q' us where "read_one feed_update (bk_update_queue (ctx_book ctx)) (ex_feed ex, ex_update_lines ex) =
      Inr (q', fold feed_update us (ex_feed ex, ex_update_lines ex))"
    by (rule read_one_ok)
  then show ?thesis using True ref(1) ctx by (simp add: publish_step_def Let_def split: prod.splits)
qed (simp add: publish_step_def)

lemma apply_step_ok:
  assumes "exchange_inv symbols subs log D P A ex"
  shows "\<exists>ex'. apply_step ex = Inr ex'"
proof -
  have "queue_inv (fd_snapshot_feed (ex_feed ex))" using assms by (simp add: exchange_inv_def feed_inv_def)
  then obtain q' us where "read_one applyUpdate (fd_snapshot_feed (ex_feed ex)) (ex_snapshots ex) = Inr (q', fold applyUpdate us (ex_snapshots ex))"
    by (rule read_one_ok)
  then show ?thesis by (simp add: apply_step_def)
qed

lemma exchange_step_error:
  assumes inv: "exchange_inv symbols subs log D P A ex" and "exchange_step cap srt ev ex = Inl e"
  shows "e = PoolOutOfSpace"
proof (cases ev)
  case (Match sy now)
  have "symbol_inv sy log D P ctx" if "mc_contexts (ex_core ex) sy = Some ctx" for ctx
    using inv that by (simp add: exchange_inv_def core_inv_def)
  then show ?thesis
    using assms(2) Match run_step_error by (auto simp: match_step_def rbind_eq_Inl split: option.splits)
next
  case (Respond i)
  then show ?thesis using assms(2) respond_step_ok [OF inv, of i] by auto
next
  case (Publish i)
  then show ?thesis using assms(2) publish_step_ok [OF inv, of i] by auto
next
  case Apply
  then show ?thesis using assms(2) apply_step_ok [OF inv] by auto
qed (use assms(2) in simp_all)

section \<open>What the invariant says of the books and the snapshots\<close>

lemma symbol_inv_sequential:
  assumes "exchange_inv symbols subs log D P A ex" and "sy \<in> set symbols"
  obtains ctx hist a where "mc_contexts (ex_core ex) sy = Some ctx"
    and "map snd hist @ contents (ctx_request_queue ctx) = for_symbol sy log"
    and "sequential sy hist a (of_symbol sy D @ contents (bk_response_queue (ctx_book ctx)))
      (updates_of sy P @ contents (bk_update_queue (ctx_book ctx)))"
    and "represents (ctx_book ctx) a"
proof -
  have core: "core_inv symbols log D P (ex_core ex)" using assms(1) by (simp add: exchange_inv_def)
  then obtain ctx where "mc_contexts (ex_core ex) sy = Some ctx" using assms(2) unfolding core_inv_def by (metis option.exhaust)
  moreover from this have "symbol_inv sy log D P ctx" using core by (simp add: core_inv_def)
  ultimately show ?thesis using that unfolding symbol_inv_def by blast
qed

lemma quiet_contents:
  assumes "quiet symbols ex" and "sy \<in> set symbols" and "mc_contexts (ex_core ex) sy = Some ctx"
  shows "contents (ctx_request_queue ctx) = []" and "contents (bk_response_queue (ctx_book ctx)) = []"
    and "contents (bk_update_queue (ctx_book ctx)) = []"
  using assms by (auto simp: quiet_def list_all_iff contents_empty)

lemma snapshot_of_history:
  assumes "sequential sy hist a rs us" and "never_repriced_away hist (empty_abook sy)"
    and "mirrored sy s = fold update_book us Map.empty"
  shows "snapshotFor sy s = entry_of ` set (all_orders a)"
proof -
  have m: "mirror_of (empty_abook sy) = Map.empty" by (simp add: mirror_of_def all_orders_def empty_abook_def)
  have "sound (empty_abook sy)" using empty_book_ok by blast
  then have "fold update_book us Map.empty = mirror_of a \<and> book_ok a"
    using spec_all_mirror [of "empty_abook sy" hist a rs us] assms(1,2) m by (simp add: sequential_def)
  then show ?thesis using assms(3) mirror_entries [of a] by (simp add: snapshotFor_mirrored)
qed

lemma wait_idle_ends:
  assumes "sorted (last_seen # sizes)" and "\<forall>n \<in> set sizes. n \<le> limit" and "last_seen \<le> limit"
    and "15 * (limit - last_seen) + 15 \<le> length sizes + idle_polls"
  shows "\<exists>k. wait_idle last_seen idle_polls sizes = Some k"
  using assms
proof (induction sizes arbitrary: last_seen idle_polls)
  case (Cons seen later)
  show ?case
  proof (cases "seen = last_seen \<or> \<not> idle_polls < 15")
    case True
    then show ?thesis using Cons.IH [of last_seen "idle_polls + 1"] Cons.prems by auto
  next
    case False
    then have "last_seen < seen" "seen \<le> limit" using Cons.prems by auto
    then have "15 * (limit - seen) + 15 \<le> length later" using Cons.prems(4) False by (simp add: algebra_simps)
    then show ?thesis using Cons.IH [of seen 0] Cons.prems(1,2) False by simp
  qed
qed simp

section \<open>A sample input\<close>

definition demo_request :: EngineOrderRequest where
  "demo_request =
     \<lparr>req_order_type = LIMIT, req_client_id = 1, req_symbol = ''A'', req_order_id = 7, req_side = BUY,
      req_price = 5, req_qty = 9, req_recv_time = 0\<rparr>"

lemma demo_input: "main_begin [''exchange_main'', ''f''] [''f'' \<mapsto> [csv_line demo_request]] = Inr (Goes_on [demo_request] [''A''])"
proof -
  have "parseLine (csv_line demo_request) = Inr (Some demo_request)"
    using parseLine_csv [of demo_request] by (simp add: demo_request_def)
  then have "main_orders [csv_line demo_request] = Inr (Some ([demo_request], [''A'']))"
    by (simp add: main_orders_def symbols_of_def) (simp add: demo_request_def)
  then show ?thesis by (simp add: main_begin_def)
qed

end
