(* ===== verification/Lifecycle.thy ===== *)
theory Lifecycle
  imports SystemInvariant
begin

text \<open>
  The threads of the running program and how they are started and stopped: Common/threads.h, the
  \<open>start\<close>, \<open>stop\<close> and \<open>run\<close> methods of the four classes with a thread, and the calls of \<open>main\<close>. The
  loops are modelled with their positions, so a program is a schedule of turns of threads that test
  their flag, drain their queues and start over. Every such program is a run of the exchange in
  \<open>System\<close>; once all flags are cleared, the threads come to an end.
\<close>

section \<open>Threads\<close>

datatype thread_id = Matching_thread Symbol | Gateway_thread | Feed_thread | Snapshot_thread

text \<open>Where a thread is in its loop: at the test of its flag, in its body, or past the end of the loop.\<close>

datatype thread_pc =
    At_test
  | In_match Symbol
  | In_sequence
  | In_route
  | In_respond nat
  | In_publish nat
  | In_apply
  | In_timer
  | Exited

record Program =
  pr_exchange :: Exchange
  pr_matcher_running :: bool
  pr_gateway_running :: bool
  pr_feed_running :: bool
  pr_snapshot_running :: bool
  pr_threads :: "(thread_id \<times> thread_pc) list"

definition mk_program :: "Exchange \<Rightarrow> Program" where
  "mk_program ex =
     \<lparr>pr_exchange = ex, pr_matcher_running = False, pr_gateway_running = False, pr_feed_running = False,
      pr_snapshot_running = False, pr_threads = []\<rparr>"

text \<open>
  A new thread pins itself to a core if it is given one, and ends the process when that fails; \<open>set_core\<close>
  stands for the operating system's answer.
\<close>

definition createAndStartThread :: "(int \<Rightarrow> bool) \<Rightarrow> int \<Rightarrow> thread_id \<Rightarrow> Program \<Rightarrow> Program option" where
  "createAndStartThread set_core core_id tid p =
     (if core_id \<ge> 0 \<and> \<not> set_core core_id then None else Some (p\<lparr>pr_threads := pr_threads p @ [(tid, At_test)]\<rparr>))"

section \<open>Starting and stopping\<close>

text \<open>\<open>walk\<close> is the order in which the matching core walks through its contexts.\<close>

fun start_matching :: "(int \<Rightarrow> bool) \<Rightarrow> Symbol list \<Rightarrow> Program \<Rightarrow> Program option" where
  "start_matching set_core [] p = Some p"
| "start_matching set_core (sy # walk) p =
     Option.bind (createAndStartThread set_core (- 1) (Matching_thread sy) p) (start_matching set_core walk)"

definition MatchingCore_start :: "(int \<Rightarrow> bool) \<Rightarrow> Symbol list \<Rightarrow> Program \<Rightarrow> Program option" where
  "MatchingCore_start set_core walk p = start_matching set_core walk (p\<lparr>pr_matcher_running := True\<rparr>)"

definition MatchingCore_stop :: "Program \<Rightarrow> Program" where
  "MatchingCore_stop p = p\<lparr>pr_matcher_running := False\<rparr>"

definition OrderGatewayServer_start :: "(int \<Rightarrow> bool) \<Rightarrow> Program \<Rightarrow> Program option" where
  "OrderGatewayServer_start set_core p = createAndStartThread set_core (- 1) Gateway_thread (p\<lparr>pr_gateway_running := True\<rparr>)"

definition OrderGatewayServer_stop :: "Program \<Rightarrow> Program" where
  "OrderGatewayServer_stop p = p\<lparr>pr_gateway_running := False\<rparr>"

definition BookSnapshotService_start :: "(int \<Rightarrow> bool) \<Rightarrow> Program \<Rightarrow> Program option" where
  "BookSnapshotService_start set_core p = createAndStartThread set_core (- 1) Snapshot_thread (p\<lparr>pr_snapshot_running := True\<rparr>)"

definition BookSnapshotService_stop :: "Program \<Rightarrow> Program" where
  "BookSnapshotService_stop p = p\<lparr>pr_snapshot_running := False\<rparr>"

definition MarketDataFeed_start :: "(int \<Rightarrow> bool) \<Rightarrow> Program \<Rightarrow> Program option" where
  "MarketDataFeed_start set_core p =
     Option.bind (createAndStartThread set_core (- 1) Feed_thread (p\<lparr>pr_feed_running := True\<rparr>))
       (BookSnapshotService_start set_core)"

definition MarketDataFeed_stop :: "Program \<Rightarrow> Program" where
  "MarketDataFeed_stop p = BookSnapshotService_stop (p\<lparr>pr_feed_running := False\<rparr>)"

definition main_start :: "(int \<Rightarrow> bool) \<Rightarrow> Symbol list \<Rightarrow> Program \<Rightarrow> Program option" where
  "main_start set_core walk p =
     Option.bind (MatchingCore_start set_core walk p) (\<lambda>p.
     Option.bind (OrderGatewayServer_start set_core p) (MarketDataFeed_start set_core))"

definition main_stop :: "Program \<Rightarrow> Program" where
  "main_stop p = MatchingCore_stop (OrderGatewayServer_stop (MarketDataFeed_stop p))"

text \<open>The single calls of \<open>main\<close>, between which the threads already run.\<close>

datatype main_call = Start_matcher "Symbol list" | Start_gateway | Start_feed | Stop_feed | Stop_gateway | Stop_matcher

fun call_main :: "(int \<Rightarrow> bool) \<Rightarrow> main_call \<Rightarrow> Program \<Rightarrow> Program option" where
  "call_main set_core (Start_matcher walk) p = MatchingCore_start set_core walk p"
| "call_main set_core Start_gateway p = OrderGatewayServer_start set_core p"
| "call_main set_core Start_feed p = MarketDataFeed_start set_core p"
| "call_main set_core Stop_feed p = Some (MarketDataFeed_stop p)"
| "call_main set_core Stop_gateway p = Some (OrderGatewayServer_stop p)"
| "call_main set_core Stop_matcher p = Some (MatchingCore_stop p)"

section \<open>The loops\<close>

text \<open>
  The condition of a drain loop. A pointer to a destroyed queue is followed as well: the turn that reads
  through it fails.
\<close>

definition waiting :: "'a LFQueue result \<Rightarrow> bool" where
  "waiting r = (case r of Inl e \<Rightarrow> True | Inr q \<Rightarrow> qsize q \<noteq> 0)"

text \<open>
  One turn of each \<open>run\<close> method: what the thread does, if anything, and where it is then. The readings of
  the clock are arguments. No thread ever reaches a position of another one's loop.
\<close>

fun MatchingCore_run :: "Symbol \<Rightarrow> Nanos \<Rightarrow> thread_pc \<Rightarrow> Program \<Rightarrow> event option \<times> thread_pc" where
  "MatchingCore_run sy now At_test p = (None, if pr_matcher_running p then In_match sy else Exited)"
| "MatchingCore_run sy now (In_match sy') p = (Some (Match sy' now), At_test)"
| "MatchingCore_run sy now _ p = (None, Exited)"

fun OrderGatewayServer_run :: "thread_pc \<Rightarrow> Program \<Rightarrow> event option \<times> thread_pc" where
  "OrderGatewayServer_run At_test p = (None, if pr_gateway_running p then In_sequence else Exited)"
| "OrderGatewayServer_run In_sequence p = (Some Sequence, In_route)"
| "OrderGatewayServer_run In_route p =
     (if ex_routing (pr_exchange p) = [] then (None, In_respond 0) else (Some Route, In_route))"
| "OrderGatewayServer_run (In_respond i) p =
     (let mc = ex_core (pr_exchange p) in
      if i < length (mc_response_queues mc) then
        if waiting (response_queue mc (mc_response_queues mc ! i)) then (Some (Respond i), In_respond i)
        else (None, In_respond (i + 1))
      else (None, At_test))"
| "OrderGatewayServer_run _ p = (None, Exited)"

fun MarketDataFeed_run :: "thread_pc \<Rightarrow> Program \<Rightarrow> event option \<times> thread_pc" where
  "MarketDataFeed_run At_test p = (None, if pr_feed_running p then In_publish 0 else Exited)"
| "MarketDataFeed_run (In_publish i) p =
     (let mc = ex_core (pr_exchange p) in
      if i < length (mc_update_queues mc) then
        if waiting (update_queue mc (mc_update_queues mc ! i)) then (Some (Publish i), In_publish i)
        else (None, In_publish (i + 1))
      else (None, At_test))"
| "MarketDataFeed_run _ p = (None, Exited)"

fun BookSnapshotService_run :: "Nanos \<Rightarrow> Nanos \<Rightarrow> thread_pc \<Rightarrow> Program \<Rightarrow> event option \<times> thread_pc" where
  "BookSnapshotService_run now1 now2 At_test p = (None, if pr_snapshot_running p then In_apply else Exited)"
| "BookSnapshotService_run now1 now2 In_apply p =
     (if qsize (fd_snapshot_feed (ex_feed (pr_exchange p))) \<noteq> 0 then (Some Apply, In_apply) else (None, In_timer))"
| "BookSnapshotService_run now1 now2 In_timer p = (Some (Timer now1 now2), At_test)"
| "BookSnapshotService_run now1 now2 _ p = (None, Exited)"

fun next_turn :: "Nanos \<Rightarrow> Nanos \<Rightarrow> thread_id \<Rightarrow> thread_pc \<Rightarrow> Program \<Rightarrow> event option \<times> thread_pc" where
  "next_turn now1 now2 (Matching_thread sy) pc p = MatchingCore_run sy now1 pc p"
| "next_turn now1 now2 Gateway_thread pc p = OrderGatewayServer_run pc p"
| "next_turn now1 now2 Feed_thread pc p = MarketDataFeed_run pc p"
| "next_turn now1 now2 Snapshot_thread pc p = BookSnapshotService_run now1 now2 pc p"

fun perform :: "nat \<Rightarrow> sort_fun \<Rightarrow> event option \<Rightarrow> Exchange \<Rightarrow> Exchange result" where
  "perform cap srt None ex = Inr ex"
| "perform cap srt (Some ev) ex = exchange_step cap srt ev ex"

definition thread_turn :: "nat \<Rightarrow> sort_fun \<Rightarrow> Nanos \<Rightarrow> Nanos \<Rightarrow> nat \<Rightarrow> Program \<Rightarrow> Program result" where
  "thread_turn cap srt now1 now2 i p =
     (let (tid, pc) = pr_threads p ! i; (ev, pc') = next_turn now1 now2 tid pc p in
      rbind (perform cap srt ev (pr_exchange p)) (\<lambda>ex.
      Inr (p\<lparr>pr_exchange := ex, pr_threads := (pr_threads p)[i := (tid, pc')]\<rparr>)))"

definition alive :: "nat \<Rightarrow> Program \<Rightarrow> bool" where
  "alive i p \<longleftrightarrow> i < length (pr_threads p) \<and> snd (pr_threads p ! i) \<noteq> Exited"

section \<open>Programs\<close>

text \<open>
  Any schedule of calls of \<open>main\<close>, submissions of producers and turns of threads, as long as no queue
  overflows, with the histories of submitted and routed requests.
\<close>

inductive program_run ::
  "nat \<Rightarrow> sort_fun \<Rightarrow> Symbol list \<Rightarrow> EngineOrderRequest list \<Rightarrow> EngineOrderRequest list \<Rightarrow> Program \<Rightarrow> bool"
  for cap srt symbols where
  boot: "0 < qs \<Longrightarrow> 0 < no \<Longrightarrow> no < 2 ^ 64 \<Longrightarrow> 0 < nl \<Longrightarrow> 0 < fs \<Longrightarrow>
    program_run cap srt symbols [] [] (mk_program (mk_exchange qs no nl fs symbols))"
| call: "program_run cap srt symbols subs log p \<Longrightarrow> call_main set_core c p = Some p' \<Longrightarrow>
    program_run cap srt symbols subs log p'"
| producer: "program_run cap srt symbols subs log p \<Longrightarrow> no_overflow symbols (submit_step now req (pr_exchange p)) \<Longrightarrow>
    program_run cap srt symbols (subs @ [tag (now, req)]) log (p\<lparr>pr_exchange := submit_step now req (pr_exchange p)\<rparr>)"
| turn: "program_run cap srt symbols subs log p \<Longrightarrow> alive i p \<Longrightarrow> thread_turn cap srt now1 now2 i p = Inr p' \<Longrightarrow>
    no_overflow symbols (pr_exchange p') \<Longrightarrow>
    program_run cap srt symbols subs
      (log @ (case fst (next_turn now1 now2 (fst (pr_threads p ! i)) (snd (pr_threads p ! i)) p) of
         None \<Rightarrow> [] | Some ev \<Rightarrow> routed_by ev (pr_exchange p))) p'"

lemma start_exchange [simp]:
  "createAndStartThread set_core (- 1) tid p = Some (p\<lparr>pr_threads := pr_threads p @ [(tid, At_test)]\<rparr>)"
  "start_matching set_core walk p = Some (p\<lparr>pr_threads := pr_threads p @ map (\<lambda>sy. (Matching_thread sy, At_test)) walk\<rparr>)"
proof -
  show start: "createAndStartThread set_core (- 1) tid p = Some (p\<lparr>pr_threads := pr_threads p @ [(tid, At_test)]\<rparr>)" for tid p
    by (simp add: createAndStartThread_def)
  show "start_matching set_core walk p = Some (p\<lparr>pr_threads := pr_threads p @ map (\<lambda>sy. (Matching_thread sy, At_test)) walk\<rparr>)"
    by (induction walk arbitrary: p) (simp_all add: start)
qed

lemmas lifecycle_defs = MatchingCore_start_def MatchingCore_stop_def OrderGatewayServer_start_def OrderGatewayServer_stop_def
  BookSnapshotService_start_def BookSnapshotService_stop_def MarketDataFeed_start_def MarketDataFeed_stop_def

lemma call_main_exchange: "call_main set_core c p = Some p' \<Longrightarrow> pr_exchange p' = pr_exchange p"
  by (cases c) (auto simp: lifecycle_defs)

lemma next_turn_submits_nothing: "fst (next_turn now1 now2 tid pc p) = Some ev \<Longrightarrow> submitted_by ev = []"
  by (cases tid; cases pc) (auto simp: Let_def split: if_splits)

lemma program_run_exchange: "program_run cap srt symbols subs log p \<Longrightarrow> exchange_run cap srt symbols subs log (pr_exchange p)"
proof (induction rule: program_run.induct)
  case (boot qs no nl fs)
  then show ?case by (simp add: mk_program_def exchange_run.start)
next
  case (call subs log p set_core c p')
  then show ?case using call_main_exchange by simp
next
  case (producer subs log p now req)
  then show ?case using exchange_run.step [of cap srt symbols subs log "pr_exchange p" "Submit now req"] by simp
next
  case (turn subs log p i now1 now2 p')
  obtain tid pc ev pc' where t: "pr_threads p ! i = (tid, pc)" "next_turn now1 now2 tid pc p = (ev, pc')" by fastforce
  then have "perform cap srt ev (pr_exchange p) = Inr (pr_exchange p')"
    using turn.hyps(3) by (auto simp: thread_turn_def rbind_eq_Inr)
  then show ?case
    using turn.IH turn.hyps(4) t exchange_run.step [OF turn.IH] next_turn_submits_nothing [of now1 now2 tid pc p]
    by (cases ev) force+
qed

section \<open>Stopping ends\<close>

text \<open>
  What the threads have left to do once every flag is cleared, as a lexicographic measure. A matching
  thread that is about to match finishes that request; that may add responses and updates, but no
  thread starts another one. Then the gateway routes what it has sequenced and drains the
  responses, the feed drains the updates, and the snapshot thread applies them. A loop over queues
  has as many queues left as its position says.
\<close>

definition stopped :: "Program \<Rightarrow> bool" where
  "stopped p \<longleftrightarrow> \<not> pr_matcher_running p \<and> \<not> pr_gateway_running p \<and> \<not> pr_feed_running p \<and> \<not> pr_snapshot_running p"

definition over_threads :: "(thread_pc \<Rightarrow> nat) \<Rightarrow> Program \<Rightarrow> nat" where
  "over_threads w p = sum_list (map (w \<circ> snd) (pr_threads p))"

definition backlog :: "('r \<Rightarrow> 'a LFQueue result) \<Rightarrow> 'r list \<Rightarrow> nat" where
  "backlog queue refs = sum_list (map (\<lambda>ref. case queue ref of Inl e \<Rightarrow> 0 | Inr q \<Rightarrow> num_elements q) refs)"

fun match_weight :: "thread_pc \<Rightarrow> nat" where
  "match_weight (In_match sy) = 1" | "match_weight _ = 0"

fun gateway_weight :: "thread_pc \<Rightarrow> nat" where
  "gateway_weight In_sequence = 3" | "gateway_weight In_route = 2" | "gateway_weight (In_respond i) = 1" | "gateway_weight _ = 0"

fun respond_weight :: "nat \<Rightarrow> thread_pc \<Rightarrow> nat" where
  "respond_weight n (In_respond i) = n - i" | "respond_weight n _ = 0"

fun feed_weight :: "thread_pc \<Rightarrow> nat" where
  "feed_weight (In_publish i) = 1" | "feed_weight _ = 0"

fun publish_weight :: "nat \<Rightarrow> thread_pc \<Rightarrow> nat" where
  "publish_weight n (In_publish i) = n - i" | "publish_weight n _ = 0"

fun snapshot_weight :: "thread_pc \<Rightarrow> nat" where
  "snapshot_weight In_apply = 2" | "snapshot_weight In_timer = 1" | "snapshot_weight _ = 0"

fun test_weight :: "thread_pc \<Rightarrow> nat" where
  "test_weight At_test = 1" | "test_weight _ = 0"

definition stop_measures :: "(Program \<times> Program) set" where
  "stop_measures = measures
     [over_threads match_weight,
      over_threads gateway_weight,
      \<lambda>p. length (ex_routing (pr_exchange p)),
      \<lambda>p. over_threads (respond_weight (length (mc_response_queues (ex_core (pr_exchange p))))) p,
      \<lambda>p. backlog (response_queue (ex_core (pr_exchange p))) (mc_response_queues (ex_core (pr_exchange p))),
      over_threads feed_weight,
      \<lambda>p. over_threads (publish_weight (length (mc_update_queues (ex_core (pr_exchange p))))) p,
      \<lambda>p. backlog (update_queue (ex_core (pr_exchange p))) (mc_update_queues (ex_core (pr_exchange p))),
      over_threads snapshot_weight,
      \<lambda>p. num_elements (fd_snapshot_feed (ex_feed (pr_exchange p))),
      over_threads test_weight]"

lemma over_threads_update:
  assumes "i < length (pr_threads p)" and "pr_threads p ! i = (tid, pc)"
  shows "over_threads w (p\<lparr>pr_exchange := ex, pr_threads := (pr_threads p)[i := (tid, pc')]\<rparr>) + w pc = over_threads w p + w pc'"
proof -
  have "w pc \<le> sum_list (map (w \<circ> snd) (pr_threads p))"
    using assms elem_le_sum_list [of i "map (w \<circ> snd) (pr_threads p)"] by simp
  then show ?thesis
    using assms by (simp add: over_threads_def map_update sum_list_update)
qed

lemma backlog_less:
  assumes "i < length refs" and "queue (refs ! i) = Inr q" and "num_elements q' < num_elements q"
  shows "backlog (\<lambda>ref. if ref = refs ! i then Inr q' else queue ref) refs < backlog queue refs"
proof -
  let ?f = "\<lambda>ref. case queue ref of Inl e \<Rightarrow> 0 | Inr q \<Rightarrow> num_elements q"
  let ?g = "\<lambda>ref. case (if ref = refs ! i then Inr q' else queue ref) of Inl e \<Rightarrow> 0 | Inr q \<Rightarrow> num_elements q"
  have refs: "refs = take i refs @ refs ! i # drop (Suc i) refs" using assms(1) by (rule id_take_nth_drop)
  have le: "?g ref \<le> ?f ref" for ref using assms(2,3) by (simp split: sum.splits)
  have "?g (refs ! i) < ?f (refs ! i)" using assms(2,3) by simp
  moreover have "sum_list (map ?g xs) \<le> sum_list (map ?f xs)" for xs by (rule sum_list_mono) (rule le)
  ultimately have "sum_list (map ?g (take i refs @ refs ! i # drop (Suc i) refs)) < sum_list (map ?f (take i refs @ refs ! i # drop (Suc i) refs))"
    unfolding map_append sum_list.append list.map sum_list.Cons by (meson add_le_less_mono add_less_le_mono)
  then show ?thesis unfolding backlog_def using refs by metis
qed

lemma read_one_shrinks:
  assumes "read_one body q s = Inr (q', s')" and "qsize q \<noteq> 0"
  shows "num_elements q' < num_elements q"
  using assms
  by (auto simp: read_one_def getNextToRead_def qsize_def updateReadIndex_def Let_def rbind_eq_Inr split: if_splits)

text \<open>What the reading steps leave alone.\<close>

lemma set_response_queue_frame:
  assumes "response_queue mc ref = Inr q"
  shows "response_queue (set_response_queue ref q' mc) = (\<lambda>ref'. if ref' = ref then Inr q' else response_queue mc ref')"
    and "mc_response_queues (set_response_queue ref q' mc) = mc_response_queues mc"
  using assms by (cases ref; auto simp: fun_eq_iff set_context_def split: option.splits; case_tac x; simp)+

lemma set_update_queue_frame:
  assumes "update_queue mc ref = Inr q"
  shows "update_queue (set_update_queue ref q' mc) = (\<lambda>ref'. if ref' = ref then Inr q' else update_queue mc ref')"
    and "response_queue (set_update_queue ref q' mc) = response_queue mc"
    and "mc_response_queues (set_update_queue ref q' mc) = mc_response_queues mc"
    and "mc_update_queues (set_update_queue ref q' mc) = mc_update_queues mc"
  using assms by (cases ref; auto simp: fun_eq_iff set_context_def split: option.splits; case_tac x; simp)+

lemma respond_step_shrinks:
  assumes "respond_step i ex = Inr ex'" and "i < length (mc_response_queues (ex_core ex))"
    and "waiting (response_queue (ex_core ex) (mc_response_queues (ex_core ex) ! i))"
  shows "ex_routing ex' = ex_routing ex" and "mc_response_queues (ex_core ex') = mc_response_queues (ex_core ex)"
    and "backlog (response_queue (ex_core ex')) (mc_response_queues (ex_core ex))
      < backlog (response_queue (ex_core ex)) (mc_response_queues (ex_core ex))"
proof -
  let ?mc = "ex_core ex" and ?ref = "mc_response_queues (ex_core ex) ! i"
  obtain q q' lines where q: "response_queue ?mc ?ref = Inr q" "read_one (deliver (ex_gateway ex)) q (ex_response_lines ex) = Inr (q', lines)"
    and ex': "ex' = ex\<lparr>ex_core := set_response_queue ?ref q' ?mc, ex_response_lines := lines\<rparr>"
    using assms(1,2) by (auto simp: respond_step_def Let_def rbind_eq_Inr)
  have "num_elements q' < num_elements q" using read_one_shrinks [OF q(2)] assms(3) q(1) by (simp add: waiting_def)
  then show "ex_routing ex' = ex_routing ex" "mc_response_queues (ex_core ex') = mc_response_queues ?mc"
    "backlog (response_queue (ex_core ex')) (mc_response_queues ?mc) < backlog (response_queue ?mc) (mc_response_queues ?mc)"
    using backlog_less [where queue = "response_queue ?mc", OF assms(2) q(1)] by (simp_all add: ex' set_response_queue_frame [OF q(1)])
qed

lemma publish_step_shrinks:
  assumes "publish_step i ex = Inr ex'" and "i < length (mc_update_queues (ex_core ex))"
    and "waiting (update_queue (ex_core ex) (mc_update_queues (ex_core ex) ! i))"
  shows "ex_routing ex' = ex_routing ex" and "mc_response_queues (ex_core ex') = mc_response_queues (ex_core ex)"
    and "response_queue (ex_core ex') = response_queue (ex_core ex)"
    and "mc_update_queues (ex_core ex') = mc_update_queues (ex_core ex)"
    and "backlog (update_queue (ex_core ex')) (mc_update_queues (ex_core ex))
      < backlog (update_queue (ex_core ex)) (mc_update_queues (ex_core ex))"
proof -
  let ?mc = "ex_core ex" and ?ref = "mc_update_queues (ex_core ex) ! i"
  obtain q q' fd lines where q: "update_queue ?mc ?ref = Inr q" "read_one feed_update q (ex_feed ex, ex_update_lines ex) = Inr (q', fd, lines)"
    and ex': "ex' = ex\<lparr>ex_core := set_update_queue ?ref q' ?mc, ex_feed := fd, ex_update_lines := lines\<rparr>"
    using assms(1,2) by (auto simp: publish_step_def Let_def rbind_eq_Inr)
  have "num_elements q' < num_elements q" using read_one_shrinks [OF q(2)] assms(3) q(1) by (simp add: waiting_def)
  then show "ex_routing ex' = ex_routing ex" "mc_response_queues (ex_core ex') = mc_response_queues ?mc"
    "response_queue (ex_core ex') = response_queue ?mc" "mc_update_queues (ex_core ex') = mc_update_queues ?mc"
    "backlog (update_queue (ex_core ex')) (mc_update_queues ?mc) < backlog (update_queue ?mc) (mc_update_queues ?mc)"
    using backlog_less [where queue = "update_queue ?mc", OF assms(2) q(1)] by (simp_all add: ex' set_update_queue_frame [OF q(1)])
qed

lemma apply_step_shrinks:
  assumes "apply_step ex = Inr ex'" and "qsize (fd_snapshot_feed (ex_feed ex)) \<noteq> 0"
  shows "ex_routing ex' = ex_routing ex" and "ex_core ex' = ex_core ex"
    and "num_elements (fd_snapshot_feed (ex_feed ex')) < num_elements (fd_snapshot_feed (ex_feed ex))"
proof -
  obtain q' s where q: "read_one applyUpdate (fd_snapshot_feed (ex_feed ex)) (ex_snapshots ex) = Inr (q', s)"
    and ex': "ex' = ex\<lparr>ex_feed := (ex_feed ex)\<lparr>fd_snapshot_feed := q'\<rparr>, ex_snapshots := s\<rparr>"
    using assms(1) by (auto simp: apply_step_def rbind_eq_Inr)
  then show "ex_routing ex' = ex_routing ex" "ex_core ex' = ex_core ex"
    "num_elements (fd_snapshot_feed (ex_feed ex')) < num_elements (fd_snapshot_feed (ex_feed ex))"
    using read_one_shrinks [OF q assms(2)] by simp_all
qed

lemma stopped_turn_decreases:
  assumes "stopped p" and "alive i p" and "thread_turn cap srt now1 now2 i p = Inr p'"
  shows "(p', p) \<in> stop_measures"
proof -
  obtain tid pc where t: "pr_threads p ! i = (tid, pc)" by fastforce
  have i: "i < length (pr_threads p)" and live: "pc \<noteq> Exited" using assms(2) t by (simp_all add: alive_def)
  obtain ev pc' where n: "next_turn now1 now2 tid pc p = (ev, pc')" by fastforce
  then obtain ex where ex: "perform cap srt ev (pr_exchange p) = Inr ex"
    and p': "p' = p\<lparr>pr_exchange := ex, pr_threads := (pr_threads p)[i := (tid, pc')]\<rparr>"
    using assms(3) t by (auto simp: thread_turn_def rbind_eq_Inr)
  have w: "over_threads w p' + w pc = over_threads w p + w pc'" for w
    unfolding p' by (rule over_threads_update [OF i t])
  let ?mc = "ex_core (pr_exchange p)"
  note weights = w [of match_weight] w [of gateway_weight] w [of "respond_weight (length (mc_response_queues ?mc))"]
    w [of feed_weight] w [of "publish_weight (length (mc_update_queues ?mc))"] w [of snapshot_weight] w [of test_weight]
  have [simp]: "pr_exchange p' = ex" by (simp add: p')
  show ?thesis
  proof (cases tid)
    case (Matching_thread sy)
    then show ?thesis using n ex weights live assms(1) by (cases pc) (auto simp: stop_measures_def stopped_def)
  next
    case Gateway_thread
    then show ?thesis
      using n ex weights live assms(1)
      by (cases pc) (auto simp: stop_measures_def stopped_def Let_def route_step_def respond_step_shrinks split: if_splits list.splits)
  next
    case Feed_thread
    then show ?thesis
      using n ex weights live assms(1)
      by (cases pc) (auto simp: stop_measures_def stopped_def Let_def publish_step_shrinks split: if_splits)
  next
    case Snapshot_thread
    then show ?thesis
      using n ex weights live assms(1)
      by (cases pc) (auto simp: stop_measures_def stopped_def timer_step_def apply_step_shrinks split: if_splits)
  qed
qed

section \<open>Turns after the stop\<close>

text \<open>A stretch of turns with the events they perform.\<close>

inductive program_turns :: "nat \<Rightarrow> sort_fun \<Rightarrow> Program \<Rightarrow> event list \<Rightarrow> Program \<Rightarrow> bool" for cap srt p where
  none: "program_turns cap srt p [] p"
| more: "program_turns cap srt p evs p' \<Longrightarrow> alive i p' \<Longrightarrow> thread_turn cap srt now1 now2 i p' = Inr p'' \<Longrightarrow>
    program_turns cap srt p
      (evs @ (case fst (next_turn now1 now2 (fst (pr_threads p' ! i)) (snd (pr_threads p' ! i)) p') of None \<Rightarrow> [] | Some ev \<Rightarrow> [ev])) p''"

definition program_turn :: "nat \<Rightarrow> sort_fun \<Rightarrow> Program \<Rightarrow> Program \<Rightarrow> bool" where
  "program_turn cap srt p p' \<longleftrightarrow> (\<exists>i now1 now2. alive i p \<and> thread_turn cap srt now1 now2 i p = Inr p')"

fun matches_of :: "Symbol \<Rightarrow> event \<Rightarrow> bool" where
  "matches_of sy (Match sy' now) = (sy' = sy)" | "matches_of sy _ = False"

fun in_flight_weight :: "Symbol \<Rightarrow> thread_pc \<Rightarrow> nat" where
  "in_flight_weight sy (In_match sy') = (if sy' = sy then 1 else 0)" | "in_flight_weight sy _ = 0"

definition threads_ok :: "Program \<Rightarrow> bool" where
  "threads_ok p \<longleftrightarrow> (\<forall>(tid, pc) \<in> set (pr_threads p). case pc of In_match sy \<Rightarrow> tid = Matching_thread sy | _ \<Rightarrow> True)"

lemma thread_turn_flags:
  assumes "thread_turn cap srt now1 now2 i p = Inr p'"
  shows "stopped p' \<longleftrightarrow> stopped p" and "map fst (pr_threads p') = map fst (pr_threads p)"
proof -
  obtain tid pc ev pc' where t: "pr_threads p ! i = (tid, pc)" "next_turn now1 now2 tid pc p = (ev, pc')" by fastforce
  then obtain ex where p': "p' = p\<lparr>pr_exchange := ex, pr_threads := (pr_threads p)[i := (tid, pc')]\<rparr>"
    using assms by (auto simp: thread_turn_def rbind_eq_Inr)
  show "stopped p' \<longleftrightarrow> stopped p" by (simp add: p' stopped_def)
  show "map fst (pr_threads p') = map fst (pr_threads p)"
    using t(1) list_update_id [of "map fst (pr_threads p)" i]
    by (cases "i < length (pr_threads p)") (simp_all add: p' map_update list_update_beyond)
qed

lemma threads_ok_turn:
  assumes "threads_ok p" and "alive i p" and "thread_turn cap srt now1 now2 i p = Inr p'"
  shows "threads_ok p'"
proof -
  obtain tid pc ev pc' where t: "pr_threads p ! i = (tid, pc)" "next_turn now1 now2 tid pc p = (ev, pc')" by fastforce
  then obtain ex where p': "p' = p\<lparr>pr_exchange := ex, pr_threads := (pr_threads p)[i := (tid, pc')]\<rparr>"
    using assms(3) by (auto simp: thread_turn_def rbind_eq_Inr)
  have "case pc' of In_match sy \<Rightarrow> tid = Matching_thread sy | _ \<Rightarrow> True"
    using t assms(1,2) by (cases tid; cases pc) (auto simp: threads_ok_def alive_def Let_def split: if_splits)
  then show ?thesis
    using assms(1) set_update_subset_insert [of "pr_threads p" i "(tid, pc')"] unfolding threads_ok_def p' by auto
qed

lemma program_run_threads_ok: "program_run cap srt symbols subs log p \<Longrightarrow> threads_ok p"
proof (induction rule: program_run.induct)
  case (boot qs no nl fs)
  show ?case by (simp add: threads_ok_def mk_program_def)
next
  case (call subs log p set_core c p')
  then show ?case by (cases c) (auto simp: lifecycle_defs threads_ok_def)
next
  case (producer subs log p now req)
  then show ?case by (simp add: threads_ok_def)
next
  case (turn subs log p i now1 now2 p')
  then show ?case using threads_ok_turn by blast
qed

lemma in_flight_le_1:
  assumes "threads_ok p" and "distinct (map fst (pr_threads p))"
  shows "over_threads (in_flight_weight sy) p \<le> 1"
proof -
  have "sum_list (map (in_flight_weight sy \<circ> snd) ts) \<le> length (filter (\<lambda>t. fst t = Matching_thread sy) ts)"
    if "\<forall>(tid, pc) \<in> set ts. case pc of In_match sy \<Rightarrow> tid = Matching_thread sy | _ \<Rightarrow> True" for ts
    using that by (induction ts) (auto split: thread_pc.splits)
  moreover have "length (filter (\<lambda>t. fst t = x) ts) \<le> 1" if "distinct (map fst ts)" for ts :: "(thread_id \<times> thread_pc) list" and x
    using that by (induction ts) (auto simp: filter_empty_conv image_iff)
  ultimately show ?thesis
    using assms unfolding threads_ok_def over_threads_def by (meson order_trans)
qed

lemma stopped_turns:
  assumes "program_turns cap srt p evs p'" and "stopped p"
  shows "stopped p' \<and> length (filter (matches_of sy) evs) + over_threads (in_flight_weight sy) p' \<le> over_threads (in_flight_weight sy) p"
  using assms(1)
proof (induction rule: program_turns.induct)
  case none
  then show ?case using assms(2) by simp
next
  case (more evs p' i now1 now2 p'')
  obtain tid pc where t: "pr_threads p' ! i = (tid, pc)" by fastforce
  obtain ev pc' where n: "next_turn now1 now2 tid pc p' = (ev, pc')" by fastforce
  then obtain ex where p'': "p'' = p'\<lparr>pr_exchange := ex, pr_threads := (pr_threads p')[i := (tid, pc')]\<rparr>"
    using more.hyps(3) t by (auto simp: thread_turn_def rbind_eq_Inr)
  have i: "i < length (pr_threads p')" using more.hyps(2) by (simp add: alive_def)
  note w = over_threads_update [OF i t, where w = "in_flight_weight sy" and ex = ex and pc' = pc', folded p'']
  have "in_flight_weight sy pc' + length (filter (matches_of sy) (case ev of None \<Rightarrow> [] | Some ev \<Rightarrow> [ev])) \<le> in_flight_weight sy pc"
    using n more.IH by (cases tid; cases pc) (auto simp: stopped_def Let_def split: if_splits)
  then show ?case using more.IH w t n thread_turn_flags(1) [OF more.hyps(3)] by simp
qed

lemma stopped_turns_wf: "wf {(p', p). stopped p \<and> program_turn cap srt p p'}"
  by (rule wf_subset [of stop_measures]) (auto simp: program_turn_def stopped_turn_decreases, simp add: stop_measures_def)

lemma turn_progress:
  assumes "distinct symbols" and "sort_contract srt" and "program_run cap srt symbols subs log p"
    and "thread_turn cap srt now1 now2 i p = Inl e"
  shows "e = PoolOutOfSpace"
proof -
  obtain tid pc ev pc' where t: "pr_threads p ! i = (tid, pc)" "next_turn now1 now2 tid pc p = (ev, pc')" by fastforce
  then have "perform cap srt ev (pr_exchange p) = Inl e" using assms(4) by (auto simp: thread_turn_def rbind_eq_Inl)
  then obtain ev' where "exchange_step cap srt ev' (pr_exchange p) = Inl e" by (cases ev) auto
  then show ?thesis
    using exchange_step_error exchange_run_inv [OF assms(1,2) program_run_exchange [OF assms(3)]] by blast
qed

text \<open>What \<open>main\<close> starts: a matching thread per symbol, the gateway, the feed and the snapshot thread, on any machine.\<close>

lemma main_start_threads:
  "main_start set_core walk (mk_program ex) =
     Some \<lparr>pr_exchange = ex, pr_matcher_running = True, pr_gateway_running = True, pr_feed_running = True, pr_snapshot_running = True,
       pr_threads = map (\<lambda>sy. (Matching_thread sy, At_test)) walk
         @ [(Gateway_thread, At_test), (Feed_thread, At_test), (Snapshot_thread, At_test)]\<rparr>"
  by (simp add: main_start_def mk_program_def lifecycle_defs)

lemma main_start_run:
  assumes "program_run cap srt symbols subs log p" and "main_start set_core walk p = Some p'"
  shows "program_run cap srt symbols subs log p'"
proof -
  obtain p1 p2 where "call_main set_core (Start_matcher walk) p = Some p1" "call_main set_core Start_gateway p1 = Some p2"
    "call_main set_core Start_feed p2 = Some p'"
    using assms(2) by (auto simp: main_start_def Option.bind_eq_Some_conv)
  then show ?thesis using assms(1) program_run.call by metis
qed

lemma main_stop_run:
  assumes "program_run cap srt symbols subs log p"
  shows "program_run cap srt symbols subs log (main_stop p)" and "stopped (main_stop p)"
proof -
  have "call_main set_core Stop_feed p = Some (MarketDataFeed_stop p)" "call_main set_core Stop_gateway q = Some (OrderGatewayServer_stop q)"
    "call_main set_core Stop_matcher r = Some (MatchingCore_stop r)" for set_core q r by simp_all
  then show "program_run cap srt symbols subs log (main_stop p)"
    unfolding main_stop_def using assms program_run.call by metis
  show "stopped (main_stop p)" by (simp add: main_stop_def lifecycle_defs stopped_def)
qed

abbreviation demo_exchange :: Exchange where
  "demo_exchange \<equiv> mk_exchange 2 2 2 2 [''A'']"

lemma demo_started:
  obtains p where "program_run 8 (sort_key req_recv_time) [''A''] [] [] p" and "pr_exchange p = demo_exchange"
    and "pr_matcher_running p"
    and "pr_threads p = [(Matching_thread ''A'', At_test), (Gateway_thread, At_test), (Feed_thread, At_test), (Snapshot_thread, At_test)]"
proof -
  have "program_run 8 (sort_key req_recv_time) [''A''] [] [] (mk_program demo_exchange)" by (rule program_run.boot) simp_all
  from main_start_run [OF this main_start_threads [of _ "[''A'']"]] show ?thesis by (rule that) simp_all
qed

lemma main_stop_simps [simp]:
  "pr_exchange (main_stop p) = pr_exchange p" "pr_threads (main_stop p) = pr_threads p"
  by (simp_all add: main_stop_def lifecycle_defs)

text \<open>A program that is stopped while its matching thread is about to match.\<close>

lemma demo_stopped:
  obtains p where "program_run 8 (sort_key req_recv_time) [''A''] [] [] p" and "stopped p" and "pr_exchange p = demo_exchange"
    and "pr_threads p = [(Matching_thread ''A'', In_match ''A''), (Gateway_thread, At_test), (Feed_thread, At_test), (Snapshot_thread, At_test)]"
proof -
  let ?srt = "sort_key req_recv_time"
  obtain p where p: "program_run 8 ?srt [''A''] [] [] p" "pr_exchange p = demo_exchange" "pr_matcher_running p"
    "pr_threads p = [(Matching_thread ''A'', At_test), (Gateway_thread, At_test), (Feed_thread, At_test), (Snapshot_thread, At_test)]"
    by (rule demo_started)
  let ?p = "p\<lparr>pr_threads := (pr_threads p)[0 := (Matching_thread ''A'', In_match ''A'')]\<rparr>"
  have t: "thread_turn 8 ?srt 1 2 0 p = Inr ?p" using p(3,4) by (simp add: thread_turn_def)
  have "no_overflow [''A''] demo_exchange" by code_simp
  then have "program_run 8 ?srt [''A''] [] [] ?p"
    using program_run.turn [OF p(1) _ t] p(2-4) by (simp add: alive_def)
  from main_stop_run [OF this] show ?thesis by (rule that) (simp_all add: p(2,4))
qed

section \<open>Properties\<close>

text \<open>
  C27 A stopped program comes to an end: in a run without queue overflow, once \<open>main\<close> has cleared the four flags, no schedule of the threads
  goes on forever, and until all threads have left their loops each of them can take its next turn, unless
  an order finds its memory pool exhausted.
\<close>

theorem stopped_program_halts:
  assumes "distinct symbols" and "sort_contract srt" and "program_run cap srt symbols subs log p" and "stopped p"
  shows "(\<nexists>f. f 0 = p \<and> (\<forall>k. program_turn cap srt (f k) (f (Suc k)))) \<and>
    (\<forall>i now1 now2. alive i p \<longrightarrow>
       (\<exists>p'. thread_turn cap srt now1 now2 i p = Inr p' \<and> stopped p') \<or> thread_turn cap srt now1 now2 i p = Inl PoolOutOfSpace)"
proof (intro conjI notI allI impI)
  assume "\<exists>f. f 0 = p \<and> (\<forall>k. program_turn cap srt (f k) (f (Suc k)))"
  then obtain f where f: "f 0 = p" "\<And>k. program_turn cap srt (f k) (f (Suc k))" by blast
  have "stopped (f k)" for k
    by (induction k) (use f assms(4) thread_turn_flags(1) in \<open>auto simp: program_turn_def, metis\<close>)
  then have "\<forall>k. (f (Suc k), f k) \<in> {(p', p). stopped p \<and> program_turn cap srt p p'}" using f(2) by simp
  then show False using stopped_turns_wf [of cap srt] unfolding wf_iff_no_infinite_down_chain by blast
next
  fix i now1 now2
  show "(\<exists>p'. thread_turn cap srt now1 now2 i p = Inr p' \<and> stopped p') \<or> thread_turn cap srt now1 now2 i p = Inl PoolOutOfSpace"
    using turn_progress [OF assms(1-3), of now1 now2 i] thread_turn_flags(1) [of cap srt now1 now2 i p] assms(4)
    by (cases "thread_turn cap srt now1 now2 i p") auto
qed

theorem stopped_program_halts_witness:
  "\<exists>p. program_run 8 (sort_key req_recv_time) [''A''] [] [] p \<and> stopped p \<and> alive 0 p \<and>
     (\<nexists>f. f 0 = p \<and> (\<forall>k. program_turn 8 (sort_key req_recv_time) (f k) (f (Suc k))))"
proof -
  obtain p where p: "program_run 8 (sort_key req_recv_time) [''A''] [] [] p" "stopped p" "alive 0 p"
    using demo_stopped by (metis alive_def length_greater_0_conv list.distinct(1) nth_Cons_0 snd_conv thread_pc.distinct(29))
  then show ?thesis using stopped_program_halts [OF _ sort_key_contract p(1,2)] by auto
qed

text \<open>
  C28 Stopping abandons the backlog: in a program with one matching thread per symbol, run without queue
  overflow, every symbol has at most
  one more request processed after the flags are cleared, however long the threads go on and however many
  requests are still queued for it.
\<close>

theorem stop_abandons_backlog:
  assumes "program_run cap srt symbols subs log p" and "distinct (map fst (pr_threads p))" and "stopped p"
    and "program_turns cap srt p evs p'"
  shows "length (filter (matches_of sy) evs) \<le> 1"
  using stopped_turns [OF assms(4,3), of sy] in_flight_le_1 [OF program_run_threads_ok [OF assms(1)] assms(2), of sy] by linarith

theorem stop_abandons_backlog_witness:
  "\<exists>p p'. program_run 8 (sort_key req_recv_time) [''A''] [] [] p \<and> stopped p \<and>
     program_turns 8 (sort_key req_recv_time) p [Match ''A'' 1] p' \<and> length (filter (matches_of ''A'') [Match ''A'' 1]) \<le> 1"
proof -
  let ?srt = "sort_key req_recv_time"
  obtain p where p: "program_run 8 ?srt [''A''] [] [] p" "stopped p" "pr_exchange p = demo_exchange"
    "pr_threads p = [(Matching_thread ''A'', In_match ''A''), (Gateway_thread, At_test), (Feed_thread, At_test), (Snapshot_thread, At_test)]"
    by (rule demo_stopped)
  have "isl (exchange_step 8 ?srt (Match ''A'' 1) demo_exchange) = False" by code_simp
  then obtain ex where "exchange_step 8 ?srt (Match ''A'' 1) demo_exchange = Inr ex" by (metis isl_def sum.exhaust)
  then have "thread_turn 8 ?srt 1 2 0 p = Inr (p\<lparr>pr_exchange := ex, pr_threads := (pr_threads p)[0 := (Matching_thread ''A'', At_test)]\<rparr>)"
    using p(3,4) by (simp add: thread_turn_def)
  then have "program_turns 8 ?srt p [Match ''A'' 1] (p\<lparr>pr_exchange := ex, pr_threads := (pr_threads p)[0 := (Matching_thread ''A'', At_test)]\<rparr>)"
    using program_turns.more [OF program_turns.none, of 0 p 8 ?srt 1 2] p(4) by (simp add: alive_def)
  moreover have "distinct (map fst (pr_threads p))" by (simp add: p(4))
  ultimately have "program_turns 8 ?srt p [Match ''A'' 1] (p\<lparr>pr_exchange := ex, pr_threads := (pr_threads p)[0 := (Matching_thread ''A'', At_test)]\<rparr>) \<and>
      length (filter (matches_of ''A'') [Match ''A'' 1]) \<le> 1"
    using stop_abandons_backlog [OF p(1) _ p(2)] by blast
  then show ?thesis using p(1,2) by blast
qed

end
