(* ===== verification/Capacity.thy ===== *)
theory Capacity
  imports SystemInvariant
begin

text \<open>
  How large an input the fixed sizes of queues and pools can take. A request emits a bounded number
  of messages, amortised over the orders it removes from the book: \<open>n\<close> requests emit at most
  \<open>5 n\<close> responses and \<open>5 n\<close> book updates. So an exchange whose queues have five slots and whose
  pools have more than one block per submitted request never overflows and never fails, in any
  interleaving of its threads.
\<close>

section \<open>The volume of messages\<close>

lemma match_orders_volume:
  assumes "match_orders sy cid oid sd beyond leaves os = (os', l', rs, us)"
  shows "length rs + 2 * length os' \<le> 2 * length os + 2 \<and> length us = length rs"
  using assms
proof (induction sy cid oid sd beyond leaves os arbitrary: os' l' rs us rule: match_orders.induct)
  case (2 sy cid oid sd beyond leaves r os)
  show ?case
  proof (cases "leaves = 0 \<or> beyond (bo_price r) \<or> bo_client_id r = cid")
    case True
    then show ?thesis using 2 by (auto split: if_splits prod.splits)
  next
    case False
    let ?fill = "min leaves (bo_qty r)"
    obtain os1 l1 rs1 us1 where m: "match_orders sy cid oid sd beyond (leaves - ?fill) os = (os1, l1, rs1, us1)"
      using prod_cases4 by blast
    have r: "os' = after_fill r ?fill @ os1" "rs = fill_responses sy cid oid sd r ?fill (leaves - ?fill) @ rs1" "us = fill_updates sy r ?fill @ us1"
      using 2(3) False m by (auto simp: Let_def)
    have ih: "length rs1 + 2 * length os1 \<le> 2 * length os + 2 \<and> length us1 = length rs1"
      using 2(2) False m by auto
    show ?thesis
    proof (cases "bo_qty r - ?fill = 0")
      case True
      then show ?thesis using r ih by (simp add: after_fill_def fill_responses_def fill_updates_def)
    next
      case False
      then have "leaves - ?fill = 0" by (auto simp: min_def)
      then have "rs1 = []" "us1 = []" "os1 = os" using m by simp_all
      then show ?thesis using r False by (simp add: after_fill_def fill_responses_def fill_updates_def)
    qed
  qed
qed simp

lemma order_count_set_side:
  "order_count (set_side bid os a) + length (side_orders bid a) = order_count a + length os"
  by (cases bid) (simp_all add: order_count_sides)

lemma match_book_volume:
  assumes "match_book cid oid sd lp hl qty a = (l, a', rs, us)"
  shows "length rs + 2 * order_count a' \<le> 2 * order_count a + 2 \<and> length us = length rs"
proof -
  obtain os where m: "match_orders (ab_symbol a) cid oid sd (beyond_limit sd hl lp) qty (side_orders (sd \<noteq> BUY) a) = (os, l, rs, us)"
    "a' = set_side (sd \<noteq> BUY) os a"
    using assms by (auto simp: match_book_def split: prod.splits)
  then show ?thesis using match_orders_volume [OF m(1)] order_count_set_side [of "sd \<noteq> BUY" os a] by simp
qed

lemma order_count_rest: "order_count (rest x a) = order_count a + 1"
proof -
  have "length (insert_order bid x os) = length os + 1" for bid os
    by (simp add: insert_order_def) (metis length_append takeWhile_dropWhile_id)
  then show ?thesis
    using order_count_set_side [of "bo_side x = BUY" "insert_order (bo_side x = BUY) x (side_orders (bo_side x = BUY) a)" a]
    by (simp add: rest_def Let_def)
qed

lemma match_and_rest_volume:
  assumes "match_and_rest now cid oid ot sd p q a = (a', rs, us)"
  shows "length rs + 2 * order_count a' \<le> 2 * order_count a + 4" and "length us + 2 * order_count a' \<le> 2 * order_count a + 5"
proof -
  obtain l a1 rs1 us1 where m: "match_book cid oid sd p True q a = (l, a1, rs1, us1)" using prod_cases4 by blast
  show "length rs + 2 * order_count a' \<le> 2 * order_count a + 4" "length us + 2 * order_count a' \<le> 2 * order_count a + 5"
    using assms m match_book_volume [OF m] by (auto simp: match_and_rest_def order_count_rest split: if_splits)
qed

lemma order_count_unrest: "order_count (unrest r a) \<le> order_count a"
  using unrest_no_larger by (simp add: no_larger_def)

lemma order_count_update_qty: "order_count (set_side bid (update_qty oid q (side_orders bid a)) a) = order_count a"
  using order_count_set_side [of bid "update_qty oid q (side_orders bid a)" a] by (simp add: update_qty_def)

definition volume_ok :: "abook \<Rightarrow> op_result \<Rightarrow> bool" where
  "volume_ok a res \<longleftrightarrow> (case res of (a', rs, us) \<Rightarrow>
     length rs + 2 * order_count a' \<le> 2 * order_count a + 5 \<and> length us + 2 * order_count a' \<le> 2 * order_count a + 5)"

lemma spec_modify_volume: "volume_ok a (spec_modify now cid oid p q a)"
proof (cases "own_order cid oid a")
  case (Some r)
  obtain a' rs us where m: "match_and_rest now cid oid (bo_order_type r) (bo_side r) p q (unrest r a) = (a', rs, us)"
    using prod_cases3 by blast
  then show ?thesis
    using Some match_and_rest_volume [OF m] order_count_unrest [of r a]
    by (simp add: spec_modify_def volume_ok_def Let_def order_count_update_qty order_count_rest)
qed (simp add: spec_modify_def volume_ok_def)

lemma spec_request_volume: "volume_ok a (spec_request now req a)"
proof -
  have limit: "volume_ok a (spec_limit now cid oid sd p q a)" for cid oid sd p q
    using match_and_rest_volume by (fastforce simp: spec_limit_def volume_ok_def split: prod.splits)
  have immediate: "volume_ok a (spec_immediate cid oid sd p hl q a)" for cid oid sd p hl q
    using match_book_volume by (fastforce simp: spec_immediate_def volume_ok_def split: prod.splits)
  have cancel: "volume_ok a (spec_cancel cid oid a)" for cid oid
    using order_count_unrest [of "the (own_order cid oid a)" a]
    by (cases "own_order cid oid a") (simp_all add: spec_cancel_def volume_ok_def)
  show ?thesis
    using limit immediate cancel spec_modify_volume
    by (cases "req_order_type req") (simp_all add: spec_request_def Let_def, simp_all add: volume_ok_def)
qed

lemma spec_all_volume:
  assumes "spec_all (\<lambda>(now, req). spec_request now req) hist a = (a', rs, us)"
  shows "length rs + 2 * order_count a' \<le> 2 * order_count a + 5 * length hist"
    and "length us + 2 * order_count a' \<le> 2 * order_count a + 5 * length hist"
proof -
  have "length rs + 2 * order_count a' \<le> 2 * order_count a + 5 * length hist \<and>
      length us + 2 * order_count a' \<le> 2 * order_count a + 5 * length hist"
    using assms
  proof (induction hist arbitrary: a rs us)
    case (Cons x hist)
    obtain a1 rs1 us1 rs2 us2 where s: "spec_request (fst x) (snd x) a = (a1, rs1, us1)"
      "spec_all (\<lambda>(now, req). spec_request now req) hist a1 = (a', rs2, us2)" "rs = rs1 @ rs2" "us = us1 @ us2"
      using Cons.prems by (auto split: prod.splits)
    then show ?case using Cons.IH [OF s(2)] spec_request_volume [of a "fst x" "snd x"] by (simp add: volume_ok_def)
  qed simp
  then show "length rs + 2 * order_count a' \<le> 2 * order_count a + 5 * length hist"
    "length us + 2 * order_count a' \<le> 2 * order_count a + 5 * length hist" by simp_all
qed

lemma spec_all_grows:
  assumes "spec_all (\<lambda>(now, req). spec_request now req) hist a = (a', rs, us)"
  shows "order_count a' \<le> order_count a + length hist \<and> level_count a' \<le> level_count a + length hist"
  using assms
proof (induction hist arbitrary: a rs us)
  case (Cons x hist)
  obtain a1 rs1 us1 rs2 us2 where s: "spec_request (fst x) (snd x) a = (a1, rs1, us1)"
    "spec_all (\<lambda>(now, req). spec_request now req) hist a1 = (a', rs2, us2)"
    using Cons.prems by (auto split: prod.splits)
  then show ?case using Cons.IH [OF s(2)] spec_request_grows [OF s(1)] by (auto simp: grows_def)
qed simp

section \<open>Sizes stay what they are\<close>

definition ctx_sized :: "nat \<Rightarrow> nat \<Rightarrow> nat \<Rightarrow> SymbolContext \<Rightarrow> bool" where
  "ctx_sized qs no nl ctx \<longleftrightarrow>
     capacity (ctx_request_queue ctx) = qs \<and> capacity (bk_response_queue (ctx_book ctx)) = qs \<and>
     capacity (bk_update_queue (ctx_book ctx)) = qs \<and>
     pool_size (bk_order_pool (ctx_book ctx)) = no \<and> pool_size (bk_level_pool (ctx_book ctx)) = nl"

definition sized :: "nat \<Rightarrow> nat \<Rightarrow> nat \<Rightarrow> nat \<Rightarrow> Exchange \<Rightarrow> bool" where
  "sized qs no nl fs ex \<longleftrightarrow>
     capacity (mc_unknown_symbol_responses (ex_core ex)) = qs \<and> capacity (fd_snapshot_feed (ex_feed ex)) = fs \<and>
     (\<forall>sy ctx. mc_contexts (ex_core ex) sy = Some ctx \<longrightarrow> ctx_sized qs no nl ctx)"

lemma read_one_capacity: "read_one body q s = Inr (q', s') \<Longrightarrow> capacity q' = capacity q"
  by (auto simp: read_one_def updateReadIndex_def Let_def rbind_eq_Inr capacity_def split: option.splits if_splits)

lemma mk_exchange_sized: "distinct symbols \<Longrightarrow> sized qs no nl fs (mk_exchange qs no nl fs symbols)"
  using core_for_distinct_symbols [of symbols qs no nl]
  by (auto simp: sized_def ctx_sized_def mk_exchange_def mk_context_def mk_book_def subscribe_def split: if_splits)

text \<open>A matching thread with room for one more order finishes its request, and its messages fit.\<close>

lemma run_step_sized:
  assumes inv: "symbol_inv sy log D P ctx" and sz: "ctx_sized qs no nl ctx"
    and n: "length (for_symbol sy log) \<le> N" "N < no" "N < nl" "5 * N \<le> qs"
  obtains ctx' where "run_step now ctx = Inr ctx'" and "ctx_sized qs no nl ctx'" and "ctx_no_overflow ctx'"
proof (cases "contents (ctx_request_queue ctx)")
  case Nil
  then have "run_step now ctx = Inr ctx" using inv by (simp add: symbol_inv_def run_step_def getNextToRead_contents queue_inv_read_inv)
  moreover have "ctx_no_overflow ctx" using inv by (simp add: symbol_inv_def ctx_no_overflow_def queue_inv_def)
  ultimately show ?thesis using that sz by blast
next
  case (Cons req reqs)
  let ?b = "ctx_book ctx" and ?q = "ctx_request_queue ctx"
  obtain hist a where h: "sequential sy hist a (of_symbol sy D @ contents (bk_response_queue ?b)) (updates_of sy P @ contents (bk_update_queue ?b))"
    "map snd hist @ contents ?q = for_symbol sy log" "represents ?b a"
    using inv by (auto simp: symbol_inv_def)
  have q: "queue_inv ?q" using inv by (simp add: symbol_inv_def)
  obtain q' where q': "updateReadIndex ?q = Inr q'" "contents q' = reqs" using ring.adv_elems [OF q Cons] by blast
  have "length hist + length (contents ?q) \<le> N" using n(1) h(2) by (metis length_append length_map)
  then have len: "length hist + 1 + length reqs \<le> N" using Cons by simp
  have "order_count a + 1 < no" "level_count a + 1 < nl"
    using spec_all_grows [OF h(1) [unfolded sequential_def]] len n(2,3)
    by (simp_all add: empty_abook_def order_count_sides level_count_def side_orders_def)
  then have "fits ?b a" using sz by (simp add: fits_def ctx_sized_def)
  moreover obtain a' rs us where s: "spec_request now req a = (a', rs, us)" using prod_cases3 by blast
  ultimately obtain b' where b': "dispatch now req ?b = Inr b'" "effect ?b rs us b'"
    using dispatch_ok [OF h(3), of now req] by (cases "dispatch now req ?b") auto
  have "getNextToRead ?q = Some req" using Cons q by (simp add: getNextToRead_contents queue_inv_read_inv)
  then have run: "run_step now ctx = Inr (ctx\<lparr>ctx_book := b', ctx_request_queue := q'\<rparr>)"
    using b'(1) q'(1) by (simp add: run_step_def processRequest_def)
  have q'': "capacity q' = capacity ?q" "num_elements q' \<le> capacity q'"
    using updateReadIndex_inv [OF q q'(1)] by (simp_all add: queue_inv_def)
  have "sequential sy (hist @ [(now, req)]) a' (of_symbol sy D @ contents (bk_response_queue ?b) @ rs)
      (updates_of sy P @ contents (bk_update_queue ?b) @ us)"
    using h(1) s by (simp add: sequential_def spec_all_snoc)
  from spec_all_volume [OF this [unfolded sequential_def]] len
  have "num_elements (bk_response_queue ?b) + length rs \<le> 5 * N" "num_elements (bk_update_queue ?b) + length us \<le> 5 * N"
    by (simp_all add: empty_abook_def order_count_sides side_orders_def)
  then show ?thesis
    using that [OF run] b'(2) q'' sz n(4) by (simp add: ctx_sized_def ctx_no_overflow_def effect_def)
qed

section \<open>Steps of a small exchange\<close>

lemma inv_no_overflow:
  assumes "exchange_inv symbols subs log D P A ex"
  shows "no_overflow symbols ex"
  using assms
  by (auto simp: no_overflow_def list_all_iff exchange_inv_def core_inv_def feed_inv_def symbol_inv_def ctx_no_overflow_def
      queue_inv_def split: option.splits)

lemma log_le_subs:
  assumes "exchange_inv symbols subs log D P A ex"
  shows "length log + length (ex_routing ex) \<le> length subs"
proof -
  have "mset log + mset (ex_routing ex) + mset (map tag (gw_inbox (ex_gateway ex))) = mset subs"
    using assms by (simp add: exchange_inv_def gateway_inv_def)
  then show ?thesis by (metis add_leD1 le_refl size_mset size_union)
qed

lemma for_symbol_le: "length (for_symbol sy log) \<le> length log"
  by (simp add: for_symbol_def)

lemma sum_filters_le:
  assumes "distinct symbols"
  shows "(\<Sum>sy \<leftarrow> symbols. length (filter (\<lambda>x. f x = sy) xs)) \<le> length xs"
proof (induction xs)
  case (Cons x xs)
  have "(\<Sum>sy \<leftarrow> symbols. length (filter (\<lambda>x. f x = sy) (x # xs))) =
      (\<Sum>sy \<leftarrow> symbols. (if sy = f x then 1 else 0)) + (\<Sum>sy \<leftarrow> symbols. length (filter (\<lambda>x. f x = sy) xs))"
    by (simp flip: sum_list_addf) (rule arg_cong [where f = sum_list], auto)
  moreover have "(\<Sum>sy \<leftarrow> symbols. (if sy = f x then 1 else 0)) \<le> (1 :: nat)"
    using assms by (induction symbols) auto
  ultimately show ?case using Cons.IH by simp
qed simp

lemma sum_filters_eq:
  assumes "\<forall>x \<in> set xs. f x \<in> set symbols"
  shows "length xs \<le> (\<Sum>sy \<leftarrow> symbols. length (filter (\<lambda>x. f x = sy) xs))"
  using assms
proof (induction xs)
  case (Cons x xs)
  have "(\<Sum>sy \<leftarrow> symbols. length (filter (\<lambda>x. f x = sy) (x # xs))) =
      (\<Sum>sy \<leftarrow> symbols. (if sy = f x then 1 else 0)) + (\<Sum>sy \<leftarrow> symbols. length (filter (\<lambda>x. f x = sy) xs))"
    by (simp flip: sum_list_addf) (rule arg_cong [where f = sum_list], auto)
  moreover have "1 \<le> (\<Sum>sy \<leftarrow> symbols. (if sy = f x then 1 else 0 :: nat))" if "f x \<in> set symbols"
    using that by (induction symbols) auto
  ultimately show ?case using Cons by simp
qed simp

text \<open>All updates that were published or are queued for one of the symbols, counted together.\<close>

lemma published_le:
  assumes inv: "exchange_inv symbols subs log D P A ex" and "distinct symbols" and ctx: "mc_contexts (ex_core ex) sy = Some ctx"
  shows "length P + num_elements (bk_update_queue (ctx_book ctx)) \<le> 5 * length log"
proof -
  have core: "core_inv symbols log D P (ex_core ex)" using inv by (simp add: exchange_inv_def)
  let ?k = "\<lambda>sy'. if sy' = sy then num_elements (bk_update_queue (ctx_book ctx)) else 0"
  have each: "length (updates_of sy' P) + ?k sy' \<le> 5 * length (for_symbol sy' log)" if sy': "sy' \<in> set symbols" for sy'
  proof -
    obtain ctx' hist a where c: "mc_contexts (ex_core ex) sy' = Some ctx'"
      "map snd hist @ contents (ctx_request_queue ctx') = for_symbol sy' log"
      "sequential sy' hist a (of_symbol sy' D @ contents (bk_response_queue (ctx_book ctx')))
        (updates_of sy' P @ contents (bk_update_queue (ctx_book ctx')))"
      using symbol_inv_sequential [OF inv sy'] by metis
    have "length hist \<le> length (for_symbol sy' log)" using c(2) by (metis length_append length_map le_add1)
    then show ?thesis
      using spec_all_volume(2) [OF c(3) [unfolded sequential_def]] c(1) ctx
      by (auto simp: empty_abook_def order_count_sides side_orders_def)
  qed
  have "length P \<le> (\<Sum>sy' \<leftarrow> symbols. length (updates_of sy' P))"
    using core by (intro sum_filters_eq) (simp add: core_inv_def)
  moreover have "num_elements (bk_update_queue (ctx_book ctx)) \<le> (\<Sum>sy' \<leftarrow> symbols. ?k sy')"
  proof -
    have "?k sy \<le> sum_list (map ?k symbols)" using core_inv_known [OF core ctx] by (intro member_le_sum_list) auto
    then show ?thesis by simp
  qed
  moreover have "(\<Sum>sy' \<leftarrow> symbols. length (updates_of sy' P) + ?k sy') \<le> (\<Sum>sy' \<leftarrow> symbols. 5 * length (for_symbol sy' log))"
    using each by (rule sum_list_mono)
  moreover have "(\<Sum>sy' \<leftarrow> symbols. 5 * length (for_symbol sy' log)) \<le> 5 * length log"
    using sum_filters_le [OF assms(2), of req_symbol log] by (simp add: for_symbol_def sum_list_const_mult)
  ultimately show ?thesis by (simp add: sum_list_addf)
qed

text \<open>
  An exchange for at most \<open>N\<close> requests: five slots per request in every queue, one spare block per
  request in every pool.
\<close>

definition roomy :: "nat \<Rightarrow> nat \<Rightarrow> nat \<Rightarrow> nat \<Rightarrow> nat \<Rightarrow> bool" where
  "roomy N qs no nl fs \<longleftrightarrow> 5 * N \<le> qs \<and> N < no \<and> N < nl \<and> 5 * N \<le> fs"

lemma route_step_room:
  assumes inv: "exchange_inv symbols subs log D P A ex" and sz: "sized qs no nl fs ex" and "roomy N qs no nl fs" and "length subs \<le> N"
  shows "sized qs no nl fs (route_step ex) \<and> no_overflow symbols (route_step ex)"
proof (cases "ex_routing ex")
  case (Cons r rs)
  let ?mc = "ex_core ex"
  have core: "core_inv symbols log D P ?mc" using inv by (simp add: exchange_inv_def)
  have len: "length log + 1 \<le> qs" using log_le_subs [OF inv] Cons assms(3,4) by (simp add: roomy_def)
  have old: "no_overflow symbols ex" by (rule inv_no_overflow [OF inv])
  show ?thesis
  proof (cases "mc_contexts ?mc (req_symbol r)")
    case None
    have "filter (\<lambda>r. rsp_symbol r \<notin> set symbols) D @ contents (mc_unknown_symbol_responses ?mc) =
        map reject_of (filter (\<lambda>r. req_symbol r \<notin> set symbols) log)"
      using core by (simp add: core_inv_def)
    then have "num_elements (mc_unknown_symbol_responses ?mc) \<le> length log"
      by (metis (no_types, lifting) length_append length_contents length_filter_le length_map le_add2 le_trans)
    then show ?thesis
      using sz old len Cons None
      by (simp add: route_step_def routeRequest_def publishReject_def sized_def no_overflow_def)
  next
    case (Some ctx)
    have sinv: "symbol_inv (req_symbol r) log D P ctx" using core Some by (simp add: core_inv_def)
    then obtain hist :: "(Nanos \<times> EngineOrderRequest) list"
      where "map snd hist @ contents (ctx_request_queue ctx) = for_symbol (req_symbol r) log"
      by (auto simp: symbol_inv_def)
    then have "num_elements (ctx_request_queue ctx) \<le> length log"
      by (metis for_symbol_le le_add2 le_trans length_append length_contents)
    then show ?thesis
      using sz old len Cons Some
      by (auto simp: route_step_def routeRequest_def sized_def ctx_sized_def no_overflow_def ctx_no_overflow_def list_all_iff)
  qed
qed (use sz inv_no_overflow [OF inv] in \<open>simp add: route_step_def\<close>)

lemma match_step_room:
  assumes inv: "exchange_inv symbols subs log D P A ex" and sz: "sized qs no nl fs ex" and N: "roomy N qs no nl fs" and "length subs \<le> N"
  obtains ex' where "match_step sy now ex = Inr ex'" and "sized qs no nl fs ex'" and "no_overflow symbols ex'"
proof (cases "mc_contexts (ex_core ex) sy")
  case None
  then show ?thesis using that [of ex] sz inv_no_overflow [OF inv] by (simp add: match_step_def)
next
  case (Some ctx)
  have sinv: "symbol_inv sy log D P ctx" using inv Some by (simp add: exchange_inv_def core_inv_def)
  have csz: "ctx_sized qs no nl ctx" using sz Some by (simp add: sized_def)
  have n: "length (for_symbol sy log) \<le> N" using for_symbol_le [of sy log] log_le_subs [OF inv] assms(4) by simp
  obtain ctx' where c: "run_step now ctx = Inr ctx'" "ctx_sized qs no nl ctx'" "ctx_no_overflow ctx'"
    using run_step_sized [OF sinv csz n] N by (auto simp: roomy_def)
  then have "match_step sy now ex = Inr (ex\<lparr>ex_core := set_context sy ctx' (ex_core ex)\<rparr>)" using Some by (simp add: match_step_def)
  then show ?thesis
    using that c(2,3) sz inv_no_overflow [OF inv] by (auto simp: sized_def set_context_def no_overflow_def list_all_iff)
qed

lemma set_response_queue_sized:
  assumes "sized qs no nl fs ex" and "response_queue (ex_core ex) ref = Inr q" and "capacity q' = capacity q"
  shows "sized qs no nl fs (ex\<lparr>ex_core := set_response_queue ref q' (ex_core ex), ex_response_lines := lines\<rparr>)"
  using assms by (cases ref) (auto simp: sized_def ctx_sized_def set_context_def split: option.splits)

lemma respond_step_sized:
  assumes "respond_step i ex = Inr ex'" and "sized qs no nl fs ex"
  shows "sized qs no nl fs ex'"
  using assms read_one_capacity set_response_queue_sized [OF assms(2)]
  by (fastforce simp: respond_step_def Let_def rbind_eq_Inr split: if_splits prod.splits)

lemma publish_step_room:
  assumes inv: "exchange_inv symbols subs log D P A ex" and sz: "sized qs no nl fs ex" and N: "roomy N qs no nl fs" "length subs \<le> N"
    and "distinct symbols" and st: "publish_step i ex = Inr ex'"
  shows "sized qs no nl fs ex' \<and> no_overflow symbols ex'"
proof (cases "i < length (mc_update_queues (ex_core ex))")
  case True
  have core: "core_inv symbols log D P (ex_core ex)" and feed: "feed_inv P A (ex_feed ex) (ex_snapshots ex) (ex_update_lines ex)"
    using inv by (simp_all add: exchange_inv_def)
  obtain sy where ref: "mc_update_queues (ex_core ex) ! i = Of_Symbol sy" "sy \<in> set symbols"
    using core True by (auto simp: core_inv_def)
  then obtain ctx where ctx: "mc_contexts (ex_core ex) sy = Some ctx" using core unfolding core_inv_def by (metis option.exhaust)
  let ?q = "bk_update_queue (ctx_book ctx)"
  have "queue_inv ?q" using core ctx by (simp add: core_inv_def symbol_inv_def)
  then obtain q' us where q': "read_one feed_update ?q (ex_feed ex, ex_update_lines ex) =
      Inr (q', fold feed_update us (ex_feed ex, ex_update_lines ex))" "queue_inv q'" "contents ?q = us @ contents q'"
    by (rule read_one_ok)
  let ?sf = "push_all us (fd_snapshot_feed (ex_feed ex))"
  have ex': "ex' = ex\<lparr>ex_core := set_context sy (ctx\<lparr>ctx_book := (ctx_book ctx)\<lparr>bk_update_queue := q'\<rparr>\<rparr>) (ex_core ex),
      ex_feed := (ex_feed ex)\<lparr>fd_snapshot_feed := ?sf\<rparr>, ex_update_lines := fold (broadcast (fd_subscribers (ex_feed ex))) us (ex_update_lines ex)\<rparr>"
    using st True ref(1) ctx q'(1) by (simp add: publish_step_def Let_def fold_feed_update)
  have "num_elements ?q = length us + num_elements q'" using q'(3) by (metis length_append length_contents)
  moreover have "length P = length A + num_elements (fd_snapshot_feed (ex_feed ex))" using feed by (simp add: feed_inv_def)
  moreover have "length log \<le> N" using log_le_subs [OF inv] N(2) by simp
  ultimately have "num_elements ?sf \<le> fs"
    using published_le [OF inv assms(5) ctx] N(1) by (simp add: roomy_def)
  moreover have "capacity ?sf = fs" using sz by (simp add: sized_def)
  moreover have "capacity q' = qs" using read_one_capacity [OF q'(1)] sz ctx by (simp add: sized_def ctx_sized_def)
  moreover have "num_elements q' \<le> capacity q'" using q'(2) by (simp add: queue_inv_def)
  ultimately show ?thesis
    using sz ctx inv_no_overflow [OF inv]
    by (auto simp: ex' sized_def ctx_sized_def set_context_def no_overflow_def ctx_no_overflow_def list_all_iff)
qed (use st sz inv_no_overflow [OF inv] in \<open>simp add: publish_step_def\<close>)

lemma step_room:
  assumes inv: "exchange_inv symbols subs log D P A ex" and sz: "sized qs no nl fs ex" and N: "roomy N qs no nl fs" "length subs \<le> N"
    and "distinct symbols" and srt: "sort_contract srt"
  obtains ex' where "exchange_step cap srt ev ex = Inr ex'" and "sized qs no nl fs ex'" and "no_overflow symbols ex'"
proof (cases ev)
  case (Submit now req)
  then show ?thesis
    using that [of "submit_step now req ex"] sz inv_no_overflow [OF submit_inv [OF inv]] by (simp add: submit_step_def sized_def)
next
  case Sequence
  then show ?thesis
    using that [of "sequence_step cap srt ex"] sz inv_no_overflow [OF sequence_inv [OF srt inv]]
    by (simp add: sequence_step_def sized_def split: prod.splits)
next
  case Route
  then show ?thesis using that [of "route_step ex"] route_step_room [OF inv sz N] by simp
next
  case (Match sy now)
  obtain ex' where "match_step sy now ex = Inr ex'" "sized qs no nl fs ex'" "no_overflow symbols ex'"
    by (rule match_step_room [OF inv sz N])
  then show ?thesis using Match that [of ex'] by simp
next
  case (Respond i)
  obtain ex' where e: "respond_step i ex = Inr ex'" using respond_step_ok [OF inv, of i] by blast
  then show ?thesis
    using Respond that [of ex'] respond_step_sized [OF e sz] respond_inv [OF inv e] inv_no_overflow by auto
next
  case (Publish i)
  obtain ex' where e: "publish_step i ex = Inr ex'" using publish_step_ok [OF inv, of i] by blast
  then show ?thesis using Publish that [of ex'] publish_step_room [OF inv sz N assms(5) e] by simp
next
  case Apply
  obtain ex' where e: "apply_step ex = Inr ex'" using apply_step_ok [OF inv] by blast
  have "sized qs no nl fs ex'"
    using e sz read_one_capacity by (fastforce simp: apply_step_def rbind_eq_Inr sized_def split: prod.splits)
  then show ?thesis using Apply that [of ex'] e apply_inv [OF inv e] inv_no_overflow by auto
next
  case (Timer now1 now2)
  then show ?thesis
    using that [of "timer_step now1 now2 ex"] sz inv_no_overflow [OF timer_inv [OF inv]] by (simp add: timer_step_def sized_def)
qed

section \<open>Unrestricted runs\<close>

text \<open>Any interleaving of steps that do not fail, whatever happens to the queues.\<close>

inductive steps ::
  "nat \<Rightarrow> sort_fun \<Rightarrow> Exchange \<Rightarrow> EngineOrderRequest list \<Rightarrow> EngineOrderRequest list \<Rightarrow> Exchange \<Rightarrow> bool"
  for cap srt ex0 where
  none: "steps cap srt ex0 [] [] ex0"
| more: "steps cap srt ex0 subs log ex \<Longrightarrow> exchange_step cap srt ev ex = Inr ex' \<Longrightarrow>
    steps cap srt ex0 (subs @ submitted_by ev) (log @ routed_by ev ex) ex'"

lemma roomy_steps:
  assumes N: "roomy N qs no nl fs" "no < 2 ^ 64" "0 < qs" "0 < fs" and d: "distinct symbols" and srt: "sort_contract srt"
    and "steps cap srt (mk_exchange qs no nl fs symbols) subs log ex" and "length subs \<le> N"
  shows "exchange_run cap srt symbols subs log ex \<and> sized qs no nl fs ex"
  using assms(7,8)
proof (induction rule: steps.induct)
  case none
  have "exchange_run cap srt symbols [] [] (mk_exchange qs no nl fs symbols)"
    using N by (intro exchange_run.start) (auto simp: roomy_def)
  then show ?case using mk_exchange_sized [OF d] by simp
next
  case (more subs log ex ev ex')
  then have run: "exchange_run cap srt symbols subs log ex" "sized qs no nl fs ex" and len: "length subs \<le> N" by simp_all
  obtain D P A where inv: "exchange_inv symbols subs log D P A ex" using exchange_run_inv [OF d srt run(1)] by blast
  have "sized qs no nl fs ex'" "no_overflow symbols ex'"
    using step_room [OF inv run(2) N(1) len d srt, of cap ev] more.hyps(2) by auto
  then show ?case using exchange_run.step [OF run(1) more.hyps(2)] by simp
qed

lemma roomy_progress:
  assumes "roomy N qs no nl fs" "no < 2 ^ 64" "0 < qs" "0 < fs" and "distinct symbols" and "sort_contract srt"
    and "steps cap srt (mk_exchange qs no nl fs symbols) subs log ex" and "length subs \<le> N"
  shows "no_overflow symbols ex \<and> (\<exists>ex'. exchange_step cap srt ev ex = Inr ex')"
proof -
  have run: "exchange_run cap srt symbols subs log ex" "sized qs no nl fs ex" using roomy_steps [OF assms] by simp_all
  obtain D P A where inv: "exchange_inv symbols subs log D P A ex" using exchange_run_inv [OF assms(5,6) run(1)] by blast
  show ?thesis using inv_no_overflow [OF inv] step_room [OF inv run(2) assms(1,8,5,6), of cap ev] by blast
qed

text \<open>The sizes of the source have room for 8191 requests; the price levels are the first to run out.\<close>

lemma main_roomy:
  assumes "n < MAX_PRICE_LEVELS"
  shows "roomy n SYMBOL_QUEUE_SIZE MAX_RESTING_ORDERS MAX_PRICE_LEVELS SNAPSHOT_QUEUE_SIZE"
    and "MAX_RESTING_ORDERS < 2 ^ 64" and "0 < SYMBOL_QUEUE_SIZE" and "0 < SNAPSHOT_QUEUE_SIZE"
  using assms by (simp_all add: roomy_def SYMBOL_QUEUE_SIZE_def MAX_RESTING_ORDERS_def MAX_PRICE_LEVELS_def SNAPSHOT_QUEUE_SIZE_def)

section \<open>Properties\<close>

text \<open>
  C18 Messages per request are bounded on average: a new book that has processed \<open>n\<close> requests, of whatever
  kind and however many fills they caused, has written at most \<open>5 n\<close> responses and \<open>5 n\<close> book updates.
\<close>

theorem messages_per_request_bounded:
  assumes "0 < no" and "no < 2 ^ 64" and "0 < nl"
    and "run_all (\<lambda>(now, req). dispatch now req) reqs (mk_book no nl sy rq uq) = Inr b"
  shows "num_elements (bk_response_queue b) \<le> num_elements rq + 5 * length reqs \<and>
    num_elements (bk_update_queue b) \<le> num_elements uq + 5 * length reqs"
proof -
  obtain a rs us where s: "spec_all (\<lambda>(now, req). spec_request now req) reqs (empty_abook sy) = (a, rs, us)"
    using prod_cases3 by blast
  have "effect (mk_book no nl sy rq uq) rs us b"
    using dispatch_run [OF mk_book_represents [OF assms(1-3)] assms(4) s] by simp
  then show ?thesis
    using spec_all_volume [OF s] by (simp add: effect_def mk_book_def empty_abook_def order_count_sides side_orders_def)
qed

theorem messages_per_request_bounded_witness:
  "\<exists>b. run_all (\<lambda>(now, req). dispatch now req) [(1, demo_request), (2, demo_request\<lparr>req_client_id := 2, req_order_id := 8, req_side := SELL\<rparr>)]
       (mk_book 4 4 ''A'' (new_LFQueue 8 EngineOrderResponse_default) (new_LFQueue 8 BookUpdate_default)) = Inr b \<and>
     num_elements (bk_response_queue b) \<le> 10 \<and> num_elements (bk_update_queue b) \<le> 10"
proof -
  let ?reqs = "[(1, demo_request), (2, demo_request\<lparr>req_client_id := 2, req_order_id := 8, req_side := SELL\<rparr>)]"
  let ?b = "mk_book 4 4 ''A'' (new_LFQueue 8 EngineOrderResponse_default) (new_LFQueue 8 BookUpdate_default)"
  have rep: "represents ?b (empty_abook ''A'')" by (rule mk_book_represents) simp_all
  have room: "pool_room (length ?reqs) ?b (empty_abook ''A'')"
    by (simp add: pool_room_def mk_book_def empty_abook_def order_count_sides level_count_def side_orders_def)
  obtain a rs us where "spec_all (\<lambda>(now, req). spec_request now req) ?reqs (empty_abook ''A'') = (a, rs, us)" using prod_cases3 by blast
  then obtain b where b: "run_all (\<lambda>(now, req). dispatch now req) ?reqs ?b = Inr b" using engine.run_ok [OF rep room] by blast
  have "num_elements (bk_response_queue b) \<le> 0 + 5 * 2 \<and> num_elements (bk_update_queue b) \<le> 0 + 5 * 2"
    using messages_per_request_bounded [OF _ _ _ b] by simp
  then have "num_elements (bk_response_queue b) \<le> 10" "num_elements (bk_update_queue b) \<le> 10" by simp_all
  with b show ?thesis by blast
qed

text \<open>
  C9 The program cannot fail on an input of fewer than \<open>MAX_PRICE_LEVELS\<close> (8192) orders: whatever the
  interleaving of its threads, no request, response, update or snapshot queue ever overflows, no memory pool
  runs out, and so every thread can always take its next step without ending the process; every such run
  is a run without overflow. The queues of the loggers, which no other component reads, are not among
  these.
\<close>

theorem small_input_never_fails:
  assumes "main_begin argv files = Inr (Goes_on orders symbols)" and "length orders < MAX_PRICE_LEVELS"
    and "sort_contract srt" and "steps cap srt (main_exchange symbols) subs log ex" and "length subs \<le> length orders"
  shows "exchange_run cap srt symbols subs log ex \<and> no_overflow symbols ex \<and>
    (\<forall>ev. \<exists>ex'. exchange_step cap srt ev ex = Inr ex')"
proof -
  have d: "distinct symbols" using main_begin_symbols(1) [OF assms(1)] symbols_of_ok [of orders] by simp
  note r = main_roomy [OF assms(2)]
  show ?thesis
    using roomy_steps [OF r d assms(3) assms(4) [unfolded main_exchange_def] assms(5)]
      roomy_progress [OF r d assms(3) assms(4) [unfolded main_exchange_def] assms(5)] by blast
qed

theorem small_input_never_fails_witness:
  "\<exists>ex. steps 8192 (sort_key req_recv_time) (main_exchange [''A'']) [tag (1, demo_request)] [] ex \<and> no_overflow [''A''] ex \<and>
     (\<forall>ev. \<exists>ex'. exchange_step 8192 (sort_key req_recv_time) ev ex = Inr ex')"
proof -
  let ?ex = "submit_step 1 demo_request (main_exchange [''A''])"
  have st: "steps 8192 (sort_key req_recv_time) (main_exchange [''A'']) [tag (1, demo_request)] [] ?ex"
    using steps.more [OF steps.none, where ev = "Submit 1 demo_request"] by fastforce
  show ?thesis
    using small_input_never_fails [OF demo_input _ sort_key_contract st] st by (auto simp: MAX_PRICE_LEVELS_def)
qed

end
