(* ===== verification/Completion.thy ===== *)
theory Completion
  imports Lifecycle Capacity
begin

text \<open>
  A program on a small input cannot get stuck: from every state of every interleaving its threads can
  work off what is pending until all orders are answered. Each step that is taken lowers what is
  pending at its stage of the pipeline and leaves the earlier stages alone.
\<close>

section \<open>Pending work\<close>

definition queued_requests :: "MatchingCore \<Rightarrow> Symbol \<Rightarrow> nat" where
  "queued_requests mc sy = (case mc_contexts mc sy of None \<Rightarrow> 0 | Some ctx \<Rightarrow> num_elements (ctx_request_queue ctx))"

definition pipeline :: "Symbol list \<Rightarrow> (Exchange \<times> Exchange) set" where
  "pipeline symbols = measures
     [\<lambda>ex. length (gw_inbox (ex_gateway ex)),
      \<lambda>ex. length (ex_routing ex),
      \<lambda>ex. \<Sum>sy \<leftarrow> symbols. queued_requests (ex_core ex) sy,
      \<lambda>ex. backlog (response_queue (ex_core ex)) (mc_response_queues (ex_core ex)),
      \<lambda>ex. backlog (update_queue (ex_core ex)) (mc_update_queues (ex_core ex))]"

lemma queued_requests_frame:
  "queued_requests (set_response_queue ref q mc) = queued_requests mc"
  "queued_requests (set_update_queue ref q' mc) = queued_requests mc"
  by (cases ref; simp add: queued_requests_def set_context_def fun_eq_iff split: option.splits)+

lemma respond_step_frame:
  "respond_step i ex = Inr ex' \<Longrightarrow> ex_gateway ex' = ex_gateway ex \<and> queued_requests (ex_core ex') = queued_requests (ex_core ex)"
  by (auto simp: respond_step_def Let_def rbind_eq_Inr queued_requests_frame split: if_splits prod.splits)

lemma publish_step_frame:
  "publish_step i ex = Inr ex' \<Longrightarrow> ex_gateway ex' = ex_gateway ex \<and> queued_requests (ex_core ex') = queued_requests (ex_core ex)"
  by (auto simp: publish_step_def Let_def rbind_eq_Inr queued_requests_frame split: if_splits prod.splits)

lemma sequence_step_inbox:
  assumes "sort_contract srt" and "exchange_inv symbols subs log D P A ex"
  shows "gw_inbox (ex_gateway (sequence_step cap srt ex)) = []"
proof -
  have s: "request_sort srt" using assms(1) by (rule request_sort.intro)
  have "gw_sequencer (ex_gateway ex) = \<lparr>sq_pending = []\<rparr>" using assms(2) by (simp add: exchange_inv_def gateway_inv_def)
  then obtain ys where "sequence_pass cap srt (\<lambda>r out. out @ [r]) (ex_gateway ex, ex_routing ex) =
      ((ex_gateway ex)\<lparr>gw_inbox := []\<rparr>, ex_routing ex @ ys)"
    using request_sort.sequence_pass_routes [OF s, of "ex_gateway ex" cap "\<lambda>r out. out @ [r]" "ex_routing ex"] by auto
  then show ?thesis by (simp add: sequence_step_def)
qed

lemma run_step_takes_one:
  assumes "run_step now ctx = Inr ctx'" and "num_elements (ctx_request_queue ctx) \<noteq> 0"
  shows "num_elements (ctx_request_queue ctx') < num_elements (ctx_request_queue ctx)"
  using assms
  by (auto simp: run_step_def processRequest_def getNextToRead_def qsize_def updateReadIndex_def Let_def rbind_eq_Inr split: if_splits)

lemma sum_list_less:
  assumes "\<And>x. x \<in> set xs \<Longrightarrow> f x \<le> (g x :: nat)" and "y \<in> set xs" and "f y < g y"
  shows "sum_list (map f xs) < sum_list (map g xs)"
  using assms
proof (induction xs)
  case (Cons x xs)
  have "sum_list (map f xs) \<le> sum_list (map g xs)" using Cons.prems(1) by (intro sum_list_mono) simp
  then show ?case using Cons by (cases "y = x") (force simp: add_less_le_mono add_le_less_mono)+
qed simp

lemma match_takes_queued:
  assumes "mc_contexts mc sy = Some ctx" and "num_elements (ctx_request_queue ctx) \<noteq> 0" and "run_step now ctx = Inr ctx'"
    and "sy \<in> set symbols"
  shows "(\<Sum>x \<leftarrow> symbols. queued_requests (set_context sy ctx' mc) x) < (\<Sum>x \<leftarrow> symbols. queued_requests mc x)"
proof (rule sum_list_less [OF _ assms(4)])
  show "queued_requests (set_context sy ctx' mc) sy < queued_requests mc sy"
    using run_step_takes_one [OF assms(3,2)] assms(1) by (simp add: queued_requests_def set_context_def)
  then show "queued_requests (set_context sy ctx' mc) x \<le> queued_requests mc x" for x
    by (cases "x = sy") (simp_all add: queued_requests_def set_context_def)
qed

text \<open>A waiting request can be processed, and a waiting response can be read.\<close>

lemma queued_request_moves:
  assumes "exchange_inv symbols subs log D P A ex" and "sized qs no nl fs ex" and "roomy N qs no nl fs" and "length subs \<le> N"
    and sy: "sy \<in> set symbols" and ctx: "mc_contexts (ex_core ex) sy = Some ctx" "num_elements (ctx_request_queue ctx) \<noteq> 0"
  obtains ctx' where "run_step now ctx = Inr ctx'" and "match_step sy now ex = Inr (ex\<lparr>ex_core := set_context sy ctx' (ex_core ex)\<rparr>)"
    and "(\<Sum>x \<leftarrow> symbols. queued_requests (set_context sy ctx' (ex_core ex)) x) < (\<Sum>x \<leftarrow> symbols. queued_requests (ex_core ex) x)"
proof -
  obtain ctx' where c: "run_step now ctx = Inr ctx'"
    using match_step_room [OF assms(1-4), of sy now] ctx(1) by (auto simp: match_step_def rbind_eq_Inr)
  then show ?thesis using that ctx(1) match_takes_queued [OF ctx c sy] by (simp add: match_step_def)
qed

lemma waiting_response_moves:
  assumes i: "i < length (mc_response_queues (ex_core ex))"
    and q: "response_queue (ex_core ex) (mc_response_queues (ex_core ex) ! i) = Inr q" "num_elements q \<noteq> 0"
  obtains r q' ex' where "getNextToRead q = Some r" and "updateReadIndex q = Inr q'" and "respond_step i ex = Inr ex'"
    and "ex_core ex' = set_response_queue (mc_response_queues (ex_core ex) ! i) q' (ex_core ex)"
    and "ex_routing ex' = ex_routing ex" and "ex_gateway ex' = ex_gateway ex" and "queued_requests (ex_core ex') = queued_requests (ex_core ex)"
    and "backlog (response_queue (ex_core ex')) (mc_response_queues (ex_core ex')) < backlog (response_queue (ex_core ex)) (mc_response_queues (ex_core ex))"
proof -
  obtain r q' where r: "getNextToRead q = Some r" "updateReadIndex q = Inr q'"
    using q(2) by (simp add: getNextToRead_def updateReadIndex_def qsize_def)
  obtain ex' where e: "respond_step i ex = Inr ex'" "ex_core ex' = set_response_queue (mc_response_queues (ex_core ex) ! i) q' (ex_core ex)"
    "ex_routing ex' = ex_routing ex"
    using i q r by (simp add: respond_step_def read_one_def)
  show ?thesis
    using that [OF r e] respond_step_frame [OF e(1)] respond_step_shrinks [OF e(1) i] q by (simp add: waiting_def qsize_def)
qed

lemma match_step_pipeline:
  assumes "match_step sy now ex = Inr ex'" and "queued_requests (ex_core ex) sy \<noteq> 0" and "sy \<in> set symbols"
  shows "(ex', ex) \<in> pipeline symbols"
proof -
  obtain ctx where ctx: "mc_contexts (ex_core ex) sy = Some ctx" "num_elements (ctx_request_queue ctx) \<noteq> 0"
    using assms(2) by (auto simp: queued_requests_def split: option.splits)
  then obtain ctx' where "run_step now ctx = Inr ctx'" "ex' = ex\<lparr>ex_core := set_context sy ctx' (ex_core ex)\<rparr>"
    using assms(1) by (auto simp: match_step_def rbind_eq_Inr)
  then show ?thesis using match_takes_queued [OF ctx _ assms(3)] by (simp add: pipeline_def)
qed

lemma respond_pipeline:
  assumes "i < length (mc_response_queues (ex_core ex))" and "respond_step i ex = Inr ex'"
    and "response_queue (ex_core ex) (mc_response_queues (ex_core ex) ! i) = Inr q" and "num_elements q \<noteq> 0"
  shows "(ex', ex) \<in> pipeline symbols"
  using respond_step_shrinks [OF assms(2,1)] respond_step_frame [OF assms(2)] assms(3,4)
  by (simp add: pipeline_def waiting_def qsize_def)

lemma publish_pipeline:
  assumes "i < length (mc_update_queues (ex_core ex))" and "publish_step i ex = Inr ex'"
    and "update_queue (ex_core ex) (mc_update_queues (ex_core ex) ! i) = Inr q" and "num_elements q \<noteq> 0"
  shows "(ex', ex) \<in> pipeline symbols"
  using publish_step_shrinks [OF assms(2,1)] publish_step_frame [OF assms(2)] assms(3,4)
  by (simp add: pipeline_def waiting_def qsize_def)

text \<open>As long as something is pending, some thread has a step that moves it on.\<close>

lemma unquiet_step:
  assumes inv: "exchange_inv symbols subs log D P A ex" and "sort_contract srt" and "\<not> quiet symbols ex"
    and ok: "\<And>ev. \<exists>ex'. exchange_step cap srt ev ex = Inr ex'"
  obtains ev ex' where "submitted_by ev = []" and "exchange_step cap srt ev ex = Inr ex'" and "(ex', ex) \<in> pipeline symbols"
proof -
  let ?mc = "ex_core ex"
  have core: "mc_response_queues ?mc = map Of_Symbol symbols @ [Of_Unknown]" "mc_update_queues ?mc = map Of_Symbol symbols"
    "\<And>sy. sy \<in> set symbols \<Longrightarrow> mc_contexts ?mc sy \<noteq> None"
    using inv unfolding exchange_inv_def core_inv_def by blast+
  consider (inbox) "gw_inbox (ex_gateway ex) \<noteq> []" | (routing) "gw_inbox (ex_gateway ex) = []" "ex_routing ex \<noteq> []"
    | (unknown) "num_elements (mc_unknown_symbol_responses ?mc) \<noteq> 0"
    | (ctx) sy ctx where "sy \<in> set symbols" "mc_contexts ?mc sy = Some ctx"
        "num_elements (ctx_request_queue ctx) \<noteq> 0 \<or> num_elements (bk_response_queue (ctx_book ctx)) \<noteq> 0 \<or>
         num_elements (bk_update_queue (ctx_book ctx)) \<noteq> 0"
    using assms(3) unfolding quiet_def list_all_iff by (fastforce split: option.splits)
  then show ?thesis
  proof cases
    case inbox
    then show ?thesis
      using that [of Sequence "sequence_step cap srt ex"] sequence_step_inbox [OF assms(2) inv, of cap] by (simp add: pipeline_def)
  next
    case routing
    then show ?thesis
      using that [of Route "route_step ex"] by (cases "ex_routing ex") (simp_all add: pipeline_def route_step_def)
  next
    case unknown
    obtain ex' where "respond_step (length symbols) ex = Inr ex'" using ok [of "Respond (length symbols)"] by auto
    then show ?thesis
      using that [of "Respond (length symbols)" ex'] respond_pipeline [of "length symbols" ex ex'] unknown core(1) by (simp add: nth_append)
  next
    case (ctx sy ctx)
    then obtain i where i: "i < length symbols" "symbols ! i = sy" by (auto simp: in_set_conv_nth)
    obtain e1 e2 e3 where e: "match_step sy 0 ex = Inr e1" "respond_step i ex = Inr e2" "publish_step i ex = Inr e3"
      using ok [of "Match sy 0"] ok [of "Respond i"] ok [of "Publish i"] by auto
    show ?thesis
      using ctx(3) that [of "Match sy 0" e1] that [of "Respond i" e2] that [of "Publish i" e3] e ctx(1,2) core(1,2) i
        match_step_pipeline [OF e(1) _ ctx(1)] respond_pipeline [OF _ e(2)] publish_pipeline [OF _ e(3)]
      by (auto simp: queued_requests_def nth_append)
  qed
qed

lemma roomy_completes:
  assumes N: "roomy N qs no nl fs" "no < 2 ^ 64" "0 < qs" "0 < fs" and d: "distinct symbols" and srt: "sort_contract srt"
    and "steps cap srt (mk_exchange qs no nl fs symbols) subs log ex" and len: "length subs \<le> N"
  shows "\<exists>evs log' ex'. run_all (exchange_step cap srt) evs ex = Inr ex' \<and> (\<forall>ev \<in> set evs. submitted_by ev = []) \<and>
    steps cap srt (mk_exchange qs no nl fs symbols) subs log' ex' \<and> quiet symbols ex'"
proof -
  have "wf (pipeline symbols)" by (simp add: pipeline_def)
  then show ?thesis
    using assms(7)
  proof (induction ex arbitrary: log rule: wf_induct_rule)
    case (less ex)
    note st = less.prems
    have run: "exchange_run cap srt symbols subs log ex" using roomy_steps [OF N d srt st len] by simp
    obtain D P A where inv: "exchange_inv symbols subs log D P A ex" using exchange_run_inv [OF d srt run] by blast
    show ?case
    proof (cases "quiet symbols ex")
      case True
      then show ?thesis using st by (intro exI [of _ "[]"] exI [of _ log] exI [of _ ex]) simp
    next
      case False
      have ok: "\<exists>ex'. exchange_step cap srt ev ex = Inr ex'" for ev using roomy_progress [OF N d srt st len] by blast
      obtain ev ex1 where e: "submitted_by ev = []" "exchange_step cap srt ev ex = Inr ex1" "(ex1, ex) \<in> pipeline symbols"
        using unquiet_step [OF inv srt False ok] by blast
      have "steps cap srt (mk_exchange qs no nl fs symbols) subs (log @ routed_by ev ex) ex1"
        using steps.more [OF st e(2)] e(1) by simp
      then obtain evs log' ex' where "run_all (exchange_step cap srt) evs ex1 = Inr ex'" "\<forall>ev \<in> set evs. submitted_by ev = []"
        "steps cap srt (mk_exchange qs no nl fs symbols) subs log' ex'" "quiet symbols ex'"
        using less.IH [OF e(3)] by blast
      then show ?thesis using e(1,2) by (intro exI [of _ "ev # evs"]) auto
    qed
  qed
qed

text \<open>
  C10 A small program never gets stuck: on an input of fewer than 8192 orders, from every state of every
  interleaving of its threads, the threads alone, without further submissions, can bring the exchange to
  a quiet state, with every submitted order routed and answered and every response and update delivered.
\<close>

theorem small_input_can_always_finish:
  assumes "main_begin argv files = Inr (Goes_on orders symbols)" and "length orders < MAX_PRICE_LEVELS"
    and "sort_contract srt" and "steps cap srt (main_exchange symbols) subs log ex" and "length subs \<le> length orders"
  shows "\<exists>evs log' ex'. run_all (exchange_step cap srt) evs ex = Inr ex' \<and> (\<forall>ev \<in> set evs. submitted_by ev = []) \<and>
    exchange_run cap srt symbols subs log' ex' \<and> quiet symbols ex' \<and> mset log' = mset subs"
proof -
  have d: "distinct symbols" using main_begin_symbols(1) [OF assms(1)] symbols_of_ok [of orders] by simp
  note r = main_roomy [OF assms(2)]
  obtain evs log' ex' where e: "run_all (exchange_step cap srt) evs ex = Inr ex'" "\<forall>ev \<in> set evs. submitted_by ev = []"
    "steps cap srt (main_exchange symbols) subs log' ex'" "quiet symbols ex'"
    using roomy_completes [OF r d assms(3) assms(4) [unfolded main_exchange_def] assms(5)] unfolding main_exchange_def by blast
  have run: "exchange_run cap srt symbols subs log' ex'"
    using roomy_steps [OF r d assms(3) e(3) [unfolded main_exchange_def] assms(5)] by simp
  moreover have "mset log' = mset subs"
    using exchange_run_inv [OF d assms(3) run] e(4) by (auto simp: exchange_inv_def gateway_inv_def quiet_def)
  ultimately show ?thesis using e by blast
qed

theorem small_input_can_always_finish_witness:
  "\<exists>evs log ex. run_all (exchange_step 8192 (sort_key req_recv_time)) evs (submit_step 1 demo_request (main_exchange [''A''])) = Inr ex \<and>
     quiet [''A''] ex \<and> mset log = {#tag (1, demo_request)#} \<and>
     exchange_run 8192 (sort_key req_recv_time) [''A''] [tag (1, demo_request)] log ex"
proof -
  have st: "steps 8192 (sort_key req_recv_time) (main_exchange [''A'']) [tag (1, demo_request)] [] (submit_step 1 demo_request (main_exchange [''A'']))"
    using steps.more [OF steps.none, where ev = "Submit 1 demo_request"] by fastforce
  obtain evs log ex where e: "run_all (exchange_step 8192 (sort_key req_recv_time)) evs (submit_step 1 demo_request (main_exchange [''A''])) = Inr ex"
    "exchange_run 8192 (sort_key req_recv_time) [''A''] [tag (1, demo_request)] log ex" "quiet [''A''] ex" "mset log = mset [tag (1, demo_request)]"
    using small_input_can_always_finish [OF demo_input _ sort_key_contract st] by (auto simp: MAX_PRICE_LEVELS_def)
  then show ?thesis by auto
qed

end
