(* ===== verification/Messages.thy ===== *)
theory Messages
  imports SystemInvariant
begin

text \<open>
  What the messages of the exchange look like and where they come from: no response or market update is
  ill-formed, none names an order that was not submitted, and none goes to a client who did not submit it.
\<close>

section \<open>Well-formed messages\<close>

definition well_formed_response :: "EngineOrderResponse \<Rightarrow> bool" where
  "well_formed_response r =
     (case rsp_status r of
        RS_INVALID \<Rightarrow> False
      | FILLED \<Rightarrow> rsp_market_order_id r = rsp_client_order_id r \<and> rsp_exec_qty r \<noteq> 0 \<and> 0 < rsp_price r
      | ACCEPTED \<Rightarrow> rsp_market_order_id r = rsp_client_order_id r \<and> rsp_exec_qty r = 0 \<and> rsp_leaves_qty r \<noteq> 0
      | MODIFIED \<Rightarrow> rsp_market_order_id r = rsp_client_order_id r \<and> rsp_exec_qty r = 0 \<and> rsp_leaves_qty r \<noteq> 0 \<and> 0 < rsp_price r
      | CANCELED \<Rightarrow> rsp_market_order_id r = rsp_client_order_id r
      | _ \<Rightarrow> rsp_market_order_id r = Invalid_OrderId)"

definition well_formed_update :: "BookUpdate \<Rightarrow> bool" where
  "well_formed_update u \<longleftrightarrow> upd_type u \<noteq> MU_INVALID \<and> 0 < upd_price u \<and> (upd_type u \<noteq> MU_CANCEL \<longrightarrow> upd_qty u \<noteq> 0)"

section \<open>Client and order id\<close>

definition order_key :: "OrderInfo \<Rightarrow> ClientId \<times> OrderId" where
  "order_key r = (bo_client_id r, bo_order_id r)"

definition request_key :: "EngineOrderRequest \<Rightarrow> ClientId \<times> OrderId" where
  "request_key r = (req_client_id r, req_order_id r)"

definition response_key :: "EngineOrderResponse \<Rightarrow> ClientId \<times> OrderId" where
  "response_key r = (rsp_client_id r, rsp_client_order_id r)"

lemma key_simps [simp]:
  "order_key (r\<lparr>bo_qty := q\<rparr>) = order_key r" "order_key (r\<lparr>bo_qty := q, bo_original_qty := q'\<rparr>) = order_key r"
  "order_key (mk_info oid cid sy ot sd p oq q ts) = (cid, oid)" "bo_qty (mk_info oid cid sy ot sd p oq q ts) = q"
  "bo_price (mk_info oid cid sy ot sd p oq q ts) = p"
  "response_key (mk_response st cid sy coid moid sd p e l) = (cid, coid)"
  "response_key (reject_of req) = request_key req" "request_key (tag (now, req)) = request_key req"
  "response_key (reject_response st cid oid a) = (cid, oid)"
  by (simp_all add: order_key_def mk_info_def response_key_def request_key_def reject_of_def tag_def reject_response_def)

definition keyed :: "(ClientId \<times> OrderId) set \<Rightarrow> OrderInfo list \<Rightarrow> bool" where
  "keyed K os \<longleftrightarrow> (\<forall>r \<in> set os. order_key r \<in> K \<and> bo_qty r \<noteq> 0 \<and> 0 < bo_price r)"

definition emits_for :: "(ClientId \<times> OrderId) set \<Rightarrow> EngineOrderResponse list \<Rightarrow> BookUpdate list \<Rightarrow> bool" where
  "emits_for K rs us \<longleftrightarrow> (\<forall>r \<in> set rs. response_key r \<in> K \<and> well_formed_response r) \<and>
     (\<forall>u \<in> set us. (\<exists>c. (c, upd_order_id u) \<in> K) \<and> well_formed_update u)"

lemma emits_for_append [simp]: "emits_for K (rs @ rs') (us @ us') \<longleftrightarrow> emits_for K rs us \<and> emits_for K rs' us'"
  by (auto simp: emits_for_def)

lemma emits_for_Cons:
  "emits_for K (r # rs) us \<longleftrightarrow> response_key r \<in> K \<and> well_formed_response r \<and> emits_for K rs us"
  "emits_for K [] (u # us) \<longleftrightarrow> (\<exists>c. (c, upd_order_id u) \<in> K) \<and> well_formed_update u \<and> emits_for K [] us"
  "emits_for K [] []"
  by (auto simp: emits_for_def)

lemma emits_for_mono: "emits_for K rs us \<Longrightarrow> K \<subseteq> K' \<Longrightarrow> emits_for K' rs us"
  unfolding emits_for_def by blast

lemma keyed_mono: "keyed K os \<Longrightarrow> K \<subseteq> K' \<Longrightarrow> keyed K' os"
  unfolding keyed_def by blast

section \<open>Operations name known orders only\<close>

lemma match_orders_keyed:
  assumes "match_orders sy cid oid sd beyond leaves os = (os', l', rs, us)" and "keyed K os" and "(cid, oid) \<in> K"
  shows "keyed K os' \<and> emits_for K rs us"
  using assms
proof (induction sy cid oid sd beyond leaves os arbitrary: os' l' rs us rule: match_orders.induct)
  case (1 sy cid oid sd beyond leaves)
  then show ?case by (simp add: emits_for_def)
next
  case (2 sy cid oid sd beyond leaves r os)
  have r: "order_key r \<in> K" "bo_qty r \<noteq> 0" "0 < bo_price r" "keyed K os" using "2.prems"(2) by (simp_all add: keyed_def)
  have fill: "emits_for K (fill_responses sy cid oid sd r q l) (fill_updates sy r q)" if "q \<noteq> 0" for q l
    using r that "2.prems"(3)
    by (auto simp: emits_for_def fill_responses_def fill_updates_def well_formed_response_def well_formed_update_def order_key_def)
  have after: "keyed K (after_fill r q)" for q using r by (simp add: keyed_def after_fill_def)
  have app: "keyed K (xs @ ys) \<longleftrightarrow> keyed K xs \<and> keyed K ys" for xs ys by (auto simp: keyed_def)
  have cons: "keyed K (r # xs) \<longleftrightarrow> keyed K xs" for xs using r by (simp add: keyed_def)
  have nil: "emits_for K [] []" by (simp add: emits_for_def)
  show ?case
    using 2 r fill [of "min leaves (bo_qty r)"] after nil
    by (auto simp: Let_def app cons min_def split: if_splits prod.splits)
qed

lemma keyed_all_orders: "keyed K (all_orders a) \<longleftrightarrow> (\<forall>bid. keyed K (side_orders bid a))"
  unfolding keyed_def all_orders_sides by (metis (full_types) Un_iff)

lemma keyed_set_side: "keyed K (all_orders a) \<Longrightarrow> keyed K os \<Longrightarrow> keyed K (all_orders (set_side bid os a))"
  by (simp add: keyed_all_orders)

lemma keyed_unrest: "keyed K (all_orders a) \<Longrightarrow> keyed K (all_orders (unrest r a))"
  unfolding unrest_def Let_def by (rule keyed_set_side, assumption) (auto simp: keyed_all_orders, auto simp: keyed_def delete_order_def)

lemma keyed_rest:
  "keyed K (all_orders a) \<Longrightarrow> order_key x \<in> K \<Longrightarrow> bo_qty x \<noteq> 0 \<Longrightarrow> 0 < bo_price x \<Longrightarrow> keyed K (all_orders (rest x a))"
  unfolding rest_def Let_def by (rule keyed_set_side, assumption) (simp add: keyed_all_orders, simp add: keyed_def)

lemma match_book_keyed:
  assumes "match_book cid oid sd lp hl q a = (l, a', rs, us)" and "keyed K (all_orders a)" and "(cid, oid) \<in> K"
  shows "keyed K (all_orders a') \<and> emits_for K rs us"
proof -
  obtain os where os: "match_orders (ab_symbol a) cid oid sd (beyond_limit sd hl lp) q (side_orders (sd \<noteq> BUY) a) = (os, l, rs, us)"
    "a' = set_side (sd \<noteq> BUY) os a"
    using assms(1) by (auto simp: match_book_def split: prod.splits)
  then show ?thesis using match_orders_keyed [OF os(1) _ assms(3)] keyed_set_side assms(2) keyed_all_orders by blast
qed

lemma match_and_rest_keyed:
  assumes "match_and_rest now cid oid ot sd p q a = (a', rs, us)" and "keyed K (all_orders a)" and "(cid, oid) \<in> K" and "0 < p"
  shows "keyed K (all_orders a') \<and> emits_for K rs us"
proof -
  obtain l a1 rs1 us1 where m: "match_book cid oid sd p True q a = (l, a1, rs1, us1)" using prod_cases4 by blast
  note k = match_book_keyed [OF m assms(2,3)]
  show ?thesis
  proof (cases "l = 0")
    case False
    have "emits_for K [] [mk_update MU_ADD oid (ab_symbol a) sd p l]"
      using False assms(3,4) by (auto simp: emits_for_def well_formed_update_def)
    then have "emits_for K (rs1 @ []) (us1 @ [mk_update MU_ADD oid (ab_symbol a) sd p l])" using k unfolding emits_for_append by blast
    moreover have "0 < l" using False by (simp add: word_gt_0)
    ultimately show ?thesis
      using assms(1,3,4) m k False keyed_rest [of K a1 "mk_info oid cid (ab_symbol a) ot sd p q l now"]
      by (auto simp: match_and_rest_def)
  qed (use assms(1) m k in \<open>auto simp: match_and_rest_def\<close>)
qed

lemma spec_limit_keyed:
  assumes "spec_limit now cid oid sd p q a = (a', rs, us)" and "keyed K (all_orders a)" and "(cid, oid) \<in> K" and "0 < p" and "q \<noteq> 0"
  shows "keyed K (all_orders a') \<and> emits_for K rs us"
proof -
  obtain a1 rs1 us1 where m: "match_and_rest now cid oid LIMIT sd p q a = (a1, rs1, us1)" using prod_cases3 by blast
  show ?thesis
    using assms m match_and_rest_keyed [OF m assms(2-4)]
    by (auto simp: spec_limit_def emits_for_def well_formed_response_def split: if_splits)
qed

lemma spec_immediate_keyed:
  assumes "spec_immediate cid oid sd p hl q a = (a', rs, us)" and "keyed K (all_orders a)" and "(cid, oid) \<in> K" and "q \<noteq> 0"
  shows "keyed K (all_orders a') \<and> emits_for K rs us"
proof -
  obtain l a1 rs1 us1 where m: "match_book cid oid sd p hl q a = (l, a1, rs1, us1)" using prod_cases4 by blast
  show ?thesis
    using assms m match_book_keyed [OF m assms(2,3)]
    by (auto simp: spec_immediate_def emits_for_def well_formed_response_def split: if_splits)
qed

lemma own_order_keyed:
  assumes "own_order cid oid a = Some r" and "keyed K (all_orders a)"
  shows "(cid, oid) \<in> K" and "bo_qty r \<noteq> 0" and "0 < bo_price r"
  using assms(2) own_orderD [OF assms(1)] by (force simp: keyed_def order_key_def)+

lemma spec_cancel_keyed:
  assumes "spec_cancel cid oid a = (a', rs, us)" and "keyed K (all_orders a)" and "(cid, oid) \<in> K"
  shows "keyed K (all_orders a') \<and> emits_for K rs us"
proof (cases "own_order cid oid a")
  case (Some r)
  then show ?thesis
    using assms keyed_unrest own_order_keyed [OF Some assms(2)]
    by (auto simp: spec_cancel_def emits_for_Cons well_formed_response_def well_formed_update_def)
qed (use assms in \<open>auto simp: spec_cancel_def emits_for_def well_formed_response_def reject_response_def\<close>)

lemma update_qty_keyed: "keyed K os \<Longrightarrow> q \<noteq> 0 \<Longrightarrow> keyed K (update_qty oid q os)"
  by (auto simp: keyed_def update_qty_def)

lemma spec_modify_keyed:
  assumes "spec_modify now cid oid p q a = (a', rs, us)" and "keyed K (all_orders a)" and "(cid, oid) \<in> K"
  shows "keyed K (all_orders a') \<and> emits_for K rs us"
proof (cases "own_order cid oid a")
  case (Some r)
  note own = own_order_keyed [OF Some assms(2)]
  obtain a1 rs1 us1 where m: "match_and_rest now cid oid (bo_order_type r) (bo_side r) p q (unrest r a) = (a1, rs1, us1)"
    using prod_cases3 by blast
  have rej: "well_formed_response (reject_response MODIFY_REJECTED cid oid a)"
    by (simp add: reject_response_def well_formed_response_def)
  have "keyed K (all_orders (set_side bid (update_qty oid q (side_orders bid a)) a))" if "q \<noteq> 0" for bid
    using keyed_set_side [OF assms(2) update_qty_keyed] assms(2) that by (simp add: keyed_all_orders)
  moreover have "keyed K (all_orders (rest (mk_info oid cid (ab_symbol a) (bo_order_type r) (bo_side r) (bo_price r) q q now) (unrest r a)))"
    if "q \<noteq> 0"
    using keyed_rest [OF keyed_unrest [OF assms(2)]] own that by simp
  ultimately show ?thesis
    using assms Some m match_and_rest_keyed [OF m keyed_unrest [OF assms(2)] assms(3)] rej own
    by (auto simp: spec_modify_def emits_for_Cons well_formed_response_def well_formed_update_def Let_def split: if_splits)
qed (use assms in \<open>auto simp: spec_modify_def emits_for_def well_formed_response_def reject_response_def\<close>)

lemma spec_request_keyed:
  assumes "spec_request now req a = (a', rs, us)" and "keyed K (all_orders a)" and "request_key req \<in> K"
  shows "keyed K (all_orders a') \<and> emits_for K rs us"
proof -
  have rej: "emits_for K [reject_of req] []" using assms(3) by (simp add: emits_for_def) (simp add: reject_of_def well_formed_response_def)
  show ?thesis
    using assms rej spec_limit_keyed [OF _ assms(2)] spec_immediate_keyed [OF _ assms(2)] spec_cancel_keyed [OF _ assms(2)]
      spec_modify_keyed [OF _ assms(2)]
    by (cases "req_order_type req") (auto simp: spec_request_def Let_def needs_price_def needs_qty_def request_key_def split: if_splits)
qed

lemma spec_all_keyed:
  assumes "spec_all (\<lambda>(now, req). spec_request now req) hist a = (a', rs, us)" and "keyed K (all_orders a)"
    and "request_key ` snd ` set hist \<subseteq> K"
  shows "emits_for K rs us"
  using assms
proof (induction hist arbitrary: a rs us)
  case Nil
  then show ?case by (simp add: emits_for_def)
next
  case (Cons x hist)
  obtain a1 rs1 us1 rs2 us2 where s: "spec_request (fst x) (snd x) a = (a1, rs1, us1)"
    "spec_all (\<lambda>(now, req). spec_request now req) hist a1 = (a', rs2, us2)" "rs = rs1 @ rs2" "us = us1 @ us2"
    using Cons.prems(1) by (auto split: prod.splits)
  then show ?case using Cons.IH [OF s(2)] spec_request_keyed [OF s(1) Cons.prems(2)] Cons.prems(3) by simp
qed

section \<open>Messages of the running exchange\<close>

lemma exchange_messages:
  assumes inv: "exchange_inv symbols subs log D P A ex"
  shows "\<And>r. r \<in> set D \<Longrightarrow> well_formed_response r \<and> (\<exists>q \<in> set log. req_symbol q = rsp_symbol r \<and> request_key q = response_key r)"
    and "\<And>u. u \<in> set P \<Longrightarrow> well_formed_update u \<and> (\<exists>q \<in> set log. req_symbol q = upd_symbol u \<and> req_order_id q = upd_order_id u)"
proof -
  have core: "core_inv symbols log D P (ex_core ex)" using inv by (simp add: exchange_inv_def)
  have known: "emits_for (request_key ` set (for_symbol sy log)) (of_symbol sy D) (updates_of sy P)" if sy: "sy \<in> set symbols" for sy
  proof -
    obtain ctx hist a where "mc_contexts (ex_core ex) sy = Some ctx" and h: "map snd hist @ contents (ctx_request_queue ctx) = for_symbol sy log"
      "sequential sy hist a (of_symbol sy D @ contents (bk_response_queue (ctx_book ctx)))
        (updates_of sy P @ contents (bk_update_queue (ctx_book ctx)))" and "represents (ctx_book ctx) a"
      by (rule symbol_inv_sequential [OF inv sy])
    have "request_key ` snd ` set hist \<subseteq> request_key ` set (for_symbol sy log)" unfolding h(1) [symmetric] by auto
    then show ?thesis
      using spec_all_keyed [OF h(2) [unfolded sequential_def]] by (simp add: keyed_def empty_abook_def all_orders_def)
  qed
  show "well_formed_response r \<and> (\<exists>q \<in> set log. req_symbol q = rsp_symbol r \<and> request_key q = response_key r)" if r: "r \<in> set D" for r
  proof (cases "rsp_symbol r \<in> set symbols")
    case True
    have "r \<in> set (of_symbol (rsp_symbol r) D)" using r by simp
    then show ?thesis using known [OF True] for_symbol_set unfolding emits_for_def by (fastforce simp: for_symbol_def)
  next
    case False
    have "filter (\<lambda>r. rsp_symbol r \<notin> set symbols) D @ contents (mc_unknown_symbol_responses (ex_core ex)) =
        map reject_of (filter (\<lambda>r. req_symbol r \<notin> set symbols) log)"
      using core by (simp add: core_inv_def)
    moreover have "r \<in> set (filter (\<lambda>r. rsp_symbol r \<notin> set symbols) D @ contents (mc_unknown_symbol_responses (ex_core ex)))"
      using False r by simp
    ultimately have "r \<in> set (map reject_of (filter (\<lambda>r. req_symbol r \<notin> set symbols) log))" by metis
    then show ?thesis by (auto simp: reject_of_def well_formed_response_def response_key_def request_key_def)
  qed
  show "well_formed_update u \<and> (\<exists>q \<in> set log. req_symbol q = upd_symbol u \<and> req_order_id q = upd_order_id u)" if u: "u \<in> set P" for u
  proof -
    have "upd_symbol u \<in> set symbols" using core u by (simp add: core_inv_def)
    moreover have "u \<in> set (updates_of (upd_symbol u) P)" using u by simp
    ultimately show ?thesis
      using known [of "upd_symbol u"] unfolding emits_for_def by (fastforce simp: for_symbol_def request_key_def)
  qed
qed

lemma routed_were_submitted:
  assumes "exchange_inv symbols subs log D P A ex"
  shows "set log \<subseteq> set subs"
proof -
  have "set_mset (mset log + mset (ex_routing ex) + mset (map tag (gw_inbox (ex_gateway ex)))) = set_mset (mset subs)"
    using assms by (simp add: exchange_inv_def gateway_inv_def)
  then show ?thesis by auto
qed

end
