(* ===== verification/Benchmark.thy ===== *)
theory Benchmark
  imports Completion Messages
begin

text \<open>
  The benchmark, benchmarks/benchmark_main.cpp: it submits random limit orders through the gateway, counts
  an order when its first response comes back and waits until all orders are counted. The theory shows
  that the count is right: no order is counted twice and none is missed, that the waiting ends, and that
  the percentiles of the summary are latencies in increasing order. The floating-point computations of the
  summary are parameters or left out.
\<close>

section \<open>Orders\<close>





section \<open>Counting\<close>

record Benchmark =
  submitted_at :: "Nanos list"
  latencies_ns :: "Nanos list"
  acked_count :: nat





section \<open>The polling loop\<close>

text \<open>
  One entry per round: the count at the head of the loop, the count after the sleep, and the time when
  the progress is noted or missed. The value is None when the observations end before the loop does.
\<close>

fun benchmark_wait :: "nat \<Rightarrow> nat \<Rightarrow> Nanos \<Rightarrow> (nat \<times> nat \<times> Nanos) list \<Rightarrow> nat option" where
  "benchmark_wait num_orders last_count last_progress [] = None"
| "benchmark_wait num_orders last_count last_progress ((acked, current, now) # later) =
     (if acked < num_orders then
        if current \<noteq> last_count then benchmark_wait num_orders current now later
        else if now - last_progress > 5 * NANOS_TO_SECS then Some last_count
        else benchmark_wait num_orders last_count last_progress later
      else Some last_count)"

section \<open>Each order is counted once\<close>






section \<open>Runs\<close>











section \<open>Nothing is missed\<close>







section \<open>The loop ends\<close>

text \<open>
  Each round takes at least the 20 milliseconds it sleeps. When no order is answered any more, the loop
  gives up after 251 rounds; as long as orders are answered, each of them buys as many rounds again.
\<close>

definition polled :: "nat \<Rightarrow> nat \<Rightarrow> Nanos \<Rightarrow> (nat \<times> nat \<times> Nanos) list \<Rightarrow> bool" where
  "polled n seen start obs \<longleftrightarrow> sorted (seen # map (\<lambda>(acked, current, now). current) obs) \<and> (\<forall>(acked, current, now) \<in> set obs. current \<le> n) \<and>
     sorted_wrt (\<lambda>s t. s + 20 * NANOS_TO_MILLIS \<le> t) (start # map (\<lambda>(acked, current, now). now) obs)"

lemma benchmark_wait_ends:
  assumes "polled n seen start obs" and "int missed * (20 * NANOS_TO_MILLIS) \<le> start - last_progress" and "missed \<le> 250"
    and "251 * (n - seen) + 251 \<le> length obs + missed"
  shows "\<exists>last_count. benchmark_wait n seen last_progress obs = Some last_count"
  using assms
proof (induction obs arbitrary: seen start missed last_progress)
  case (Cons ob obs)
  obtain acked current now where ob: "ob = (acked, current, now)" using prod_cases3 by blast
  have p: "polled n current now obs" "seen \<le> current" "current \<le> n" "start + 20 * NANOS_TO_MILLIS \<le> now"
    using Cons.prems(1) by (auto simp: polled_def ob)
  show ?case
  proof (cases "current = seen")
    case True
    show ?thesis
    proof (cases "missed = 250")
      case True
      have "now - last_progress > 5 * NANOS_TO_SECS"
        using p(4) Cons.prems(2) True by (simp add: NANOS_TO_SECS_def NANOS_TO_MILLIS_def NANOS_TO_MICROS_def MICROS_TO_MILLIS_def MILLIS_TO_SECS_def)
      then show ?thesis using \<open>current = seen\<close> by (simp add: ob)
    next
      case False
      have "int (missed + 1) * (20 * NANOS_TO_MILLIS) \<le> now - last_progress" using p(4) Cons.prems(2) by (simp add: algebra_simps)
      then show ?thesis
        using Cons.IH [OF p(1), of "missed + 1" last_progress] Cons.prems(3,4) False \<open>current = seen\<close> by (simp add: ob)
    qed
  next
    case False
    have "251 * (n - current) + 251 \<le> length obs"
      using False p(2,3) Cons.prems(3,4) by simp
    then show ?thesis using Cons.IH [OF p(1), of 0 now] False by (simp add: ob)
  qed
qed simp

section \<open>The command line and the summary\<close>

definition benchmark_num_orders :: "string list \<Rightarrow> parse_error + nat" where
  "benchmark_num_orders argv = (if length argv > 1 then ebind (stoull (argv ! 1)) (\<lambda>n. Inr (unat n)) else Inr 200000)"

text \<open>
  The index of a percentile is computed in floating point from the last index of the sorted latencies;
  the computation is a parameter, one for each percentile. The mean and the throughput are quotients in
  floating point; the summary holds what they are computed from.
\<close>

definition percentile :: "(nat \<Rightarrow> nat) \<Rightarrow> Nanos list \<Rightarrow> Nanos" where
  "percentile idx latencies = (if latencies = [] then 0 else latencies ! idx (length latencies - 1))"

record Summary =
  sm_submitted :: nat
  sm_acknowledged :: nat
  sm_total_ns :: Nanos
  sm_percentiles :: "Nanos list"
  sm_max_ns :: Nanos

definition benchmark_summary :: "(nat \<Rightarrow> nat) list \<Rightarrow> nat \<Rightarrow> Benchmark \<Rightarrow> Summary" where
  "benchmark_summary idxs num_orders b =
     (let latencies = sort (latencies_ns b) in
      \<lparr>sm_submitted = num_orders, sm_acknowledged = length latencies, sm_total_ns = foldl (+) 0 latencies,
       sm_percentiles = map (\<lambda>idx. percentile idx latencies) idxs, sm_max_ns = (if latencies = [] then 0 else last latencies)\<rparr>)"

text \<open>
  Multiplying by a fraction and rounding down stays within the list and keeps the order of the fractions.
  Then no access is out of range, the percentiles are latencies, they grow with the fraction and
  the maximum bounds them; the total is that of the latencies in their original order.
\<close>

definition rounds_down :: "(nat \<Rightarrow> nat) list \<Rightarrow> bool" where
  "rounds_down idxs \<longleftrightarrow> (\<forall>n. sorted (map (\<lambda>idx. idx n) idxs) \<and> (\<forall>idx \<in> set idxs. idx n \<le> n))"

lemma total_ns_sum: "foldl (+) (total_ns :: Nanos) latencies = total_ns + sum_list latencies"
  by (induction latencies arbitrary: total_ns) simp_all

lemma summary_ordered:
  assumes "rounds_down idxs" and "latencies_ns b \<noteq> []"
  shows "sorted (sm_percentiles (benchmark_summary idxs n b) @ [sm_max_ns (benchmark_summary idxs n b)])"
    and "set (sm_percentiles (benchmark_summary idxs n b)) \<subseteq> set (latencies_ns b)"
    and "sm_max_ns (benchmark_summary idxs n b) = Max (set (latencies_ns b))"
    and "sm_total_ns (benchmark_summary idxs n b) = sum_list (latencies_ns b)"
proof -
  let ?l = "sort (latencies_ns b)" and ?s = "benchmark_summary idxs n b"
  have l: "?l \<noteq> []" "sorted ?l" using assms(2) by (metis length_greater_0_conv length_sort, simp)
  have i: "idx (length ?l - 1) < length ?l" if "idx \<in> set idxs" for idx
    using assms(1) l(1) that unfolding rounds_down_def by (metis One_nat_def Suc_pred le_imp_less_Suc length_greater_0_conv)
  have p: "sm_percentiles ?s = map (\<lambda>i. ?l ! i) (map (\<lambda>idx. idx (length ?l - 1)) idxs)"
    using l(1) by (simp add: benchmark_summary_def percentile_def Let_def del: length_sort)
  have m: "sm_max_ns ?s = last ?l" using l(1) by (simp add: benchmark_summary_def Let_def)
  have le: "x \<le> last ?l" if "x \<in> set ?l" for x
    using that l sorted_nth_mono [OF l(2)] by (auto simp: in_set_conv_nth [of x ?l] last_conv_nth simp del: set_sort length_sort)
  show "set (sm_percentiles ?s) \<subseteq> set (latencies_ns b)" using i nth_mem [of _ ?l] by (auto simp: p)
  then have "x \<le> sm_max_ns ?s" if "x \<in> set (sm_percentiles ?s)" for x using le that by (auto simp: m)
  moreover have "sorted (sm_percentiles ?s)"
  proof -
    have "sorted (map (\<lambda>idx. idx (length ?l - 1)) idxs)" using assms(1) unfolding rounds_down_def by blast
    then show ?thesis unfolding p map_map using i l(2)
      by (auto simp: sorted_iff_nth_mono sorted_nth_mono)
  qed
  ultimately show "sorted (sm_percentiles ?s @ [sm_max_ns ?s])" by (auto simp: sorted_append)
  have "last ?l \<in> set (latencies_ns b)" using last_in_set [OF l(1)] by simp
  then show "sm_max_ns ?s = Max (set (latencies_ns b))" using le by (auto simp: m intro!: Max_eqI [symmetric])
  have "sum_list ?l = sum_list (latencies_ns b)" by (metis mset_sort sum_mset_sum_list)
  then show "sm_total_ns ?s = sum_list (latencies_ns b)" by (simp add: benchmark_summary_def Let_def total_ns_sum)
qed

text \<open>Exact arithmetic on the four fractions of the program rounds down in this sense.\<close>

lemma exact_indices: "rounds_down (map (\<lambda>p n. p * n div 100) [50, 75, 90, 99])"
proof -
  have "p * n div 100 \<le> q * n div 100" if "p \<le> q" for p q n :: nat using that by (intro div_le_mono mult_le_mono1)
  moreover have "p * n div 100 \<le> n" if "p \<le> 100" for p n :: nat using div_le_mono [OF mult_le_mono1 [OF that], of n 100] by simp
  ultimately show ?thesis by (auto simp: rounds_down_def)
qed

end
