(* ===== verification/Clock.thy ===== *)
theory Clock
  imports BookProperties
begin

text \<open>
  The clock never decides anything in a book. The source stamps a resting order with the current time
  when it is queued, but time priority is the position in the queue: two runs of the same requests under
  different clocks send the same messages and keep the same orders in the same places.
\<close>

section \<open>Books without their time stamps\<close>

definition untimed :: "OrderInfo \<Rightarrow> OrderInfo" where
  "untimed r = r\<lparr>bo_priority_ts := 0\<rparr>"

definition untime :: "abook \<Rightarrow> abook" where
  "untime a = a\<lparr>ab_bids := map untimed (ab_bids a), ab_asks := map untimed (ab_asks a)\<rparr>"

lemma untimed_simps [simp]:
  "bo_order_id (untimed r) = bo_order_id r" "bo_client_id (untimed r) = bo_client_id r" "bo_side (untimed r) = bo_side r"
  "bo_price (untimed r) = bo_price r" "bo_qty (untimed r) = bo_qty r" "bo_order_type (untimed r) = bo_order_type r"
  "untimed (mk_info oid cid sy ot sd p oq q ts) = mk_info oid cid sy ot sd p oq q 0"
  by (simp_all add: untimed_def mk_info_def)

lemma untime_simps [simp]:
  "ab_symbol (untime a) = ab_symbol a" "side_orders bid (untime a) = map untimed (side_orders bid a)"
  "untime (empty_abook sy) = empty_abook sy"
  by (simp_all add: untime_def side_orders_def empty_abook_def)

lemma untime_set_side: "set_side bid (map untimed os) (untime a) = untime (set_side bid os a)"
  by (simp add: untime_def set_side_def)

section \<open>No operation looks at a time stamp\<close>

lemma match_orders_untimed:
  assumes "match_orders sy cid oid sd beyond leaves os = (os', l, rs, us)"
  shows "match_orders sy cid oid sd beyond leaves (map untimed os) = (map untimed os', l, rs, us)"
  using assms
proof (induction sy cid oid sd beyond leaves os arbitrary: os' l rs us rule: match_orders.induct)
  case (2 sy cid oid sd beyond leaves r os)
  have "after_fill (untimed r) q = map untimed (after_fill r q)" for q by (simp add: after_fill_def untimed_def)
  moreover have "fill_responses sy cid oid sd (untimed r) q l = fill_responses sy cid oid sd r q l"
    "fill_updates sy (untimed r) q = fill_updates sy r q" for q l
    by (simp_all add: fill_responses_def fill_updates_def)
  ultimately show ?case using 2 by (auto simp: Let_def split: if_splits prod.splits)
qed simp

lemma match_book_untimed:
  "match_book cid oid sd lp hl q a = (l, a', rs, us) \<Longrightarrow> match_book cid oid sd lp hl q (untime a) = (l, untime a', rs, us)"
  using match_orders_untimed [of "ab_symbol a" cid oid sd "beyond_limit sd hl lp" q "side_orders (sd \<noteq> BUY) a"]
  by (auto simp: match_book_def simp flip: untime_set_side split: prod.splits)

lemma rest_untimed: "rest (untimed x) (untime a) = untime (rest x a)"
  by (simp add: rest_def Let_def insert_order_def takeWhile_map dropWhile_map comp_def flip: untime_set_side)

lemma unrest_untimed: "unrest (untimed r) (untime a) = untime (unrest r a)"
  by (simp add: unrest_def Let_def delete_order_def filter_map comp_def flip: untime_set_side)

lemma own_order_untimed: "own_order cid oid (untime a) = map_option untimed (own_order cid oid a)"
  and lookup_untimed: "lookup_order oid (untime a) = map_option untimed (lookup_order oid a)"
proof -
  have "all_orders (untime a) = map untimed (all_orders a)" by (simp add: all_orders_def untime_def)
  moreover have "List.find P (map untimed os) = map_option untimed (List.find (P \<circ> untimed) os)" for P os
    by (induction os) simp_all
  ultimately show l: "lookup_order oid (untime a) = map_option untimed (lookup_order oid a)"
    by (simp add: lookup_order_def comp_def)
  then show "own_order cid oid (untime a) = map_option untimed (own_order cid oid a)"
    by (simp add: own_order_def split: option.splits)
qed

lemma match_and_rest_untimed:
  assumes "match_and_rest now cid oid ot sd p q a = (a', rs, us)"
  shows "match_and_rest 0 cid oid ot sd p q (untime a) = (untime a', rs, us)"
proof -
  obtain l a1 rs1 us1 where m: "match_book cid oid sd p True q a = (l, a1, rs1, us1)" using prod_cases4 by blast
  show ?thesis
    using assms m match_book_untimed [OF m] rest_untimed [of "mk_info oid cid (ab_symbol a) ot sd p q l now" a1]
    by (auto simp: match_and_rest_def split: if_splits)
qed

lemma spec_limit_untimed:
  assumes "spec_limit now cid oid sd p q a = (a', rs, us)"
  shows "spec_limit 0 cid oid sd p q (untime a) = (untime a', rs, us)"
proof -
  obtain a1 rs1 us1 where m: "match_and_rest now cid oid LIMIT sd p q a = (a1, rs1, us1)" using prod_cases3 by blast
  show ?thesis using assms m match_and_rest_untimed [OF m] by (auto simp: spec_limit_def lookup_untimed split: if_splits)
qed

lemma spec_immediate_untimed:
  assumes "spec_immediate cid oid sd p hl q a = (a', rs, us)"
  shows "spec_immediate cid oid sd p hl q (untime a) = (untime a', rs, us)"
proof -
  obtain l a1 rs1 us1 where m: "match_book cid oid sd p hl q a = (l, a1, rs1, us1)" using prod_cases4 by blast
  show ?thesis using assms m match_book_untimed [OF m] by (auto simp: spec_immediate_def lookup_untimed split: if_splits)
qed

lemma spec_cancel_untimed:
  assumes "spec_cancel cid oid a = (a', rs, us)"
  shows "spec_cancel cid oid (untime a) = (untime a', rs, us)"
  using assms by (auto simp: spec_cancel_def own_order_untimed unrest_untimed reject_response_def split: option.splits)

lemma update_qty_untimed: "update_qty oid q (map untimed os) = map untimed (update_qty oid q os)"
  by (simp add: update_qty_def untimed_def)

lemma spec_modify_untimed:
  assumes "spec_modify now cid oid p q a = (a', rs, us)"
  shows "spec_modify 0 cid oid p q (untime a) = (untime a', rs, us)"
proof (cases "own_order cid oid a")
  case (Some r)
  obtain a1 rs1 us1 where m: "match_and_rest now cid oid (bo_order_type r) (bo_side r) p q (unrest r a) = (a1, rs1, us1)"
    using prod_cases3 by blast
  show ?thesis
    using assms Some m match_and_rest_untimed [OF m]
      rest_untimed [of "mk_info oid cid (ab_symbol a) (bo_order_type r) (bo_side r) (bo_price r) q q now" "unrest r a"]
    by (auto simp: spec_modify_def own_order_untimed unrest_untimed reject_response_def update_qty_untimed untime_set_side Let_def
        split: if_splits)
qed (use assms in \<open>auto simp: spec_modify_def own_order_untimed reject_response_def\<close>)

lemma spec_request_untimed:
  assumes "spec_request now req a = (a', rs, us)"
  shows "spec_request 0 req (untime a) = (untime a', rs, us)"
  using assms spec_limit_untimed spec_immediate_untimed spec_cancel_untimed spec_modify_untimed
  by (cases "req_order_type req") (auto simp: spec_request_def Let_def split: if_splits)

lemma spec_all_untimed:
  assumes "spec_all (\<lambda>(now, req). spec_request now req) hist a = (a', rs, us)"
  shows "spec_all (\<lambda>(now, req). spec_request now req) (map (\<lambda>req. (0, req)) (map snd hist)) (untime a) = (untime a', rs, us)"
  using assms
proof (induction hist arbitrary: a rs us)
  case (Cons x hist)
  obtain a1 rs1 us1 rs2 us2 where s: "spec_request (fst x) (snd x) a = (a1, rs1, us1)"
    "spec_all (\<lambda>(now, req). spec_request now req) hist a1 = (a', rs2, us2)" "rs = rs1 @ rs2" "us = us1 @ us2"
    using Cons.prems by (auto split: prod.splits)
  then show ?case using Cons.IH [OF s(2)] spec_request_untimed [OF s(1)] by simp
qed simp

section \<open>Property\<close>

text \<open>
  C17 The clock has no influence on matching: when the same requests are processed by two new books of the
  same sizes under different clocks, which may run at any speed, stand still or jump backwards, both send
  the same responses and updates in the same order and end with the same orders in the same places, up
  to their time stamps.
\<close>

theorem clock_does_not_matter:
  assumes "0 < no" and "no < 2 ^ 64" and "0 < nl" and "length ts = length reqs" and "length ts' = length reqs"
    and "run_all (\<lambda>(now, req). dispatch now req) (zip ts reqs) (mk_book no nl sy rq uq) = Inr b"
    and "run_all (\<lambda>(now, req). dispatch now req) (zip ts' reqs) (mk_book no nl sy rq uq) = Inr b'"
  shows "bk_response_queue b = bk_response_queue b' \<and> bk_update_queue b = bk_update_queue b' \<and>
    (\<exists>a a'. represents b a \<and> represents b' a' \<and> untime a = untime a')"
proof -
  let ?spec = "\<lambda>xs. spec_all (\<lambda>(now, req). spec_request now req) xs (empty_abook sy)"
  note rep = mk_book_represents [OF assms(1-3), of sy rq uq]
  obtain a rs us a' rs' us' where s: "?spec (zip ts reqs) = (a, rs, us)" "?spec (zip ts' reqs) = (a', rs', us')"
    using prod_cases3 by metis
  have "map snd (zip ts reqs) = map snd (zip ts' reqs)" using assms(4,5) by simp
  then have "untime a = untime a'" "rs = rs'" "us = us'"
    using spec_all_untimed [OF s(1)] spec_all_untimed [OF s(2)] by simp_all
  then show ?thesis
    using dispatch_run [OF rep assms(6) s(1)] dispatch_run [OF rep assms(7) s(2)] by (auto simp: effect_def)
qed

theorem clock_does_not_matter_witness:
  "\<exists>b b'. run_all (\<lambda>(now, req). dispatch now req) (zip [5, 3] [sample_request LIMIT 1 11 BUY 100 10, sample_request LIMIT 2 12 SELL 100 4])
       (mk_book 4 4 ''ACME'' (new_LFQueue 8 EngineOrderResponse_default) (new_LFQueue 8 BookUpdate_default)) = Inr b \<and>
     run_all (\<lambda>(now, req). dispatch now req) (zip [1, 2] [sample_request LIMIT 1 11 BUY 100 10, sample_request LIMIT 2 12 SELL 100 4])
       (mk_book 4 4 ''ACME'' (new_LFQueue 8 EngineOrderResponse_default) (new_LFQueue 8 BookUpdate_default)) = Inr b' \<and>
     bk_response_queue b = bk_response_queue b' \<and> bk_update_queue b = bk_update_queue b'"
proof -
  let ?b = "mk_book 4 4 ''ACME'' (new_LFQueue 8 EngineOrderResponse_default) (new_LFQueue 8 BookUpdate_default)"
  let ?reqs = "[sample_request LIMIT 1 11 BUY 100 10, sample_request LIMIT 2 12 SELL 100 4]"
  have rep: "represents ?b (empty_abook ''ACME'')" by (rule mk_book_represents) simp_all
  have "\<exists>b. run_all (\<lambda>(now, req). dispatch now req) (zip ts ?reqs) ?b = Inr b" if "length ts = 2" for ts
  proof -
    have room: "pool_room (length (zip ts ?reqs)) ?b (empty_abook ''ACME'')"
      using that by (simp add: pool_room_def mk_book_def empty_abook_def order_count_sides level_count_def side_orders_def)
    show ?thesis using engine.run_ok [OF rep room] by (metis prod_cases3)
  qed
  then obtain b b' where b: "run_all (\<lambda>(now, req). dispatch now req) (zip [5, 3] ?reqs) ?b = Inr b"
    "run_all (\<lambda>(now, req). dispatch now req) (zip [1, 2] ?reqs) ?b = Inr b'" by (metis length_Cons list.size(3) numeral_2_eq_2)
  then show ?thesis using clock_does_not_matter [OF _ _ _ _ _ b] by auto
qed

end
