(* ===== verification/TestSuite.thy ===== *)
theory TestSuite
  imports Completion Clock
begin

text \<open>
  The test program of the repository, tests/test_order_book.cpp, as theorems. Its harness sends requests
  straight to the matching core and pulls responses from the core's queues while the matching threads
  run. Where the tests try one schedule, the theorem covers every interleaving in which the engine has
  come to rest.
\<close>

section \<open>The harness\<close>

text \<open>
  \<open>send\<close> routes a request; \<open>settle\<close> pulls responses; in between the matching threads take their turns. A
  state of the harness is the list of requests sent, the responses pulled so far and the engine.
\<close>

inductive harness_run :: "Symbol list \<Rightarrow> EngineOrderRequest list \<Rightarrow> EngineOrderResponse list \<Rightarrow> MatchingCore \<Rightarrow> bool"
  for symbols where
  construct: "harness_run symbols [] [] (new_MatchingCore symbols)"
| send: "harness_run symbols sent responses mc \<Longrightarrow> harness_run symbols (sent @ [r]) responses (routeRequest r mc)"
| matching: "harness_run symbols sent responses mc \<Longrightarrow> mc_contexts mc sy = Some ctx \<Longrightarrow> run_step now ctx = Inr ctx' \<Longrightarrow>
    harness_run symbols sent responses (set_context sy ctx' mc)"
| settle: "harness_run symbols sent responses mc \<Longrightarrow> i < length (mc_response_queues mc) \<Longrightarrow>
    response_queue mc (mc_response_queues mc ! i) = Inr q \<Longrightarrow> getNextToRead q = Some r \<Longrightarrow> updateReadIndex q = Inr q' \<Longrightarrow>
    harness_run symbols sent (responses @ [r]) (set_response_queue (mc_response_queues mc ! i) q' mc)"

definition settled :: "Symbol list \<Rightarrow> MatchingCore \<Rightarrow> bool" where
  "settled symbols mc \<longleftrightarrow> num_elements (mc_unknown_symbol_responses mc) = 0 \<and>
     list_all (\<lambda>sy. case mc_contexts mc sy of None \<Rightarrow> True | Some ctx \<Rightarrow>
       num_elements (ctx_request_queue ctx) = 0 \<and> num_elements (bk_response_queue (ctx_book ctx)) = 0) symbols"

section \<open>What the harness sees\<close>

text \<open>The engine of the harness inside an exchange whose gateway and feed do nothing.\<close>

definition harness_inv :: "Symbol list \<Rightarrow> EngineOrderRequest list \<Rightarrow> EngineOrderResponse list \<Rightarrow> MatchingCore \<Rightarrow> bool" where
  "harness_inv symbols sent responses mc \<longleftrightarrow>
     (\<exists>ex. ex_core ex = mc \<and> ex_routing ex = [] \<and> exchange_inv symbols sent sent responses [] [] ex \<and>
       sized SYMBOL_QUEUE_SIZE MAX_RESTING_ORDERS MAX_PRICE_LEVELS SNAPSHOT_QUEUE_SIZE ex)"

lemma harness_send:
  assumes inv: "harness_inv symbols sent D mc" and len: "length sent + 1 < MAX_PRICE_LEVELS"
  shows "harness_inv symbols (sent @ [r]) D (routeRequest r mc)"
proof -
  obtain ex where ex: "ex_core ex = mc" "ex_routing ex = []" "exchange_inv symbols sent sent D [] [] ex"
    "sized SYMBOL_QUEUE_SIZE MAX_RESTING_ORDERS MAX_PRICE_LEVELS SNAPSHOT_QUEUE_SIZE ex"
    using inv by (auto simp: harness_inv_def)
  let ?ex = "ex\<lparr>ex_routing := [r]\<rparr>"
  have i: "exchange_inv symbols (sent @ [r]) sent D [] [] ?ex"
    using ex(2,3) by (simp add: exchange_inv_def gateway_inv_def)
  have "sized SYMBOL_QUEUE_SIZE MAX_RESTING_ORDERS MAX_PRICE_LEVELS SNAPSHOT_QUEUE_SIZE ?ex" using ex(4) by (simp add: sized_def)
  note s = route_step_room [OF i this main_roomy(1) [OF len]]
  have "route_step ?ex = ?ex\<lparr>ex_routing := [], ex_core := routeRequest r mc\<rparr>" using ex(1) by (simp add: route_step_def)
  then show ?thesis
    using route_inv [OF i] s unfolding harness_inv_def by (intro exI [of _ "route_step ?ex"]) simp
qed

lemma harness_match:
  assumes inv: "harness_inv symbols sent D mc" and len: "length sent < MAX_PRICE_LEVELS"
    and ctx: "mc_contexts mc sy = Some ctx" "run_step now ctx = Inr ctx'"
  shows "harness_inv symbols sent D (set_context sy ctx' mc)"
proof -
  obtain ex where ex: "ex_core ex = mc" "ex_routing ex = []" "exchange_inv symbols sent sent D [] [] ex"
    "sized SYMBOL_QUEUE_SIZE MAX_RESTING_ORDERS MAX_PRICE_LEVELS SNAPSHOT_QUEUE_SIZE ex"
    using inv by (auto simp: harness_inv_def)
  let ?ex = "ex\<lparr>ex_core := set_context sy ctx' mc\<rparr>"
  have st: "match_step sy now ex = Inr ?ex" using ex(1) ctx by (simp add: match_step_def)
  then have "sized SYMBOL_QUEUE_SIZE MAX_RESTING_ORDERS MAX_PRICE_LEVELS SNAPSHOT_QUEUE_SIZE ?ex" "no_overflow symbols ?ex"
    using match_step_room [OF ex(3,4) main_roomy(1) [OF len], of sy now] by auto
  then show ?thesis
    using match_inv [OF ex(3) st] ex(2) unfolding harness_inv_def by (intro exI [of _ ?ex]) simp
qed

lemma harness_settle:
  assumes inv: "harness_inv symbols sent D mc" and i: "i < length (mc_response_queues mc)"
    and q: "response_queue mc (mc_response_queues mc ! i) = Inr q" "getNextToRead q = Some r" "updateReadIndex q = Inr q'"
  shows "harness_inv symbols sent (D @ [r]) (set_response_queue (mc_response_queues mc ! i) q' mc)"
proof -
  obtain ex where ex: "ex_core ex = mc" "ex_routing ex = []" "exchange_inv symbols sent sent D [] [] ex"
    "sized SYMBOL_QUEUE_SIZE MAX_RESTING_ORDERS MAX_PRICE_LEVELS SNAPSHOT_QUEUE_SIZE ex"
    using inv by (auto simp: harness_inv_def)
  obtain ex' where e: "respond_step i ex = Inr ex'" "ex_core ex' = set_response_queue (mc_response_queues mc ! i) q' mc" "ex_routing ex' = []"
    using i q ex(1,2) by (simp add: respond_step_def read_one_def)
  then show ?thesis
    using respond_reads [OF ex(3) _ _ q(2) e(1)] respond_step_sized [OF e(1) ex(4)] i q(1) ex(1)
    unfolding harness_inv_def by (intro exI [of _ ex']) simp
qed

lemma harness_run_inv:
  assumes "distinct symbols" and "harness_run symbols sent D mc" and "length sent < MAX_PRICE_LEVELS"
  shows "harness_inv symbols sent D mc"
  using assms(2,3)
proof (induction rule: harness_run.induct)
  case construct
  note r = main_roomy [of 0]
  have "exchange_inv symbols [] [] [] [] [] (main_exchange symbols)"
    using mk_exchange_inv [OF assms(1)] r by (simp add: main_exchange_def MAX_PRICE_LEVELS_def MAX_RESTING_ORDERS_def)
  then show ?case
    using mk_exchange_sized [OF assms(1)] unfolding harness_inv_def
    by (intro exI [of _ "main_exchange symbols"]) (simp add: main_exchange_def mk_exchange_def new_MatchingCore_def)
next
  case (send sent responses mc r)
  then show ?case using harness_send by simp
next
  case (matching sent responses mc sy ctx now ctx')
  then show ?case using harness_match by blast
next
  case (settle sent responses mc i q r q')
  then show ?case using harness_settle by blast
qed

text \<open>
  At rest, the responses for a symbol are those of processing its requests in the order sent, under any
  clock, and the responses for unknown symbols are their rejections.
\<close>

definition expected :: "Symbol \<Rightarrow> EngineOrderRequest list \<Rightarrow> EngineOrderResponse list" where
  "expected sy sent =
     fst (snd (spec_all (\<lambda>(now, req). spec_request now req) (map (\<lambda>req. (0, req)) (for_symbol sy sent)) (empty_abook sy)))"

lemma settled_responses:
  assumes "distinct symbols" and "harness_run symbols sent D mc" and "length sent < MAX_PRICE_LEVELS" and "settled symbols mc"
  shows "\<forall>sy \<in> set symbols. filter (\<lambda>r. rsp_symbol r = sy) D = expected sy sent"
    and "filter (\<lambda>r. rsp_symbol r \<notin> set symbols) D = map reject_of (filter (\<lambda>r. req_symbol r \<notin> set symbols) sent)"
proof -
  obtain ex where ex: "ex_core ex = mc" "exchange_inv symbols sent sent D [] [] ex"
    using harness_run_inv [OF assms(1-3)] by (auto simp: harness_inv_def)
  show "\<forall>sy \<in> set symbols. filter (\<lambda>r. rsp_symbol r = sy) D = expected sy sent"
  proof
    fix sy assume sy: "sy \<in> set symbols"
    obtain ctx hist a where h: "mc_contexts mc sy = Some ctx" "map snd hist @ contents (ctx_request_queue ctx) = for_symbol sy sent"
      "sequential sy hist a (of_symbol sy D @ contents (bk_response_queue (ctx_book ctx))) (updates_of sy [] @ contents (bk_update_queue (ctx_book ctx)))"
      using symbol_inv_sequential [OF ex(2) sy] ex(1) by metis
    have e: "contents (ctx_request_queue ctx) = []" "contents (bk_response_queue (ctx_book ctx)) = []"
      using assms(4) sy h(1) by (auto simp: settled_def list_all_iff contents_empty)
    have "for_symbol sy sent = map snd hist" using h(2) e by simp
    then show "filter (\<lambda>r. rsp_symbol r = sy) D = expected sy sent"
      using spec_all_untimed [OF h(3) [unfolded sequential_def]] e by (simp add: expected_def)
  qed
  have "contents (mc_unknown_symbol_responses mc) = []" using assms(4) by (simp add: settled_def contents_empty)
  then show "filter (\<lambda>r. rsp_symbol r \<notin> set symbols) D = map reject_of (filter (\<lambda>r. req_symbol r \<notin> set symbols) sent)"
    using ex by (simp add: exchange_inv_def core_inv_def)
qed

text \<open>The engine of the harness always comes to rest when it is given the turns.\<close>

lemma unsettled_cases [consumes 1]:
  assumes "\<not> settled symbols mc"
  obtains "num_elements (mc_unknown_symbol_responses mc) \<noteq> 0"
  | sy ctx where "sy \<in> set symbols" "mc_contexts mc sy = Some ctx" "num_elements (ctx_request_queue ctx) \<noteq> 0"
  | sy ctx where "sy \<in> set symbols" "mc_contexts mc sy = Some ctx" "num_elements (bk_response_queue (ctx_book ctx)) \<noteq> 0"
  using assms unfolding settled_def list_all_iff by (fastforce split: option.splits)

lemma harness_settles:
  assumes d: "distinct symbols" and "harness_run symbols sent D mc" and len: "length sent < MAX_PRICE_LEVELS"
  shows "\<exists>more mc'. harness_run symbols sent (D @ more) mc' \<and> settled symbols mc'"
proof -
  let ?R = "measures [\<lambda>mc. \<Sum>sy \<leftarrow> symbols. queued_requests mc sy, \<lambda>mc. backlog (response_queue mc) (mc_response_queues mc)]"
  have "wf ?R" by simp
  then show ?thesis
    using assms(2)
  proof (induction mc arbitrary: D rule: wf_induct_rule)
    case (less mc)
    note run = less.prems
    obtain ex where ex: "ex_core ex = mc" "exchange_inv symbols sent sent D [] [] ex"
      "sized SYMBOL_QUEUE_SIZE MAX_RESTING_ORDERS MAX_PRICE_LEVELS SNAPSHOT_QUEUE_SIZE ex"
      using harness_run_inv [OF d run len] by (auto simp: harness_inv_def)
    have core: "mc_response_queues mc = map Of_Symbol symbols @ [Of_Unknown]" "\<And>sy. sy \<in> set symbols \<Longrightarrow> mc_contexts mc sy \<noteq> None"
      using ex(1,2) unfolding exchange_inv_def core_inv_def by blast+
    have pull: ?case if i: "i < length (mc_response_queues mc)" and q: "response_queue mc (mc_response_queues mc ! i) = Inr q" "num_elements q \<noteq> 0" for i q
    proof -
      obtain r q' where r: "getNextToRead q = Some r" "updateReadIndex q = Inr q'" and "(set_response_queue (mc_response_queues mc ! i) q' mc, mc) \<in> ?R"
        using waiting_response_moves [of i ex q, unfolded ex(1), OF i q] by (metis (no_types, lifting) in_measures)
      then obtain more mc' where "harness_run symbols sent ((D @ [r]) @ more) mc'" "settled symbols mc'"
        using less.IH [OF _ harness_run.settle [OF run i q(1) r]] by blast
      then show ?case by (intro exI [of _ "r # more"]) auto
    qed
    have match: ?case if s: "sy \<in> set symbols" "mc_contexts mc sy = Some ctx" "num_elements (ctx_request_queue ctx) \<noteq> 0" for sy ctx
    proof -
      obtain ctx' where c: "run_step 0 ctx = Inr ctx'"
        "(\<Sum>x \<leftarrow> symbols. queued_requests (set_context sy ctx' (ex_core ex)) x) < (\<Sum>x \<leftarrow> symbols. queued_requests (ex_core ex) x)"
        by (rule queued_request_moves [OF ex(2,3) main_roomy(1) [OF len] order_refl s(1) _ s(3)]) (use s(2) ex(1) in auto)
      then show ?case using less.IH [OF _ harness_run.matching [OF run s(2) c(1)]] unfolding ex(1) by simp
    qed
    show ?case
    proof (cases "settled symbols mc")
      case False
      then show ?thesis
      proof (cases rule: unsettled_cases)
        case 1
        then show ?thesis using pull [of "length symbols"] core(1) by (simp add: nth_append)
      next
        case 2
        then show ?thesis by (rule match)
      next
        case (3 sy ctx)
        then obtain i where "i < length symbols" "symbols ! i = sy" by (auto simp: in_set_conv_nth)
        then show ?thesis using pull [of i] 3 core(1) by (simp add: nth_append)
      qed
    qed (use run in \<open>metis append_Nil2\<close>)
  qed
qed

lemma harness_sends: "\<exists>mc. harness_run symbols sent [] mc"
proof (induction sent rule: rev_induct)
  case Nil
  then show ?case using harness_run.construct by blast
next
  case (snoc r sent)
  then show ?case using harness_run.send by blast
qed

section \<open>The tests\<close>

definition request :: "OrderType \<Rightarrow> ClientId \<Rightarrow> Symbol \<Rightarrow> OrderId \<Rightarrow> Side \<Rightarrow> Price \<Rightarrow> Qty \<Rightarrow> EngineOrderRequest" where
  "request ot cid sy oid sd p q =
     \<lparr>req_order_type = ot, req_client_id = cid, req_symbol = sy, req_order_id = oid, req_side = sd, req_price = p, req_qty = q,
      req_recv_time = req_recv_time EngineOrderRequest_default\<rparr>"

fun any :: "(EngineOrderResponse \<Rightarrow> bool) \<Rightarrow> EngineOrderResponse list \<Rightarrow> bool" where
  "any pred [] = False"
| "any pred (r # responses) = (if pred r then True else any pred responses)"

text \<open>A response for an order with a status.\<close>

definition tells :: "OrderId \<Rightarrow> ResponseStatus \<Rightarrow> EngineOrderResponse \<Rightarrow> bool" where
  "tells oid st r \<longleftrightarrow> rsp_client_order_id r = oid \<and> rsp_status r = st"

text \<open>
  A test names the symbols of its harness, what it sends and the conditions it checks on the responses.
  Where a test settles between two sends, the harness may pull responses in between, as it may everywhere.
\<close>

record Test =
  test_symbols :: "Symbol list"
  test_sends :: "EngineOrderRequest list"
  test_checks :: "(EngineOrderResponse list \<Rightarrow> bool) list"

definition on_TST :: "EngineOrderRequest list \<Rightarrow> (EngineOrderResponse list \<Rightarrow> bool) list \<Rightarrow> Test" where
  "on_TST sends checks = \<lparr>test_symbols = [''TST''], test_sends = sends, test_checks = checks\<rparr>"

definition testBasicMatch :: Test where
  "testBasicMatch = on_TST
     [request LIMIT 1 ''TST'' 1 BUY 100 10,
      request LIMIT 2 ''TST'' 2 SELL 100 4]
     [any (\<lambda>r. tells 1 FILLED r \<and> rsp_exec_qty r = 4), any (\<lambda>r. tells 2 FILLED r \<and> rsp_exec_qty r = 4)]"

definition testPartialFillLeavesRemainder :: Test where
  "testPartialFillLeavesRemainder = on_TST
     [request LIMIT 1 ''TST'' 1 BUY 100 10,
      request LIMIT 2 ''TST'' 2 SELL 100 4]
     [any (\<lambda>r. tells 1 FILLED r \<and> rsp_leaves_qty r = 6)]"

definition testPriceTimePriority :: Test where
  "testPriceTimePriority = on_TST
     [request LIMIT 1 ''TST'' 1 BUY 100 5,
      request LIMIT 2 ''TST'' 2 BUY 101 5,
      request LIMIT 3 ''TST'' 3 SELL 100 5]
     [any (tells 2 FILLED), \<lambda>rs. \<not> any (tells 1 FILLED) rs]"

definition testTimePriorityAtSamePrice :: Test where
  "testTimePriorityAtSamePrice = on_TST
     [request LIMIT 1 ''TST'' 1 BUY 100 5,
      request LIMIT 2 ''TST'' 2 BUY 100 5,
      request LIMIT 3 ''TST'' 3 SELL 100 5]
     [any (tells 1 FILLED), \<lambda>rs. \<not> any (tells 2 FILLED) rs]"

definition testCancel :: Test where
  "testCancel = on_TST
     [request LIMIT 1 ''TST'' 1 BUY 100 5,
      request CANCEL 1 ''TST'' 1 Side_INVALID 0 0]
     [any (tells 1 CANCELED)]"

definition testCancelUnknownOrderIsGraceful :: Test where
  "testCancelUnknownOrderIsGraceful = on_TST
     [request CANCEL 1 ''TST'' 999 Side_INVALID 0 0]
     [any (tells 999 CANCEL_REJECTED)]"

definition testModifyQtyDecreaseKeepsPriority :: Test where
  "testModifyQtyDecreaseKeepsPriority = on_TST
     [request LIMIT 1 ''TST'' 1 BUY 100 10,
      request LIMIT 2 ''TST'' 2 BUY 100 10,
      request MODIFY 1 ''TST'' 1 Side_INVALID 100 5,
      request LIMIT 3 ''TST'' 3 SELL 100 5]
     [any (tells 1 FILLED)]"

definition testModifyQtyIncreaseResetsPriority :: Test where
  "testModifyQtyIncreaseResetsPriority = on_TST
     [request LIMIT 1 ''TST'' 1 BUY 100 10,
      request LIMIT 2 ''TST'' 2 BUY 100 10,
      request MODIFY 1 ''TST'' 1 Side_INVALID 100 15,
      request LIMIT 3 ''TST'' 3 SELL 100 10]
     [any (tells 2 FILLED)]"

definition testModifyPriceChangeCanMatchImmediately :: Test where
  "testModifyPriceChangeCanMatchImmediately = on_TST
     [request LIMIT 1 ''TST'' 1 SELL 110 5,
      request LIMIT 2 ''TST'' 2 BUY 100 5,
      request MODIFY 2 ''TST'' 2 Side_INVALID 110 5]
     [any (tells 2 FILLED)]"

definition testSelfTradePrevention :: Test where
  "testSelfTradePrevention = on_TST
     [request LIMIT 1 ''TST'' 1 BUY 100 10,
      request LIMIT 1 ''TST'' 2 SELL 100 10]
     [\<lambda>rs. \<not> any (\<lambda>r. rsp_status r = FILLED) rs]"

definition testMarketOrderCancelsUnfilledRemainder :: Test where
  "testMarketOrderCancelsUnfilledRemainder = on_TST
     [request LIMIT 1 ''TST'' 1 BUY 100 3,
      request MARKET 2 ''TST'' 2 SELL 0 10]
     [any (\<lambda>r. tells 2 CANCELED r \<and> rsp_leaves_qty r = 7)]"

definition testIOCNeverRests :: Test where
  "testIOCNeverRests = on_TST
     [request IOC 1 ''TST'' 1 BUY 100 10]
     [any (tells 1 CANCELED)]"

definition testUnknownSymbolIsRejected :: Test where
  "testUnknownSymbolIsRejected = on_TST
     [request LIMIT 1 ''NOPE'' 1 BUY 100 10]
     [any (\<lambda>r. rsp_status r = REJECTED)]"

definition testZeroQuantityIsRejected :: Test where
  "testZeroQuantityIsRejected = on_TST
     [request LIMIT 1 ''TST'' 1 BUY 100 0]
     [any (\<lambda>r. rsp_status r = REJECTED)]"

definition testInvalidPriceIsRejected :: Test where
  "testInvalidPriceIsRejected = on_TST
     [request LIMIT 1 ''TST'' 1 BUY (- 5) 10]
     [any (\<lambda>r. rsp_status r = REJECTED)]"

definition testDuplicateOrderIdIsRejected :: Test where
  "testDuplicateOrderIdIsRejected = on_TST
     [request LIMIT 1 ''TST'' 1 BUY 100 5,
      request LIMIT 2 ''TST'' 1 BUY 101 5]
     [any (\<lambda>r. rsp_client_id r = 2 \<and> rsp_status r = REJECTED)]"

definition testMultipleSymbolsStayIndependent :: Test where
  "testMultipleSymbolsStayIndependent =
     \<lparr>test_symbols = [''AAA'', ''BBB''],
      test_sends = [request LIMIT 1 ''AAA'' 1 BUY 100 5, request LIMIT 2 ''BBB'' 2 SELL 100 5],
      test_checks = [\<lambda>rs. \<not> any (tells 2 FILLED) rs]\<rparr>"

text \<open>The tests in the order of main, and the counters that main prints.\<close>

definition tests :: "Test list" where
  "tests =
     [testBasicMatch, testPartialFillLeavesRemainder, testPriceTimePriority, testTimePriorityAtSamePrice,
      testCancel, testCancelUnknownOrderIsGraceful, testModifyQtyDecreaseKeepsPriority,
      testModifyQtyIncreaseResetsPriority, testModifyPriceChangeCanMatchImmediately, testSelfTradePrevention,
      testMarketOrderCancelsUnfilledRemainder, testIOCNeverRests, testUnknownSymbolIsRejected,
      testZeroQuantityIsRejected, testInvalidPriceIsRejected, testDuplicateOrderIdIsRejected,
      testMultipleSymbolsStayIndependent]"

lemmas test_defs =
  testBasicMatch_def testPartialFillLeavesRemainder_def testPriceTimePriority_def testTimePriorityAtSamePrice_def testCancel_def testCancelUnknownOrderIsGraceful_def testModifyQtyDecreaseKeepsPriority_def testModifyQtyIncreaseResetsPriority_def testModifyPriceChangeCanMatchImmediately_def testSelfTradePrevention_def testMarketOrderCancelsUnfilledRemainder_def testIOCNeverRests_def testUnknownSymbolIsRejected_def testZeroQuantityIsRejected_def testInvalidPriceIsRejected_def testDuplicateOrderIdIsRejected_def testMultipleSymbolsStayIndependent_def on_TST_def

fun check :: "bool \<Rightarrow> nat \<times> nat \<Rightarrow> nat \<times> nat" where
  "check condition (pass_count, fail_count) =
     (if condition then (pass_count + 1, fail_count) else (pass_count, fail_count + 1))"

definition run_test :: "Test \<Rightarrow> EngineOrderResponse list \<Rightarrow> nat \<times> nat \<Rightarrow> nat \<times> nat" where
  "run_test t responses = fold (\<lambda>c. check (c responses)) (test_checks t)"

definition test_main :: "EngineOrderResponse list list \<Rightarrow> nat \<times> nat" where
  "test_main pulled = fold (\<lambda>(t, responses). run_test t responses) (zip tests pulled) (0, 0)"

section \<open>Every schedule passes\<close>

text \<open>What a test must have seen when its engine is at rest, in the order of its symbols.\<close>

definition outcome :: "Test \<Rightarrow> EngineOrderResponse list" where
  "outcome t = concat (map (\<lambda>sy. expected sy (test_sends t)) (test_symbols t)) @
     map reject_of (filter (\<lambda>r. req_symbol r \<notin> set (test_symbols t)) (test_sends t))"

lemma any_iff: "any pred rs \<longleftrightarrow> (\<exists>r \<in> set rs. pred r)"
  by (induction rs) auto

lemma settled_outcome:
  assumes "distinct (test_symbols t)" and "harness_run (test_symbols t) (test_sends t) D mc"
    and "length (test_sends t) < MAX_PRICE_LEVELS" and "settled (test_symbols t) mc"
  shows "set D = set (outcome t)"
proof -
  note s = settled_responses [OF assms]
  have "set D = (\<Union>sy \<in> set (test_symbols t). set (filter (\<lambda>r. rsp_symbol r = sy) D)) \<union>
      set (filter (\<lambda>r. rsp_symbol r \<notin> set (test_symbols t)) D)" by auto
  then show ?thesis unfolding s(2) using s(1) by (simp add: outcome_def)
qed

lemma check_depends_on_set:
  assumes "t \<in> set tests" and "c \<in> set (test_checks t)" and "set D = set E"
  shows "c D = c E"
  using assms by (auto simp: tests_def test_defs any_iff)

lemma tests_small: "t \<in> set tests \<Longrightarrow> distinct (test_symbols t) \<and> length (test_sends t) < MAX_PRICE_LEVELS"
  by (auto simp: tests_def test_defs MAX_PRICE_LEVELS_def)

lemma outcomes_pass: "list_all (\<lambda>t. list_all (\<lambda>c. c (outcome t)) (test_checks t)) tests"
  by code_simp

lemma run_test_passes:
  assumes "t \<in> set tests" and "harness_run (test_symbols t) (test_sends t) D mc" and "settled (test_symbols t) mc"
  shows "run_test t D (p, f) = (p + length (test_checks t), f)"
proof -
  have o: "set D = set (outcome t)" using settled_outcome tests_small [OF assms(1)] assms(2,3) by blast
  have c: "c D" if "c \<in> set (test_checks t)" for c
    using check_depends_on_set [OF assms(1) that o] outcomes_pass assms(1) that by (auto simp: list_all_iff)
  have "fold (\<lambda>c. check (c D)) cs (p, f) = (p + length cs, f)" if "\<forall>c \<in> set cs. c D" for cs
    using that by (induction cs arbitrary: p) auto
  then show ?thesis unfolding run_test_def using c by blast
qed

lemma passes_all:
  assumes "list_all2 (\<lambda>t D. \<exists>mc. harness_run (test_symbols t) (test_sends t) D mc \<and> settled (test_symbols t) mc) ts pulled"
    and "set ts \<subseteq> set tests"
  shows "fold (\<lambda>(t, responses). run_test t responses) (zip ts pulled) (p, f) = (p + (\<Sum>t \<leftarrow> ts. length (test_checks t)), f)"
  using assms
proof (induction arbitrary: p rule: list_all2_induct)
  case (Cons t ts D pulled)
  then show ?case using run_test_passes [of t D _ p f] by auto
qed simp

text \<open>
  C19 The test program passes under every schedule: however the matching threads and the pulls of the
  harness interleave, and whatever the clock shows, when the engine of each of the seventeen tests has
  come to rest its responses meet all conditions, so that main counts twenty passes and no failure. And
  whatever a test has received so far, there is a run with these responses first that comes to rest.
\<close>

theorem test_program_passes:
  "(\<forall>pulled. list_all2 (\<lambda>t D. \<exists>mc. harness_run (test_symbols t) (test_sends t) D mc \<and> settled (test_symbols t) mc) tests pulled \<longrightarrow>
      test_main pulled = (20, 0)) \<and>
   (\<forall>t D mc. t \<in> set tests \<longrightarrow> harness_run (test_symbols t) (test_sends t) D mc \<longrightarrow>
      (\<exists>more mc'. harness_run (test_symbols t) (test_sends t) (D @ more) mc' \<and> settled (test_symbols t) mc'))"
proof -
  have "(\<Sum>t \<leftarrow> tests. length (test_checks t)) = 20" by (simp add: tests_def test_defs)
  then have "test_main pulled = (20, 0)"
    if "list_all2 (\<lambda>t D. \<exists>mc. harness_run (test_symbols t) (test_sends t) D mc \<and> settled (test_symbols t) mc) tests pulled" for pulled
    using passes_all [OF that] by (simp add: test_main_def)
  moreover have "\<exists>more mc'. harness_run (test_symbols t) (test_sends t) (D @ more) mc' \<and> settled (test_symbols t) mc'"
    if "t \<in> set tests" "harness_run (test_symbols t) (test_sends t) D mc" for t D mc
    using harness_settles [OF _ that(2)] tests_small [OF that(1)] by simp
  ultimately show ?thesis by (intro conjI allI impI)
qed

theorem test_program_passes_witness:
  "\<exists>pulled. list_all2 (\<lambda>t D. \<exists>mc. harness_run (test_symbols t) (test_sends t) D mc \<and> settled (test_symbols t) mc) tests pulled \<and>
     test_main pulled = (20, 0)"
proof -
  have "\<exists>D. \<exists>mc. harness_run (test_symbols t) (test_sends t) D mc \<and> settled (test_symbols t) mc" if "t \<in> set tests" for t
    using conjunct2 [OF test_program_passes] that harness_sends by blast
  then have "\<exists>pulled. list_all2 (\<lambda>t D. \<exists>mc. harness_run (test_symbols t) (test_sends t) D mc \<and> settled (test_symbols t) mc) ts pulled"
    if "set ts \<subseteq> set tests" for ts
    using that by (induction ts) (auto simp: list_all2_Cons1, blast)
  then show ?thesis using conjunct1 [OF test_program_passes] by blast
qed

end
