(* ===== verification/QueueConcurrency.thy ===== *)
theory QueueConcurrency
  imports LFQueue
begin

text \<open>
  The queue under true concurrency: one producer and one consumer whose operations interleave at the
  level of single memory accesses. A write stores the element, advances the write index and
  increments the counter, in this order; a read checks the counter, copies the element, advances the
  read index and decrements the counter. The counter is what each side learns about the other. Two
  histories record what was written and what was read. Memory accesses are sequentially consistent,
  as the default order of \<open>std::atomic\<close> makes them for the indices and the counter.
\<close>

section \<open>Operations as single accesses\<close>

definition advance_write :: "'a LFQueue \<Rightarrow> 'a LFQueue" where
  "advance_write q = q\<lparr>next_write_index := (next_write_index q + 1) mod length (q_store q)\<rparr>"

definition count_up :: "'a LFQueue \<Rightarrow> 'a LFQueue" where
  "count_up q = q\<lparr>num_elements := num_elements q + 1\<rparr>"

definition advance_read :: "'a LFQueue \<Rightarrow> 'a LFQueue" where
  "advance_read q = q\<lparr>next_read_index := (next_read_index q + 1) mod length (q_store q)\<rparr>"

definition count_down :: "'a LFQueue \<Rightarrow> 'a LFQueue result" where
  "count_down q = (if num_elements q \<noteq> 0 then Inr (q\<lparr>num_elements := num_elements q - 1\<rparr>) else Inl QueueInvalidRead)"

text \<open>Run without interruption, the accesses are the operations.\<close>

lemma accesses_compose:
  "updateWriteIndex q = count_up (advance_write q)"
  "updateReadIndex q = count_down (advance_read q)"
  by (simp_all add: updateWriteIndex_def count_up_def advance_write_def updateReadIndex_def count_down_def
      advance_read_def Let_def)

section \<open>Interleavings\<close>

text \<open>Where the producer is within a write, and where the consumer is within a read.\<close>

datatype producer_pc = P_idle | P_stored | P_advanced
datatype consumer_pc = C_idle | C_peeked | C_copied | C_advanced

record 'a channel =
  ch_queue :: "'a LFQueue"
  ch_producer :: producer_pc
  ch_consumer :: consumer_pc
  ch_written :: "'a list"
  ch_read :: "'a list"

definition mk_channel :: "nat \<Rightarrow> 'a \<Rightarrow> 'a channel" where
  "mk_channel n d = \<lparr>ch_queue = new_LFQueue n d, ch_producer = P_idle, ch_consumer = C_idle, ch_written = [], ch_read = []\<rparr>"

inductive channel_step :: "'a channel \<Rightarrow> 'a channel \<Rightarrow> bool" where
  store: "ch_producer c = P_idle \<Longrightarrow>
    channel_step c (c\<lparr>ch_queue := writeNext v (ch_queue c), ch_producer := P_stored, ch_written := ch_written c @ [v]\<rparr>)"
| advance_w: "ch_producer c = P_stored \<Longrightarrow>
    channel_step c (c\<lparr>ch_queue := advance_write (ch_queue c), ch_producer := P_advanced\<rparr>)"
| publish: "ch_producer c = P_advanced \<Longrightarrow>
    channel_step c (c\<lparr>ch_queue := count_up (ch_queue c), ch_producer := P_idle\<rparr>)"
| peek: "ch_consumer c = C_idle \<Longrightarrow> qsize (ch_queue c) \<noteq> 0 \<Longrightarrow> channel_step c (c\<lparr>ch_consumer := C_peeked\<rparr>)"
| copy: "ch_consumer c = C_peeked \<Longrightarrow>
    channel_step c (c\<lparr>ch_consumer := C_copied, ch_read := ch_read c @ [q_store (ch_queue c) ! next_read_index (ch_queue c)]\<rparr>)"
| advance_r: "ch_consumer c = C_copied \<Longrightarrow>
    channel_step c (c\<lparr>ch_queue := advance_read (ch_queue c), ch_consumer := C_advanced\<rparr>)"
| retire: "ch_consumer c = C_advanced \<Longrightarrow> count_down (ch_queue c) = Inr q \<Longrightarrow>
    channel_step c (c\<lparr>ch_queue := q, ch_consumer := C_idle\<rparr>)"

inductive_cases channel_stepE: "channel_step c c'"

text \<open>
  The steps test nothing, as the code does not: a write to a full queue is a step like any other. The
  runs considered are those in which no write starts while the counter shows a full queue.
\<close>

definition starts_on_full :: "'a channel \<Rightarrow> 'a channel \<Rightarrow> bool" where
  "starts_on_full c c' \<longleftrightarrow> ch_producer c = P_idle \<and> ch_producer c' = P_stored \<and> \<not> has_room (ch_queue c)"

inductive channel_reach :: "'a channel \<Rightarrow> bool" where
  start: "0 < n \<Longrightarrow> channel_reach (mk_channel n d)"
| step: "channel_reach c \<Longrightarrow> channel_step c c' \<Longrightarrow> \<not> starts_on_full c c' \<Longrightarrow> channel_reach c'"

section \<open>The invariant\<close>

text \<open>How many elements have been counted in, and how many have been counted out.\<close>

definition published :: "'a channel \<Rightarrow> nat" where
  "published c = length (ch_written c) - (if ch_producer c = P_idle then 0 else 1)"

definition retired :: "'a channel \<Rightarrow> nat" where
  "retired c = length (ch_read c) - (if ch_consumer c = C_copied \<or> ch_consumer c = C_advanced then 1 else 0)"

definition channel_inv :: "'a channel \<Rightarrow> bool" where
  "channel_inv c \<longleftrightarrow>
     (let q = ch_queue c; n = capacity q in
      0 < n \<and> num_elements q + retired c = published c \<and>
      length (ch_written c) \<le> retired c + n \<and>
      (ch_producer c \<noteq> P_idle \<longrightarrow> ch_written c \<noteq> []) \<and>
      (ch_consumer c = C_copied \<or> ch_consumer c = C_advanced \<longrightarrow> ch_read c \<noteq> []) \<and>
      (ch_consumer c \<noteq> C_idle \<longrightarrow> 0 < num_elements q) \<and>
      next_write_index q = (length (ch_written c) - (if ch_producer c = P_stored then 1 else 0)) mod n \<and>
      next_read_index q = (retired c + (if ch_consumer c = C_advanced then 1 else 0)) mod n \<and>
      ch_read c = take (length (ch_read c)) (ch_written c) \<and>
      (\<forall>k. retired c \<le> k \<longrightarrow> k < length (ch_written c) \<longrightarrow> q_store q ! (k mod n) = ch_written c ! k))"

lemma queue_access_simps [simp]:
  "capacity (advance_write q) = capacity q" "capacity (count_up q) = capacity q" "capacity (advance_read q) = capacity q"
  "capacity (writeNext v q) = capacity q"
  "q_store (advance_write q) = q_store q" "q_store (count_up q) = q_store q" "q_store (advance_read q) = q_store q"
  "q_store (writeNext v q) = (q_store q)[next_write_index q := v]"
  "num_elements (advance_write q) = num_elements q" "num_elements (count_up q) = num_elements q + 1"
  "num_elements (advance_read q) = num_elements q" "num_elements (writeNext v q) = num_elements q"
  "next_write_index (advance_write q) = (next_write_index q + 1) mod capacity q" "next_write_index (count_up q) = next_write_index q"
  "next_write_index (advance_read q) = next_write_index q" "next_write_index (writeNext v q) = next_write_index q"
  "next_read_index (advance_write q) = next_read_index q" "next_read_index (count_up q) = next_read_index q"
  "next_read_index (advance_read q) = (next_read_index q + 1) mod capacity q" "next_read_index (writeNext v q) = next_read_index q"
  by (simp_all add: advance_write_def count_up_def advance_read_def writeNext_def capacity_def)

lemma channel_inv_start: "0 < n \<Longrightarrow> channel_inv (mk_channel n d)"
  by (simp add: channel_inv_def mk_channel_def published_def retired_def Let_def) (simp add: new_LFQueue_def)

lemma channel_inv_store:
  assumes inv: "channel_inv c" and "ch_producer c = P_idle" and "has_room (ch_queue c)"
  shows "channel_inv (c\<lparr>ch_queue := writeNext v (ch_queue c), ch_producer := P_stored, ch_written := ch_written c @ [v]\<rparr>)"
    (is "channel_inv ?c")
proof -
  let ?q = "ch_queue c" and ?w = "length (ch_written c)" and ?n = "capacity (ch_queue c)"
  have n: "0 < ?n" and num: "num_elements ?q + retired c = ?w" and wi: "next_write_index ?q = ?w mod ?n"
    using inv assms(2) by (simp_all add: channel_inv_def Let_def published_def)
  have room: "?w < retired c + ?n" using assms(3) num by (simp add: has_room_def)
  have ret: "retired ?c = retired c" "published ?c = ?w" by (simp_all add: retired_def published_def)
  have len: "length (ch_read c) \<le> ?w" using inv by (metis (no_types, lifting) channel_inv_def length_take min.cobounded1 min_def)
  have "(q_store ?q)[?w mod ?n := v] ! (k mod ?n) = (ch_written c @ [v]) ! k" if k: "retired c \<le> k" "k < ?w + 1" for k
  proof (cases "k = ?w")
    case True
    then show ?thesis using n by (simp add: capacity_def)
  next
    case False
    then have kw: "k < ?w" using k by simp
    have "k mod ?n \<noteq> ?w mod ?n"
    proof
      assume "k mod ?n = ?w mod ?n"
      then have "?n dvd ?w - k" using kw by (metis mod_eq_dvd_iff_nat nat_less_le)
      moreover have "0 < ?w - k" "?w - k < ?n" using kw k(1) room by simp_all
      ultimately show False using nat_dvd_not_less by blast
    qed
    then show ?thesis using inv kw k(1) by (simp add: channel_inv_def Let_def nth_append)
  qed
  then show ?thesis
    using inv assms(2) num room len ret wi by (simp add: channel_inv_def Let_def published_def)
qed

lemmas channel_defs = channel_inv_def Let_def published_def retired_def

lemma channel_inv_producer:
  assumes "channel_inv c"
  shows "ch_producer c = P_stored \<Longrightarrow> channel_inv (c\<lparr>ch_queue := advance_write (ch_queue c), ch_producer := P_advanced\<rparr>)"
    and "ch_producer c = P_advanced \<Longrightarrow> channel_inv (c\<lparr>ch_queue := count_up (ch_queue c), ch_producer := P_idle\<rparr>)"
  using assms by (auto simp: channel_defs mod_Suc_eq Suc_leI simp flip: length_greater_0_conv split: if_splits)

lemma channel_inv_peek:
  "channel_inv c \<Longrightarrow> ch_consumer c = C_idle \<Longrightarrow> qsize (ch_queue c) \<noteq> 0 \<Longrightarrow> channel_inv (c\<lparr>ch_consumer := C_peeked\<rparr>)"
  by (simp add: channel_defs qsize_def)

lemma channel_inv_copy:
  assumes inv: "channel_inv c" and pc: "ch_consumer c = C_peeked"
  shows "channel_inv (c\<lparr>ch_consumer := C_copied, ch_read := ch_read c @ [q_store (ch_queue c) ! next_read_index (ch_queue c)]\<rparr>)"
proof -
  let ?q = "ch_queue c" and ?r = "length (ch_read c)"
  have r: "retired c = ?r" using pc by (simp add: retired_def)
  have lt: "?r < length (ch_written c)" using inv pc r by (auto simp: channel_inv_def Let_def published_def split: if_splits)
  have "q_store ?q ! next_read_index ?q = ch_written c ! ?r" using inv pc r lt by (simp add: channel_inv_def Let_def)
  moreover have "ch_read c = take ?r (ch_written c)" using inv by (simp add: channel_inv_def Let_def)
  ultimately have "take (Suc ?r) (ch_written c) = ch_read c @ [q_store ?q ! next_read_index ?q]"
    using lt by (metis take_Suc_conv_app_nth)
  then show ?thesis using inv pc by (simp add: channel_defs)
qed

lemma channel_inv_advance_r:
  assumes "channel_inv c" and "ch_consumer c = C_copied"
  shows "channel_inv (c\<lparr>ch_queue := advance_read (ch_queue c), ch_consumer := C_advanced\<rparr>)"
  using assms by (simp add: channel_defs mod_Suc_eq)

lemma channel_inv_retire:
  assumes "channel_inv c" and "ch_consumer c = C_advanced" and "count_down (ch_queue c) = Inr q"
  shows "channel_inv (c\<lparr>ch_queue := q, ch_consumer := C_idle\<rparr>)"
proof -
  have q: "q = (ch_queue c)\<lparr>num_elements := num_elements (ch_queue c) - 1\<rparr>" "num_elements (ch_queue c) \<noteq> 0"
    using assms(3) by (auto simp: count_down_def split: if_splits)
  obtain m where "length (ch_read c) = Suc m"
    using assms(1,2) by (cases "ch_read c") (simp_all add: channel_inv_def Let_def)
  then show ?thesis
    using assms(1,2) q by (cases "ch_producer c = P_idle") (auto simp: channel_defs capacity_def)
qed

lemma channel_reach_inv: "channel_reach c \<Longrightarrow> channel_inv c"
proof (induction rule: channel_reach.induct)
  case (start n d)
  then show ?case by (rule channel_inv_start)
next
  case (step c c')
  from step.hyps(2) step.IH step.hyps(3) show ?case
    by (cases rule: channel_step.cases)
      (simp_all add: starts_on_full_def channel_inv_store channel_inv_producer channel_inv_peek channel_inv_copy channel_inv_advance_r channel_inv_retire)
qed

section \<open>Properties\<close>

text \<open>
  C26 The queue is safe for one producer and one consumer that interleave at every single memory access,
  in every run in which no write starts on a full queue, which the code itself does not prevent: what the consumer has read is
  always a prefix of what the producer has written, never reordered, lost or torn, and the assertion
  that guards the decrement of the counter never fires.
\<close>

theorem concurrent_queue_is_fifo:
  assumes "channel_reach c"
  shows "ch_read c = take (length (ch_read c)) (ch_written c) \<and> length (ch_read c) \<le> length (ch_written c) \<and>
    (ch_consumer c = C_advanced \<longrightarrow> (\<exists>q. count_down (ch_queue c) = Inr q)) \<and>
    (ch_producer c = P_idle \<and> ch_consumer c = C_idle \<longrightarrow>
       queue_inv (ch_queue c) \<and> ch_written c = ch_read c @ contents (ch_queue c))"
proof -
  have inv: "channel_inv c" using channel_reach_inv [OF assms] .
  have pre: "ch_read c = take (length (ch_read c)) (ch_written c)" using inv by (simp add: channel_inv_def Let_def)
  then have len: "length (ch_read c) \<le> length (ch_written c)" by (metis length_take min.cobounded1)
  have ok: "ch_consumer c = C_advanced \<longrightarrow> (\<exists>q. count_down (ch_queue c) = Inr q)"
    using inv by (auto simp: channel_inv_def Let_def count_down_def)
  have "queue_inv (ch_queue c) \<and> ch_written c = ch_read c @ contents (ch_queue c)"
    if "ch_producer c = P_idle" "ch_consumer c = C_idle"
  proof
    let ?q = "ch_queue c" and ?n = "capacity (ch_queue c)" and ?r = "length (ch_read c)"
    have i: "0 < ?n" "num_elements ?q + ?r = length (ch_written c)" "length (ch_written c) \<le> ?r + ?n"
      "next_write_index ?q = length (ch_written c) mod ?n" "next_read_index ?q = ?r mod ?n"
      "\<And>k. ?r \<le> k \<Longrightarrow> k < length (ch_written c) \<Longrightarrow> q_store ?q ! (k mod ?n) = ch_written c ! k"
      using inv that by (simp_all add: channel_defs)
    show "queue_inv ?q" using i(1-5) by (simp add: queue_inv_def mod_add_left_eq) (metis add.commute)
    have "contents ?q = drop ?r (ch_written c)"
      using i by (intro nth_equalityI) (simp_all add: contents_def mod_add_left_eq)
    then show "ch_written c = ch_read c @ contents ?q" using pre by (metis append_take_drop_id)
  qed
  then show ?thesis using pre len ok by blast
qed

theorem concurrent_queue_is_fifo_witness:
  "\<exists>c. channel_reach c \<and> ch_written c = [7, 8] \<and> ch_consumer c = C_peeked \<and> ch_read c = take (length (ch_read c)) [7, 8 :: nat]"
proof -
  let ?c0 = "mk_channel 2 (0 :: nat)"
  let ?w = "\<lambda>v c. c\<lparr>ch_queue := writeNext v (ch_queue c), ch_producer := P_stored, ch_written := ch_written c @ [v]\<rparr>"
  let ?a = "\<lambda>c. c\<lparr>ch_queue := advance_write (ch_queue c), ch_producer := P_advanced\<rparr>"
  let ?p = "\<lambda>c. c\<lparr>ch_queue := count_up (ch_queue c), ch_producer := P_idle\<rparr>"
  let ?k = "\<lambda>c. c\<lparr>ch_consumer := C_peeked\<rparr>"
  let ?c3 = "?p (?a (?w 7 ?c0))"
  have "channel_reach ?c0" by (rule channel_reach.start) simp
  then have "channel_reach (?w 7 ?c0)" by (rule channel_reach.step [OF _ channel_step.store]) (simp_all add: mk_channel_def has_room_def starts_on_full_def)
  then have "channel_reach (?a (?w 7 ?c0))" by (rule channel_reach.step [OF _ channel_step.advance_w]) (simp_all add: starts_on_full_def)
  then have "channel_reach ?c3" by (rule channel_reach.step [OF _ channel_step.publish]) (simp_all add: starts_on_full_def)
  then have "channel_reach (?w 8 ?c3)" by (rule channel_reach.step [OF _ channel_step.store]) (simp_all add: mk_channel_def has_room_def starts_on_full_def)
  then have "channel_reach (?k (?w 8 ?c3))" by (rule channel_reach.step [OF _ channel_step.peek]) (simp_all add: mk_channel_def qsize_def starts_on_full_def)
  then show ?thesis using concurrent_queue_is_fifo [of "?k (?w 8 ?c3)"] by (intro exI [of _ "?k (?w 8 ?c3)"]) (simp add: mk_channel_def)
qed

section \<open>Two producers\<close>

text \<open>
  The matching threads of all symbols log through one queue. Two producers whose accesses alternate both
  read the write index before either advances it.
\<close>

definition alternating_writes :: "'a \<Rightarrow> 'a \<Rightarrow> 'a LFQueue \<Rightarrow> 'a LFQueue" where
  "alternating_writes v w q = count_up (count_up (advance_write (advance_write (writeNext w (writeNext v q)))))"

lemma alternating_writes_push:
  assumes "queue_inv q"
  shows "alternating_writes v w q = push (q_store (push w q) ! next_write_index (push w q)) (push w q)"
proof -
  have "next_write_index q < length (q_store q)" using assms by (auto simp: queue_inv_def capacity_def)
  then show ?thesis
    by (cases q)
      (simp add: alternating_writes_def push_def count_up_def advance_write_def writeNext_def updateWriteIndex_def list_update_id)
qed

text \<open>
  C36 The queue is not safe for two producers: when the accesses of two writes alternate, the first value is
  lost and the reader gets, after the second value, whatever the next slot held before, although the
  queue has room for both.
\<close>

theorem two_producers_lose_a_value:
  assumes "queue_inv q" and "num_elements q + 2 \<le> capacity q"
  shows "contents (alternating_writes v w q) = contents q @ [w, q_store q ! ((next_write_index q + 1) mod capacity q)]"
proof -
  let ?i = "(next_write_index q + 1) mod capacity q"
  have wi: "next_write_index (push w q) = ?i" "q_store (push w q) = (q_store q)[next_write_index q := w]"
    by (simp_all add: push_def writeNext_def updateWriteIndex_def capacity_def)
  have "2 \<le> capacity q" "next_write_index q < capacity q" using assms by (auto simp: queue_inv_def)
  then have "?i \<noteq> next_write_index q" by (cases "next_write_index q + 1 = capacity q") auto
  then have "q_store (push w q) ! next_write_index (push w q) = q_store q ! ?i" by (simp add: wi)
  moreover have "contents (push x (push w q)) = contents q @ [w, x]" for x
    using assms by (simp add: contents_push queue_inv_push has_room_def)
  ultimately show ?thesis using assms(1) by (simp add: alternating_writes_push)
qed

theorem two_producers_lose_a_value_witness:
  "contents (alternating_writes 7 8 (new_LFQueue 3 (0 :: nat))) = [8, 0]"
proof -
  let ?q = "new_LFQueue 3 (0 :: nat)"
  have "q_store ?q ! ((next_write_index ?q + 1) mod capacity ?q) = 0" by (simp add: new_LFQueue_def capacity_def)
  then show ?thesis using two_producers_lose_a_value [of ?q 7 8] by simp
qed

end
