(* ===== verification/Logging.thy ===== *)
theory Logging
  imports Types LFQueue
begin

text \<open>
  The logger of Common/logging.h: formatting a line into a fixed buffer, handing it to the queue,
  and the background thread that appends the queued buffers to the file. The current time string,
  the source position and the expanded message are arguments.
\<close>

definition LOG_QUEUE_SIZE :: nat where "LOG_QUEUE_SIZE = 8 * 1024 * 1024 div 256"

definition LOG_LINE_MAX_LEN :: nat where "LOG_LINE_MAX_LEN = 256"

text \<open>A buffer is its text up to the terminating NUL; the log file is the text written so far.\<close>

type_synonym LogElement = string

record Logger =
  lg_file :: string
  lg_queue :: "LogElement LFQueue"

definition mk_logger :: "nat \<Rightarrow> Logger" where
  "mk_logger queue_size = \<lparr>lg_file = [], lg_queue = new_LFQueue queue_size []\<rparr>"

definition new_Logger :: Logger where
  "new_Logger = mk_logger LOG_QUEUE_SIZE"

text \<open>\<open>snprintf(buf, n, "%s", s)\<close>: the text of \<open>s\<close> up to its NUL, cut to \<open>n - 1\<close> characters.\<close>

definition snprintf_text :: "nat \<Rightarrow> string \<Rightarrow> string" where
  "snprintf_text n s = take (n - 1) (takeWhile (\<lambda>c. c \<noteq> CHR 0x00) s)"

definition pushLine :: "string \<Rightarrow> Logger \<Rightarrow> Logger" where
  "pushLine line lg = lg\<lparr>lg_queue := push (snprintf_text LOG_LINE_MAX_LEN line) (lg_queue lg)\<rparr>"

definition format_line :: "string \<Rightarrow> string \<Rightarrow> string \<Rightarrow> nat \<Rightarrow> string \<Rightarrow> string \<Rightarrow> string" where
  "format_line time level path line func msg =
     time @ '' ['' @ level @ ''] ['' @ path @ '':'' @ show_nat line @ '' '' @ func @ ''] '' @ msg @ [CHR 0x0A]"

definition LOG_LINE :: "string \<Rightarrow> string \<Rightarrow> string \<Rightarrow> nat \<Rightarrow> string \<Rightarrow> string \<Rightarrow> Logger \<Rightarrow> Logger" where
  "LOG_LINE time level path line func msg lg =
     pushLine (snprintf_text LOG_LINE_MAX_LEN (format_line time level path line func msg)) lg"

text \<open>One iteration of the background thread.\<close>

definition flush_once :: "Logger \<Rightarrow> Logger result" where
  "flush_once lg =
     rbind (drain (\<lambda>buffer out. out @ buffer) (lg_queue lg) (lg_file lg)) (\<lambda>(q, out).
     Inr \<lparr>lg_file = out, lg_queue = q\<rparr>)"

lemma snprintf_text_fits: "CHR 0x00 \<notin> set s \<Longrightarrow> snprintf_text n s = take (n - 1) s"
proof -
  assume "CHR 0x00 \<notin> set s"
  then have "takeWhile (\<lambda>c. c \<noteq> CHR 0x00) s = s" by (induction s) auto
  then show ?thesis unfolding snprintf_text_def by (rule arg_cong)
qed

text \<open>The second copy of a line cuts nothing more off than the first.\<close>

lemma LOG_LINE_pushLine: "LOG_LINE time level path line func msg = pushLine (format_line time level path line func msg)"
proof -
  have "CHR 0x00 \<notin> set (snprintf_text n s)" for n s
    by (auto simp: snprintf_text_def dest: in_set_takeD set_takeWhileD)
  then have "snprintf_text n (snprintf_text n s) = snprintf_text n s" for n s
    by (subst snprintf_text_fits) (simp_all add: snprintf_text_def)
  then show ?thesis by (simp add: LOG_LINE_def pushLine_def fun_eq_iff)
qed

lemma fold_pushLine:
  "fold pushLine lines lg = lg\<lparr>lg_queue := push_all (map (snprintf_text LOG_LINE_MAX_LEN) lines) (lg_queue lg)\<rparr>"
  by (induction lines arbitrary: lg) (simp_all add: pushLine_def)

lemma fold_append: "fold (\<lambda>buffer out. out @ buffer) bs out = out @ concat bs"
  by (induction bs arbitrary: out) simp_all

text \<open>
  The log keeps the order of its lines and cuts them: whatever is logged while the queue has room is
  appended to the file in order by the next pass of the background thread, each line complete when it
  has at most 255 characters, and otherwise its first 255 characters, without the line break at its end.
\<close>

lemma log_lines_are_written_in_order:
  assumes "queue_inv (lg_queue lg)" and "num_elements (lg_queue lg) + length lines \<le> capacity (lg_queue lg)"
    and "\<forall>l \<in> set lines. CHR 0x00 \<notin> set l"
  shows "\<exists>lg'. flush_once (fold pushLine lines lg) = Inr lg' \<and> contents (lg_queue lg') = [] \<and>
    lg_file lg' = lg_file lg @ concat (contents (lg_queue lg)) @ concat (map (take 255) lines)"
proof -
  have cut: "map (snprintf_text LOG_LINE_MAX_LEN) lines = map (take 255) lines"
    using assms(3) by (auto simp: snprintf_text_fits LOG_LINE_MAX_LEN_def)
  let ?q = "push_all (map (take 255) lines) (lg_queue lg)"
  have "queue_inv ?q" "contents ?q = contents (lg_queue lg) @ map (take 255) lines"
    using assms(1,2) by (simp_all add: push_all_inv push_all_contents)
  then obtain q' where "drain (\<lambda>buffer out. out @ buffer) ?q (lg_file lg) =
      Inr (q', lg_file lg @ concat (contents (lg_queue lg)) @ concat (map (take 255) lines))" "contents q' = []"
    using drain_contents_inv [of ?q "\<lambda>buffer out. out @ buffer" "lg_file lg"] by (auto simp: fold_append)
  then show ?thesis by (simp add: fold_pushLine cut flush_once_def)
qed

end
