(* ===== verification/LoggerLife.thy ===== *)
theory LoggerLife
  imports Logging
begin

text \<open>
  The life of a \<open>Logger\<close> of Common/logging.h: the thread that writes the queued lines, the owner that
  logs and finally runs the destructor, and the flag between them. The two threads interleave at every
  access to the queue, the file and the flag. Closing a logger always ends, and loses no line as long as the
  queue has room for every line when it is logged.
\<close>

section \<open>The two threads\<close>

text \<open>Where the writer is in \<open>flushQueue\<close>, and where the owner is: logging, or in the destructor.\<close>

datatype flusher_pc = F_test | F_read | F_write | F_retire | F_exited
datatype owner_pc = O_logging | O_waiting | O_clearing | O_joining | O_closed

record LoggerLife =
  ll_logger :: Logger
  ll_running :: bool
  ll_flusher :: flusher_pc
  ll_owner :: owner_pc
  ll_logged :: "string list"

definition mk_life :: "nat \<Rightarrow> LoggerLife" where
  "mk_life queue_size =
     \<lparr>ll_logger = mk_logger queue_size, ll_running = True, ll_flusher = F_test, ll_owner = O_logging, ll_logged = []\<rparr>"

text \<open>
  One access of the writer: it tests the flag, looks at the queue, writes the buffer at the read index
  to the file, or advances the read index. Flushing and sleeping change nothing.
\<close>

definition flusher_step :: "LoggerLife \<Rightarrow> LoggerLife result" where
  "flusher_step s =
     (let lg = ll_logger s; q = lg_queue lg in
      case ll_flusher s of
        F_test \<Rightarrow> Inr (s\<lparr>ll_flusher := if ll_running s then F_read else F_exited\<rparr>)
      | F_read \<Rightarrow> Inr (s\<lparr>ll_flusher := case getNextToRead q of None \<Rightarrow> F_test | Some next \<Rightarrow> F_write\<rparr>)
      | F_write \<Rightarrow>
          Inr (s\<lparr>ll_logger := lg\<lparr>lg_file := lg_file lg @ q_store q ! next_read_index q\<rparr>, ll_flusher := F_retire\<rparr>)
      | F_retire \<Rightarrow> rbind (updateReadIndex q) (\<lambda>q. Inr (s\<lparr>ll_logger := lg\<lparr>lg_queue := q\<rparr>, ll_flusher := F_read\<rparr>))
      | F_exited \<Rightarrow> Inr s)"

text \<open>One access of the destructor: wait for the empty queue, clear the flag, join the writer.\<close>

definition destructor_step :: "LoggerLife \<Rightarrow> LoggerLife" where
  "destructor_step s =
     (case ll_owner s of
        O_logging \<Rightarrow> s
      | O_waiting \<Rightarrow> if qsize (lg_queue (ll_logger s)) \<noteq> 0 then s else s\<lparr>ll_owner := O_clearing\<rparr>
      | O_clearing \<Rightarrow> s\<lparr>ll_running := False, ll_owner := O_joining\<rparr>
      | O_joining \<Rightarrow> if ll_flusher s = F_exited then s\<lparr>ll_owner := O_closed\<rparr> else s
      | O_closed \<Rightarrow> s)"

definition log_step :: "string \<Rightarrow> LoggerLife \<Rightarrow> LoggerLife" where
  "log_step line s = s\<lparr>ll_logger := pushLine line (ll_logger s), ll_logged := ll_logged s @ [line]\<rparr>"

text \<open>
  One thread owns the logger: it logs, whatever the state of the queue, then destroys the logger. The
  runs considered are those in which no line is logged while the queue is full; \<open>pushLine\<close> does not check
  this, and a line pushed onto a full queue replaces the oldest one (\<open>LFQueue\<close>). Loggers that several
  threads write to are the subject of \<open>QueueConcurrency\<close>.
\<close>

inductive life_step :: "LoggerLife \<Rightarrow> LoggerLife \<Rightarrow> bool" where
  log: "ll_owner s = O_logging \<Longrightarrow> life_step s (log_step line s)"
| destroy: "ll_owner s = O_logging \<Longrightarrow> life_step s (s\<lparr>ll_owner := O_waiting\<rparr>)"
| owner: "life_step s (destructor_step s)"
| flusher: "flusher_step s = Inr s' \<Longrightarrow> life_step s s'"

definition logs_on_full :: "LoggerLife \<Rightarrow> LoggerLife \<Rightarrow> bool" where
  "logs_on_full s s' \<longleftrightarrow> ll_logged s' \<noteq> ll_logged s \<and> \<not> has_room (lg_queue (ll_logger s))"

inductive life_reach :: "LoggerLife \<Rightarrow> bool" where
  start: "0 < n \<Longrightarrow> life_reach (mk_life n)"
| step: "life_reach s \<Longrightarrow> life_step s s' \<Longrightarrow> \<not> logs_on_full s s' \<Longrightarrow> life_reach s'"

section \<open>The invariant\<close>

text \<open>
  The lines that are not in the file yet: a line that is written but still counted is the head of the
  queue. The flags and positions of the two threads agree with each other.
\<close>

abbreviation queued :: "LoggerLife \<Rightarrow> LogElement list" where
  "queued s \<equiv> contents (lg_queue (ll_logger s))"

definition pending :: "LoggerLife \<Rightarrow> LogElement list" where
  "pending s = (if ll_flusher s = F_retire then tl (queued s) else queued s)"

definition lines_inv :: "LoggerLife \<Rightarrow> bool" where
  "lines_inv s \<longleftrightarrow>
     queue_inv (lg_queue (ll_logger s)) \<and>
     lg_file (ll_logger s) @ concat (pending s) = concat (map (snprintf_text LOG_LINE_MAX_LEN) (ll_logged s)) \<and>
     (ll_flusher s = F_write \<or> ll_flusher s = F_retire \<longrightarrow> queued s \<noteq> [])"

definition control_inv :: "LoggerLife \<Rightarrow> bool" where
  "control_inv s \<longleftrightarrow>
     (ll_running s \<longleftrightarrow> ll_owner s \<in> {O_logging, O_waiting, O_clearing}) \<and>
     (ll_owner s \<in> {O_clearing, O_joining, O_closed} \<longrightarrow> queued s = []) \<and>
     (ll_flusher s = F_exited \<longrightarrow> \<not> ll_running s) \<and> (ll_owner s = O_closed \<longrightarrow> ll_flusher s = F_exited)"

definition life_inv :: "LoggerLife \<Rightarrow> bool" where
  "life_inv s \<longleftrightarrow> lines_inv s \<and> control_inv s"

lemma hd_contents: "queue_inv q \<Longrightarrow> contents q \<noteq> [] \<Longrightarrow> hd (contents q) = q_store q ! next_read_index q"
  using contents_Cons [of q] contents_empty [of q] by (metis list.sel(1) queue_inv_read_inv)

lemma flusher_step_simps:
  "ll_flusher s = F_test \<Longrightarrow> flusher_step s = Inr (s\<lparr>ll_flusher := if ll_running s then F_read else F_exited\<rparr>)"
  "ll_flusher s = F_read \<Longrightarrow> queue_inv (lg_queue (ll_logger s)) \<Longrightarrow>
     flusher_step s = Inr (s\<lparr>ll_flusher := if queued s = [] then F_test else F_write\<rparr>)"
  "ll_flusher s = F_write \<Longrightarrow> queue_inv (lg_queue (ll_logger s)) \<Longrightarrow> queued s \<noteq> [] \<Longrightarrow>
     flusher_step s = Inr (s\<lparr>ll_logger := (ll_logger s)\<lparr>lg_file := lg_file (ll_logger s) @ hd (queued s)\<rparr>, ll_flusher := F_retire\<rparr>)"
  "ll_flusher s = F_exited \<Longrightarrow> flusher_step s = Inr s"
  by (simp_all add: flusher_step_def Let_def getNextToRead_contents queue_inv_read_inv hd_contents split: list.splits)

lemma flusher_step_retire:
  assumes "ll_flusher s = F_retire" and "queue_inv (lg_queue (ll_logger s))" and "queued s \<noteq> []"
  obtains q where "flusher_step s = Inr (s\<lparr>ll_logger := (ll_logger s)\<lparr>lg_queue := q\<rparr>, ll_flusher := F_read\<rparr>)"
    and "queue_inv q" and "contents q = tl (queued s)"
proof -
  obtain q where "updateReadIndex (lg_queue (ll_logger s)) = Inr q" "contents q = tl (queued s)"
    using updateReadIndex_contents [OF queue_inv_read_inv [OF assms(2)]] assms(3) by (metis list.exhaust_sel)
  then show ?thesis
    using that [of q] assms(1) updateReadIndex_inv [OF assms(2)] by (simp add: flusher_step_def)
qed

lemma flusher_step_inv:
  assumes "life_inv s"
  obtains s' where "flusher_step s = Inr s'" and "life_inv s'" and "ll_owner s' = ll_owner s" and "ll_logged s' = ll_logged s"
proof (cases "ll_flusher s")
  case F_test
  then show ?thesis
    using assms
    by (intro that [of "s\<lparr>ll_flusher := if ll_running s then F_read else F_exited\<rparr>"])
      (simp_all add: flusher_step_simps life_inv_def lines_inv_def control_inv_def pending_def)
next
  case F_read
  then show ?thesis
    using assms
    by (intro that [of "s\<lparr>ll_flusher := if queued s = [] then F_test else F_write\<rparr>"])
      (auto simp: flusher_step_simps life_inv_def lines_inv_def control_inv_def pending_def)
next
  case F_write
  have ne: "queued s \<noteq> []" and out: "lg_file (ll_logger s) @ concat (queued s) = concat (map (snprintf_text LOG_LINE_MAX_LEN) (ll_logged s))"
    using assms F_write by (simp_all add: life_inv_def lines_inv_def pending_def)
  have "lg_file (ll_logger s) @ hd (queued s) @ concat (tl (queued s)) = concat (map (snprintf_text LOG_LINE_MAX_LEN) (ll_logged s))"
    using ne out by (metis concat.simps(2) list.collapse)
  then show ?thesis
    using assms F_write ne
    by (intro that [of "s\<lparr>ll_logger := (ll_logger s)\<lparr>lg_file := lg_file (ll_logger s) @ hd (queued s)\<rparr>, ll_flusher := F_retire\<rparr>"])
      (simp_all add: flusher_step_simps life_inv_def lines_inv_def control_inv_def pending_def)
next
  case F_retire
  then obtain q where q: "flusher_step s = Inr (s\<lparr>ll_logger := (ll_logger s)\<lparr>lg_queue := q\<rparr>, ll_flusher := F_read\<rparr>)"
    "queue_inv q" "contents q = tl (queued s)"
    using assms flusher_step_retire [of s] by (auto simp: life_inv_def lines_inv_def)
  show ?thesis
    using assms F_retire q(2,3)
    by (intro that [OF q(1)]) (simp_all add: life_inv_def lines_inv_def control_inv_def pending_def)
next
  case F_exited
  then show ?thesis using assms that [of s] by (simp add: flusher_step_simps)
qed

lemma destructor_step_inv: "life_inv s \<Longrightarrow> life_inv (destructor_step s)"
  by (cases "ll_owner s")
    (auto simp: destructor_step_def life_inv_def lines_inv_def control_inv_def pending_def qsize_def contents_empty)

lemma log_step_inv:
  assumes inv: "life_inv s" and own: "ll_owner s = O_logging" and room: "has_room (lg_queue (ll_logger s))"
  shows "life_inv (log_step line s)"
proof -
  let ?v = "snprintf_text LOG_LINE_MAX_LEN line"
  have q: "queue_inv (push ?v (lg_queue (ll_logger s)))" "contents (push ?v (lg_queue (ll_logger s))) = queued s @ [?v]"
    using inv room by (simp_all add: life_inv_def lines_inv_def queue_inv_push contents_push)
  have "pending (log_step line s) = pending s @ [?v]"
    using q(2) inv by (simp add: pending_def log_step_def pushLine_def life_inv_def lines_inv_def)
  then have "lines_inv (log_step line s)"
    using inv q by (simp add: life_inv_def lines_inv_def log_step_def pushLine_def)
  moreover have "control_inv (log_step line s)" using inv own by (auto simp: life_inv_def control_inv_def log_step_def)
  ultimately show ?thesis by (simp add: life_inv_def)
qed

lemma life_reach_inv: "life_reach s \<Longrightarrow> life_inv s"
proof (induction rule: life_reach.induct)
  case (start n)
  then show ?case by (simp add: life_inv_def lines_inv_def control_inv_def mk_life_def mk_logger_def pending_def)
next
  case (step s s')
  from step.hyps(2) show ?case
  proof (cases rule: life_step.cases)
    case (log line)
    then have "has_room (lg_queue (ll_logger s))" using step.hyps(3) by (simp add: logs_on_full_def log_step_def)
    then show ?thesis using log step.IH log_step_inv by simp
  next
    case destroy
    then show ?thesis using step.IH unfolding life_inv_def lines_inv_def control_inv_def pending_def by auto
  next
    case owner
    then show ?thesis using step.IH destructor_step_inv by simp
  next
    case flusher
    obtain t where "flusher_step s = Inr t" "life_inv t" using flusher_step_inv [OF step.IH] by metis
    then show ?thesis using flusher by simp
  qed
qed

section \<open>Closing ends\<close>

text \<open>
  A schedule is a list of turns of the two threads. Once the destructor runs, the remaining work is at
  most three accesses for every queued line and a few more to leave the loops; a turn of the thread whose
  progress is needed lowers it, and no turn raises it.
\<close>

datatype turn = Flusher_turn | Owner_turn

fun take_turn :: "turn \<Rightarrow> LoggerLife \<Rightarrow> LoggerLife result" where
  "take_turn Flusher_turn s = flusher_step s"
| "take_turn Owner_turn s = Inr (destructor_step s)"

fun take_turns :: "turn list \<Rightarrow> LoggerLife \<Rightarrow> LoggerLife result" where
  "take_turns [] s = Inr s"
| "take_turns (t # ts) s = rbind (take_turn t s) (take_turns ts)"

lemma take_turns_append: "take_turns (ts @ us) s = rbind (take_turns ts s) (take_turns us)"
  by (induction ts arbitrary: s) (simp_all add: rbind_assoc, metis)

fun position :: "flusher_pc \<Rightarrow> nat" where
  "position F_test = 4" | "position F_read = 3" | "position F_write = 2" | "position F_retire = 1" | "position F_exited = 0"

definition closing_work :: "LoggerLife \<Rightarrow> nat" where
  "closing_work s =
     (let n = num_elements (lg_queue (ll_logger s)) in
      case ll_owner s of
        O_logging \<Rightarrow> 0
      | O_waiting \<Rightarrow> if n = 0 then 5 else 5 + 3 * n + position (ll_flusher s)
      | O_clearing \<Rightarrow> 4
      | O_joining \<Rightarrow> (case ll_flusher s of F_test \<Rightarrow> 2 | F_exited \<Rightarrow> 1 | _ \<Rightarrow> 3)
      | O_closed \<Rightarrow> 0)"

definition needed_turn :: "LoggerLife \<Rightarrow> turn" where
  "needed_turn s =
     (if ll_owner s = O_waiting \<and> num_elements (lg_queue (ll_logger s)) \<noteq> 0 \<or> ll_owner s = O_joining \<and> ll_flusher s \<noteq> F_exited
      then Flusher_turn else Owner_turn)"

definition closing :: "LoggerLife \<Rightarrow> bool" where
  "closing s \<longleftrightarrow> life_inv s \<and> ll_owner s \<noteq> O_logging"

lemma destructor_turn:
  assumes "closing s"
  shows "closing_work (destructor_step s) \<le> closing_work s"
    and "ll_owner s \<noteq> O_closed \<Longrightarrow> needed_turn s = Owner_turn \<Longrightarrow> closing_work (destructor_step s) < closing_work s"
    and "needed_turn s = Flusher_turn \<Longrightarrow> destructor_step s = s"
  using assms
  by (cases "ll_owner s"; cases "ll_flusher s";
      simp add: closing_def closing_work_def destructor_step_def needed_turn_def qsize_def Let_def split: if_splits)+

lemma flusher_turn:
  assumes "closing s" and st: "flusher_step s = Inr s'"
  shows "closing_work s' \<le> closing_work s \<and>
    (needed_turn s = Flusher_turn \<longrightarrow> closing_work s' < closing_work s) \<and>
    (needed_turn s = Owner_turn \<longrightarrow> needed_turn s' = Owner_turn)"
proof -
  have q: "queue_inv (lg_queue (ll_logger s))" and own: "ll_owner s \<noteq> O_logging"
    and ne: "ll_flusher s = F_write \<or> ll_flusher s = F_retire \<Longrightarrow> queued s \<noteq> []"
    and run: "ll_running s \<longleftrightarrow> ll_owner s = O_waiting \<or> ll_owner s = O_clearing"
    and emp: "ll_owner s \<in> {O_clearing, O_joining, O_closed} \<Longrightarrow> queued s = []"
    and ex: "ll_flusher s = F_exited \<Longrightarrow> ll_owner s \<noteq> O_waiting \<and> ll_owner s \<noteq> O_clearing"
    and cl: "ll_owner s = O_closed \<Longrightarrow> ll_flusher s = F_exited"
    using assms(1) by (auto simp: closing_def life_inv_def lines_inv_def control_inv_def)
  note work = closing_work_def needed_turn_def Let_def contents_empty
  show ?thesis
  proof (cases "ll_flusher s")
    case F_test
    then show ?thesis
      using st own run emp cl by (cases "ll_owner s") (auto simp: flusher_step_simps work)
  next
    case F_read
    then show ?thesis
      using st q own emp cl by (cases "ll_owner s") (auto simp: flusher_step_simps work)
  next
    case F_write
    then show ?thesis
      using st q own ne emp by (cases "ll_owner s") (auto simp: flusher_step_simps work)
  next
    case F_retire
    then obtain q' where "s' = s\<lparr>ll_logger := (ll_logger s)\<lparr>lg_queue := q'\<rparr>, ll_flusher := F_read\<rparr>" "contents q' = tl (queued s)"
      using flusher_step_retire [OF F_retire q] ne st by (metis Inr_inject)
    moreover from this have "num_elements q' = num_elements (lg_queue (ll_logger s)) - 1"
      by (metis length_contents length_tl)
    ultimately show ?thesis
      using F_retire own ne emp by (cases "ll_owner s") (auto simp: work)
  next
    case F_exited
    then show ?thesis using st ex own by (cases "ll_owner s") (auto simp: flusher_step_simps work)
  qed
qed

lemma closing_turn:
  assumes "closing s"
  obtains s' where "take_turn t s = Inr s'" and "closing s'" and "ll_logged s' = ll_logged s"
    and "closing_work s' \<le> closing_work s"
    and "ll_owner s \<noteq> O_closed \<Longrightarrow> t = needed_turn s \<Longrightarrow> closing_work s' < closing_work s"
    and "t \<noteq> needed_turn s \<Longrightarrow> needed_turn s' = needed_turn s"
proof (cases t)
  case Flusher_turn
  obtain s' where s': "flusher_step s = Inr s'" "life_inv s'" "ll_owner s' = ll_owner s" "ll_logged s' = ll_logged s"
    using flusher_step_inv assms by (auto simp: closing_def)
  then show ?thesis
    using flusher_turn [OF assms s'(1)] assms Flusher_turn
    by (cases "needed_turn s"; intro that [of s']) (simp_all add: closing_def)
next
  case Owner_turn
  have "closing (destructor_step s)"
    using assms destructor_step_inv [of s] by (cases "ll_owner s") (auto simp: closing_def destructor_step_def)
  moreover have "ll_logged (destructor_step s) = ll_logged s"
    by (cases "ll_owner s") (simp_all add: destructor_step_def)
  ultimately show ?thesis
    using destructor_turn [OF assms] Owner_turn
    by (cases "needed_turn s"; intro that [of "destructor_step s"]) simp_all
qed

text \<open>A stretch of a schedule in which both threads have a turn lowers the work.\<close>

lemma closing_turns:
  assumes "closing s"
  obtains s' where "take_turns ts s = Inr s'" and "closing s'" and "ll_logged s' = ll_logged s"
    and "closing_work s' \<le> closing_work s"
    and "ll_owner s \<noteq> O_closed \<Longrightarrow> needed_turn s \<in> set ts \<Longrightarrow> closing_work s' < closing_work s"
  using assms
proof (induction ts arbitrary: s thesis)
  case (Cons t ts)
  obtain s1 where s1: "take_turn t s = Inr s1" "closing s1" "ll_logged s1 = ll_logged s"
    "closing_work s1 \<le> closing_work s" "ll_owner s \<noteq> O_closed \<Longrightarrow> t = needed_turn s \<Longrightarrow> closing_work s1 < closing_work s"
    "t \<noteq> needed_turn s \<Longrightarrow> needed_turn s1 = needed_turn s"
    using closing_turn [OF Cons.prems(2)] by metis
  obtain s2 where s2: "take_turns ts s1 = Inr s2" "closing s2" "ll_logged s2 = ll_logged s1"
    "closing_work s2 \<le> closing_work s1" "ll_owner s1 \<noteq> O_closed \<Longrightarrow> needed_turn s1 \<in> set ts \<Longrightarrow> closing_work s2 < closing_work s1"
    using Cons.IH [OF _ s1(2)] by metis
  have pos: "0 < closing_work s" if "ll_owner s \<noteq> O_closed"
    using that Cons.prems(2) by (cases "ll_owner s") (auto simp: closing_def closing_work_def Let_def split: flusher_pc.splits)
  have zero: "closing_work s1 = 0" if "ll_owner s1 = O_closed" using that by (simp add: closing_work_def)
  have "closing_work s2 < closing_work s" if "ll_owner s \<noteq> O_closed" "needed_turn s \<in> set (t # ts)"
    using that s1(4-6) s2(4,5) pos zero by (cases "t = needed_turn s"; cases "ll_owner s1 = O_closed") auto
  then show ?case using s1(1,3,4) s2(1-4) by (intro Cons.prems(1) [of s2]) simp_all
qed simp

section \<open>Properties\<close>

lemma closed_work: "closing s \<Longrightarrow> closing_work s = 0 \<longleftrightarrow> ll_owner s = O_closed"
  by (cases "ll_owner s") (auto simp: closing_def closing_work_def Let_def split: flusher_pc.splits)

lemma closing_rounds:
  assumes "closing s" and "\<forall>round \<in> set rounds. {Flusher_turn, Owner_turn} \<subseteq> set round" and "closing_work s \<le> length rounds"
  shows "\<exists>s'. take_turns (concat rounds) s = Inr s' \<and> closing s' \<and> ll_logged s' = ll_logged s \<and> ll_owner s' = O_closed"
  using assms
proof (induction rounds arbitrary: s)
  case Nil
  then show ?case using closed_work [of s] by simp
next
  case (Cons round rounds)
  obtain s1 where s1: "take_turns round s = Inr s1" "closing s1" "ll_logged s1 = ll_logged s" "closing_work s1 \<le> closing_work s"
    "ll_owner s \<noteq> O_closed \<Longrightarrow> needed_turn s \<in> set round \<Longrightarrow> closing_work s1 < closing_work s"
    using closing_turns [OF Cons.prems(1)] by metis
  have "needed_turn s \<in> set round" using Cons.prems(2) by (cases "needed_turn s") auto
  then have "closing_work s1 \<le> length rounds"
    using s1(4,5) Cons.prems(3) closed_work [OF Cons.prems(1)] by (cases "ll_owner s = O_closed") auto
  then show ?case using Cons.IH [OF s1(2)] Cons.prems(2) s1(1,3) by (auto simp: take_turns_append)
qed

text \<open>
  C29 Closing a logger ends and loses nothing that its queue had room for: in a run in which one thread logs
  and never logs onto a full queue, which the code does not prevent, from every state in which the
  destructor has begun, in every schedule that consists of at least three rounds for each queued line and
  nine more, each with a turn of both threads, no assertion fires, the destructor returns, and the file then
  holds every line that was logged, in order and cut to 255 characters.
\<close>

theorem closing_logger_writes_every_line:
  assumes "life_reach s" and "ll_owner s \<noteq> O_logging"
    and "\<forall>round \<in> set rounds. {Flusher_turn, Owner_turn} \<subseteq> set round"
    and "3 * num_elements (lg_queue (ll_logger s)) + 9 \<le> length rounds"
  shows "\<exists>s'. take_turns (concat rounds) s = Inr s' \<and> ll_owner s' = O_closed \<and> ll_flusher s' = F_exited \<and>
    lg_file (ll_logger s') = concat (map (snprintf_text LOG_LINE_MAX_LEN) (ll_logged s))"
proof -
  have cl: "closing s" using life_reach_inv [OF assms(1)] assms(2) by (simp add: closing_def)
  have "position (ll_flusher s) \<le> 4" by (cases "ll_flusher s") simp_all
  then have "closing_work s \<le> length rounds"
    using assms(4) by (cases "ll_owner s") (auto simp: closing_work_def Let_def split: flusher_pc.splits)
  then obtain s' where s': "take_turns (concat rounds) s = Inr s'" "closing s'" "ll_logged s' = ll_logged s" "ll_owner s' = O_closed"
    using closing_rounds [OF cl assms(3)] by blast
  then have "queued s' = []" "ll_flusher s' = F_exited" "lines_inv s'" by (simp_all add: closing_def life_inv_def control_inv_def)
  then show ?thesis using s' by (simp add: lines_inv_def pending_def)
qed

theorem closing_logger_writes_every_line_witness:
  "\<exists>s'. take_turns (concat (replicate 15 [Owner_turn, Flusher_turn]))
       ((log_step ''b'' (log_step ''a'' (mk_life 2)))\<lparr>ll_owner := O_waiting\<rparr>) = Inr s' \<and>
     ll_owner s' = O_closed \<and> lg_file (ll_logger s') = ''ab''"
proof -
  let ?s = "(log_step ''b'' (log_step ''a'' (mk_life 2)))\<lparr>ll_owner := O_waiting\<rparr>"
  have "has_room (lg_queue (ll_logger (mk_life 2)))" "has_room (lg_queue (ll_logger (log_step ''a'' (mk_life 2))))"
    by code_simp+
  then have "life_reach (log_step ''b'' (log_step ''a'' (mk_life 2)))"
    by (intro life_reach.step [OF life_reach.step [OF life_reach.start life_step.log] life_step.log])
      (simp_all add: log_step_def mk_life_def logs_on_full_def)
  then have "life_reach ?s"
    by (rule life_reach.step [OF _ life_step.destroy]) (simp_all add: log_step_def mk_life_def logs_on_full_def)
  moreover have "num_elements (lg_queue (ll_logger ?s)) = 2" "concat (map (snprintf_text LOG_LINE_MAX_LEN) (ll_logged ?s)) = ''ab''"
    by code_simp+
  ultimately show ?thesis
    using closing_logger_writes_every_line [of ?s "replicate 15 [Owner_turn, Flusher_turn]"]
    by (simp del: take_turns.simps) blast
qed

end
