(* ===== verification/StaleBook.thy ===== *)
theory StaleBook
  imports MarketData
begin

text \<open>
  market_data/order_book.cpp, an older copy of matcher/order_book.cpp that the build leaves out. It differs
  in two ways: a resting order is built from six arguments, with a constructor that book_order.h no
  longer has, and a resting order that is filled completely leaves the book without a removal notice on
  the update queue. The constructor is a parameter of the definitions that call it, and nothing is assumed
  about it. The theory compares each method with the current one on the books of the running program, and
  shows what the missing notices do to the snapshots.

  The methods \<open>sendResponse\<close> and \<open>sendBookUpdate\<close>, the lookup of a level and the operations on its list have
  the same text in both files and are shared with \<open>OrderBook\<close>.
\<close>

section \<open>The older methods\<close>

type_synonym order_constructor = "OrderId \<Rightarrow> ClientId \<Rightarrow> Side \<Rightarrow> Price \<Rightarrow> Qty \<Rightarrow> Nanos \<Rightarrow> BookOrder"

definition stale_restOrder ::
  "order_constructor \<Rightarrow> ClientId \<Rightarrow> OrderId \<Rightarrow> Side \<Rightarrow> Price \<Rightarrow> Qty \<Rightarrow> Nanos \<Rightarrow> SymbolOrderBook \<Rightarrow> SymbolOrderBook result" where
  "stale_restOrder new_order cid oid sd price qty ts b =
     rbind (allocate (new_order oid cid sd price qty ts) (bk_order_pool b)) (\<lambda>(order, op).
     rbind (find_or_create_level (sd = BUY) price (b\<lparr>bk_order_pool := op\<rparr>)) (\<lambda>(level, b).
     rbind (append_tail level order b) (\<lambda>b.
     Inr (b\<lparr>bk_order_index := (bk_order_index b)(oid \<mapsto> order)\<rparr>))))"

definition stale_removeOrder :: "nat \<Rightarrow> SymbolOrderBook \<Rightarrow> SymbolOrderBook result" where
  "stale_removeOrder order b =
     rbind (read_order order b) (\<lambda>ord.
     let bid = (bo_side ord = BUY); price = bo_price ord in
     case smap_find price (levels bid b) of
       None \<Rightarrow> Inr b
     | Some level \<Rightarrow>
         rbind (unlink level order b) (\<lambda>b.
         rbind (drop_level_if_empty bid price level b) (\<lambda>b.
         rbind (read_order order b) (\<lambda>ord.
         rbind (deallocate order (bk_order_pool b)) (\<lambda>op.
         Inr (b\<lparr>bk_order_index := (bk_order_index b)(bo_order_id ord := None), bk_order_pool := op\<rparr>))))))"

definition stale_fill_node ::
  "ClientId \<Rightarrow> OrderId \<Rightarrow> Side \<Rightarrow> Price \<Rightarrow> nat \<Rightarrow> Qty \<Rightarrow> SymbolOrderBook \<Rightarrow> (Qty \<times> SymbolOrderBook) result"
where
  "stale_fill_node cid oid sd level_price node leaves b =
     rbind (read_order node b) (\<lambda>n.
     let fill_qty = min leaves (bo_qty n); leaves = leaves - fill_qty in
     rbind (write_order node (\<lambda>ord. ord\<lparr>bo_qty := bo_qty ord - fill_qty\<rparr>) b) (\<lambda>b.
     rbind (read_order node b) (\<lambda>n.
     let b = sendResponse (mk_response FILLED cid (bk_symbol b) oid oid sd level_price fill_qty leaves) b;
         b = sendResponse (mk_response FILLED (bo_client_id n) (bk_symbol b) (bo_order_id n) (bo_order_id n)
                             (bo_side n) level_price fill_qty (bo_qty n)) b;
         b = sendBookUpdate MU_TRADE (bo_order_id n) (bo_side n) level_price fill_qty b in
     if bo_qty n = 0 then rbind (stale_removeOrder node b) (\<lambda>b. Inr (leaves, b))
     else Inr (leaves, sendBookUpdate MU_MODIFY (bo_order_id n) (bo_side n) level_price (bo_qty n) b))))"

fun stale_match_level ::
  "ClientId \<Rightarrow> OrderId \<Rightarrow> Side \<Rightarrow> Price \<Rightarrow> nat \<Rightarrow> nat option \<Rightarrow> Qty \<Rightarrow> SymbolOrderBook
     \<Rightarrow> (Qty \<times> SymbolOrderBook) result"
where
  "stale_match_level cid oid sd level_price fuel None leaves b = Inr (leaves, b)"
| "stale_match_level cid oid sd level_price 0 (Some node) leaves b = Inl OutOfFuel"
| "stale_match_level cid oid sd level_price (Suc fuel) (Some node) leaves b =
     rbind (read_order node b) (\<lambda>n.
     rbind (if bo_client_id n \<noteq> cid \<and> 0 < leaves then stale_fill_node cid oid sd level_price node leaves b
            else Inr (leaves, b)) (\<lambda>(leaves, b).
     stale_match_level cid oid sd level_price fuel (bo_next n) leaves b))"

fun stale_match_levels ::
  "ClientId \<Rightarrow> OrderId \<Rightarrow> Side \<Rightarrow> Price \<Rightarrow> bool \<Rightarrow> nat \<Rightarrow> (Price \<times> nat) option \<Rightarrow> Qty \<Rightarrow> SymbolOrderBook
     \<Rightarrow> (Qty \<times> SymbolOrderBook) result"
where
  "stale_match_levels cid oid sd limit_price has_limit_price fuel None leaves b = Inr (leaves, b)"
| "stale_match_levels cid oid sd limit_price has_limit_price 0 (Some it) leaves b = Inl OutOfFuel"
| "stale_match_levels cid oid sd limit_price has_limit_price (Suc fuel) (Some (level_price, level)) leaves b =
     (if \<not> 0 < leaves then Inr (leaves, b)
      else if has_limit_price \<and> (if sd = BUY then limit_price < level_price else limit_price > level_price) then Inr (leaves, b)
      else
        rbind (read_level level b) (\<lambda>v.
        rbind (stale_match_level cid oid sd level_price (pool_size (bk_order_pool b)) (lv_head v) leaves b)
          (\<lambda>(leaves, b).
        stale_match_levels cid oid sd limit_price has_limit_price fuel
          (smap_upper_bound (price_before (sd \<noteq> BUY)) level_price (levels (sd \<noteq> BUY) b)) leaves b)))"

definition stale_matchIncoming ::
  "ClientId \<Rightarrow> OrderId \<Rightarrow> Side \<Rightarrow> Price \<Rightarrow> bool \<Rightarrow> Qty \<Rightarrow> SymbolOrderBook \<Rightarrow> (Qty \<times> SymbolOrderBook) result"
where
  "stale_matchIncoming cid oid sd limit_price has_limit_price leaves b =
     stale_match_levels cid oid sd limit_price has_limit_price (length (levels (sd \<noteq> BUY) b))
       (smap_begin (levels (sd \<noteq> BUY) b)) leaves b"

definition stale_addLimitOrder ::
  "order_constructor \<Rightarrow> Nanos \<Rightarrow> ClientId \<Rightarrow> OrderId \<Rightarrow> Side \<Rightarrow> Price \<Rightarrow> Qty \<Rightarrow> SymbolOrderBook \<Rightarrow> SymbolOrderBook result" where
  "stale_addLimitOrder new_order now cid oid sd price qty b =
     (if bk_order_index b oid \<noteq> None then
        Inr (sendResponse (mk_response REJECTED cid (bk_symbol b) oid Invalid_OrderId sd price 0 qty) b)
      else
        let b = sendResponse (mk_response ACCEPTED cid (bk_symbol b) oid oid sd price 0 qty) b in
        rbind (stale_matchIncoming cid oid sd price True qty b) (\<lambda>(leaves, b).
        if 0 < leaves then
          rbind (stale_restOrder new_order cid oid sd price leaves now b) (\<lambda>b.
          Inr (sendBookUpdate MU_ADD oid sd price leaves b))
        else Inr b))"

definition stale_addMarketOrder ::
  "ClientId \<Rightarrow> OrderId \<Rightarrow> Side \<Rightarrow> Qty \<Rightarrow> SymbolOrderBook \<Rightarrow> SymbolOrderBook result" where
  "stale_addMarketOrder cid oid sd qty b =
     (if bk_order_index b oid \<noteq> None then
        Inr (sendResponse (mk_response REJECTED cid (bk_symbol b) oid Invalid_OrderId sd Invalid_Price 0 qty) b)
      else
        let b = sendResponse (mk_response ACCEPTED cid (bk_symbol b) oid oid sd Invalid_Price 0 qty) b in
        rbind (stale_matchIncoming cid oid sd Invalid_Price False qty b) (\<lambda>(leaves, b).
        if 0 < leaves then
          Inr (sendResponse (mk_response CANCELED cid (bk_symbol b) oid oid sd Invalid_Price (qty - leaves) leaves) b)
        else Inr b))"

definition stale_addIOCOrder ::
  "ClientId \<Rightarrow> OrderId \<Rightarrow> Side \<Rightarrow> Price \<Rightarrow> Qty \<Rightarrow> SymbolOrderBook \<Rightarrow> SymbolOrderBook result" where
  "stale_addIOCOrder cid oid sd price qty b =
     (if bk_order_index b oid \<noteq> None then
        Inr (sendResponse (mk_response REJECTED cid (bk_symbol b) oid Invalid_OrderId sd price 0 qty) b)
      else
        let b = sendResponse (mk_response ACCEPTED cid (bk_symbol b) oid oid sd price 0 qty) b in
        rbind (stale_matchIncoming cid oid sd price True qty b) (\<lambda>(leaves, b).
        if 0 < leaves then
          Inr (sendResponse (mk_response CANCELED cid (bk_symbol b) oid oid sd price (qty - leaves) leaves) b)
        else Inr b))"

definition stale_cancelOrder :: "ClientId \<Rightarrow> OrderId \<Rightarrow> SymbolOrderBook \<Rightarrow> SymbolOrderBook result" where
  "stale_cancelOrder cid oid b =
     rbind (find_own cid oid b) (\<lambda>r.
     case r of
       None \<Rightarrow> Inr (cancel_reject CANCEL_REJECTED cid oid b)
     | Some (order, ord) \<Rightarrow>
         rbind (stale_removeOrder order b) (\<lambda>b.
         let b = sendResponse (mk_response CANCELED cid (bk_symbol b) oid oid (bo_side ord) (bo_price ord) 0 0) b in
         Inr (sendBookUpdate MU_CANCEL oid (bo_side ord) (bo_price ord) (bo_qty ord) b)))"

definition stale_modifyOrder ::
  "order_constructor \<Rightarrow> Nanos \<Rightarrow> ClientId \<Rightarrow> OrderId \<Rightarrow> Price \<Rightarrow> Qty \<Rightarrow> SymbolOrderBook \<Rightarrow> SymbolOrderBook result" where
  "stale_modifyOrder new_order now cid oid new_price new_qty b =
     rbind (find_own cid oid b) (\<lambda>r.
     case r of
       None \<Rightarrow> Inr (cancel_reject MODIFY_REJECTED cid oid b)
     | Some (order, ord) \<Rightarrow>
         if new_qty = 0 \<or> new_qty = Invalid_Qty \<or> new_price \<le> 0 then
           Inr (cancel_reject MODIFY_REJECTED cid oid b)
         else
           let side = bo_side ord; old_price = bo_price ord; old_qty = bo_qty ord in
           if new_price \<noteq> old_price then
             rbind (stale_removeOrder order b) (\<lambda>b.
             let b = sendResponse (mk_response MODIFIED cid (bk_symbol b) oid oid side new_price 0 new_qty) b in
             rbind (stale_matchIncoming cid oid side new_price True new_qty b) (\<lambda>(leaves, b).
             if 0 < leaves then
               rbind (stale_restOrder new_order cid oid side new_price leaves now b) (\<lambda>b.
               Inr (sendBookUpdate MU_ADD oid side new_price leaves b))
             else Inr b))
           else if new_qty < old_qty then
             rbind (write_order order (\<lambda>ord. ord\<lparr>bo_qty := new_qty\<rparr>) b) (\<lambda>b.
             let b = sendResponse (mk_response MODIFIED cid (bk_symbol b) oid oid side old_price 0 new_qty) b in
             Inr (sendBookUpdate MU_MODIFY oid side old_price new_qty b))
           else if new_qty > old_qty then
             rbind (stale_removeOrder order b) (\<lambda>b.
             rbind (stale_restOrder new_order cid oid side old_price new_qty now b) (\<lambda>b.
             let b = sendResponse (mk_response MODIFIED cid (bk_symbol b) oid oid side old_price 0 new_qty) b in
             Inr (sendBookUpdate MU_MODIFY oid side old_price new_qty b)))
           else
             Inr (sendResponse (mk_response MODIFIED cid (bk_symbol b) oid oid side old_price 0 old_qty) b))"

section \<open>Related pools\<close>

text \<open>Two pools with the same blocks in use, whose objects are related.\<close>

definition block_rel :: "('a \<Rightarrow> 'b \<Rightarrow> bool) \<Rightarrow> 'a ObjectBlock \<Rightarrow> 'b ObjectBlock \<Rightarrow> bool" where
  "block_rel R k k' \<longleftrightarrow> is_free k = is_free k' \<and> R (blk_object k) (blk_object k')"

definition pool_rel :: "('a \<Rightarrow> 'b \<Rightarrow> bool) \<Rightarrow> 'a MemPool \<Rightarrow> 'b MemPool \<Rightarrow> bool" where
  "pool_rel R p p' \<longleftrightarrow> list_all2 (block_rel R) (p_store p) (p_store p') \<and> next_free_index p' = next_free_index p \<and>
     next_free_index p < length (p_store p)"

lemma rbind_rel:
  assumes "rel_sum (=) R x y" and "\<And>a b. R a b \<Longrightarrow> rel_sum (=) S (f a) (g b)"
  shows "rel_sum (=) S (rbind x f) (rbind y g)"
  using assms by (cases x; cases y) auto

lemma pool_rel_live: "pool_rel R p p' \<Longrightarrow> rel_option R (live p i) (live p' i)"
  by (auto simp: pool_rel_def live_def block_rel_def list_all2_conv_all_nth)

lemma pool_rel_size: "pool_rel R p p' \<Longrightarrow> pool_size p' = pool_size p"
  by (auto simp: pool_rel_def pool_size_def dest: list_all2_lengthD)

lemma pool_rel_write:
  assumes "pool_rel R p p'" and "live p i \<noteq> None" and "R x x'"
  shows "pool_rel R (pool_write i x p) (pool_write i x' p')"
proof -
  have i: "i < length (p_store p)" using assms(2) by (auto simp: live_def split: if_splits)
  then have "block_rel R (p_store p ! i) (p_store p' ! i)" using assms(1) list_all2_nthD by (auto simp: pool_rel_def)
  then show ?thesis
    using assms i unfolding pool_rel_def pool_write_def by (auto simp: block_rel_def intro!: list_all2_update_cong)
qed

lemma next_free_loop_rel:
  assumes "list_all2 (block_rel R) st st'"
  shows "i < length st \<Longrightarrow> next_free_loop st' initial fuel i = next_free_loop st initial fuel i \<and>
    (\<forall>j. next_free_loop st initial fuel i = Inr j \<longrightarrow> j < length st)"
  using assms
proof (induction st initial fuel i rule: next_free_loop.induct)
  case (2 st initial fuel i)
  have l: "length st' = length st" using 2(3) by (auto dest: list_all2_lengthD)
  have "is_free (st' ! i) = is_free (st ! i)" using list_all2_nthD [OF 2(3,2)] by (simp add: block_rel_def)
  moreover have "(if i + 1 = length st then 0 else i + 1) < length st" using 2(2) by auto
  ultimately show ?case using 2(1) [OF _ refl] 2(2,3) l by (auto simp: Let_def)
qed simp

lemma pool_rel_allocate:
  assumes p: "pool_rel R p p'" and x: "R x x'"
  shows "rel_sum (=) (rel_prod (=) (pool_rel R)) (allocate x p) (allocate x' p')"
proof -
  let ?i = "next_free_index p"
  let ?st = "(p_store p)[?i := \<lparr>blk_object = x, is_free = False\<rparr>]" and ?st' = "(p_store p')[?i := \<lparr>blk_object = x', is_free = False\<rparr>]"
  have i: "?i < length (p_store p)" "next_free_index p' = ?i" and l: "length (p_store p') = length (p_store p)"
    using p by (auto simp: pool_rel_def dest: list_all2_lengthD)
  have free: "is_free (p_store p' ! ?i) = is_free (p_store p ! ?i)"
    using p i list_all2_nthD by (fastforce simp: pool_rel_def block_rel_def)
  have st: "list_all2 (block_rel R) ?st ?st'"
    using p x by (auto simp: pool_rel_def block_rel_def intro!: list_all2_update_cong)
  have "?i < length ?st" using i by simp
  note loop = next_free_loop_rel [OF st this, of ?i "length (p_store p)"]
  show ?thesis
    using st loop free i l
    by (cases "next_free_loop ?st ?i (length (p_store p)) ?i") (auto simp: allocate_def updateNextFreeIndex_def Let_def pool_rel_def)
qed

lemma pool_rel_deallocate:
  assumes "pool_rel R p p'"
  shows "rel_sum (=) (pool_rel R) (deallocate i p) (deallocate i p')"
proof (cases "i < length (p_store p)")
  case True
  then have "block_rel R (p_store p ! i) (p_store p' ! i)" using assms list_all2_nthD by (auto simp: pool_rel_def)
  then show ?thesis
    using assms True by (auto simp: deallocate_def pool_rel_def block_rel_def intro!: list_all2_update_cong dest: list_all2_lengthD)
qed (use assms in \<open>auto simp: deallocate_def pool_rel_def dest: list_all2_lengthD\<close>)

section \<open>Related books\<close>

text \<open>
  Books that agree in everything but the update queue and the contents of the orders with an id in \<open>X\<close>:
  empty for the methods that build no order, the id of the request for those that do.
\<close>

definition same_order :: "OrderId set \<Rightarrow> BookOrder \<Rightarrow> BookOrder \<Rightarrow> bool" where
  "same_order X ord ord' \<longleftrightarrow> bo_order_id ord \<in> X \<or> ord' = ord"

definition same_book :: "OrderId set \<Rightarrow> SymbolOrderBook \<Rightarrow> SymbolOrderBook \<Rightarrow> bool" where
  "same_book X b b' \<longleftrightarrow> bk_symbol b' = bk_symbol b \<and> bk_response_queue b' = bk_response_queue b \<and> bk_bids b' = bk_bids b \<and>
     bk_asks b' = bk_asks b \<and> bk_order_index b' = bk_order_index b \<and> bk_level_pool b' = bk_level_pool b \<and>
     pool_rel (same_order X) (bk_order_pool b) (bk_order_pool b')"

text \<open>The removal notice of a filled order, which the older file does not send.\<close>

definition announced :: "BookUpdate \<Rightarrow> bool" where
  "announced u \<longleftrightarrow> \<not> (upd_type u = MU_CANCEL \<and> upd_qty u = 0)"

text \<open>The same, for two books that started with the update queues \<open>Q\<close> and \<open>Q'\<close>: the second has not sent the notices.\<close>

definition sim :: "OrderId set \<Rightarrow> BookUpdate LFQueue \<Rightarrow> BookUpdate LFQueue \<Rightarrow> SymbolOrderBook \<Rightarrow> SymbolOrderBook \<Rightarrow> bool" where
  "sim X Q Q' b b' \<longleftrightarrow> same_book X b b' \<and>
     (\<exists>us. bk_update_queue b = push_all us Q \<and> bk_update_queue b' = push_all (filter announced us) Q')"

lemma same_order_empty [simp]: "same_order {} ord ord' \<longleftrightarrow> ord' = ord"
  by (simp add: same_order_def)

lemma same_order_links:
  assumes "same_order X ord ord'"
  shows "same_order X (ord\<lparr>bo_prev := x\<rparr>) (ord'\<lparr>bo_prev := x\<rparr>)"
    "same_order X (ord\<lparr>bo_next := x\<rparr>) (ord'\<lparr>bo_next := x\<rparr>)"
  using assms by (auto simp: same_order_def)

lemma pool_rel_mono: "pool_rel R p p' \<Longrightarrow> (\<And>x y. R x y \<Longrightarrow> S x y) \<Longrightarrow> pool_rel S p p'"
  unfolding pool_rel_def block_rel_def by (auto elim!: list_all2_mono)

lemma sim_weaken: "sim {} Q Q' b b' \<Longrightarrow> sim X Q Q' b b'"
  unfolding sim_def same_book_def by (auto simp: same_order_def elim: pool_rel_mono)

section \<open>Both files do the same\<close>

text \<open>Accesses and events.\<close>

lemma sim_fields:
  assumes "sim X Q Q' b b'"
  shows "bk_symbol b' = bk_symbol b" "levels bid b' = levels bid b" "bk_order_index b' = bk_order_index b"
    "pool_size (bk_order_pool b') = pool_size (bk_order_pool b)" "bk_level_pool b' = bk_level_pool b"
  using assms pool_rel_size by (auto simp: sim_def same_book_def levels_def)

lemma sim_sendResponse: "sim X Q Q' b b' \<Longrightarrow> sim X Q Q' (sendResponse r b) (sendResponse r b')"
  by (auto simp: sim_def same_book_def sendResponse_def)

lemma sim_sendBookUpdate:
  assumes "sim X Q Q' b b'"
  shows "ty \<noteq> MU_CANCEL \<or> q \<noteq> 0 \<Longrightarrow> sim X Q Q' (sendBookUpdate ty oid sd p q b) (sendBookUpdate ty oid sd p q b')"
    and "sim X Q Q' (sendBookUpdate MU_CANCEL oid sd p 0 b) b'"
proof -
  obtain us where us: "bk_update_queue b = push_all us Q" "bk_update_queue b' = push_all (filter announced us) Q'"
    using assms by (auto simp: sim_def)
  have snoc: "push x (push_all xs q) = push_all (xs @ [x]) q" for x xs and q :: "BookUpdate LFQueue" by (simp add: push_all_def)
  show "sim X Q Q' (sendBookUpdate ty oid sd p q b) (sendBookUpdate ty oid sd p q b')" if "ty \<noteq> MU_CANCEL \<or> q \<noteq> 0"
    using assms us that snoc
    by (auto simp: sim_def same_book_def sendBookUpdate_def announced_def intro!: exI [of _ "us @ [mk_update ty oid (bk_symbol b) sd p q]"])
  show "sim X Q Q' (sendBookUpdate MU_CANCEL oid sd p 0 b) b'"
    using assms us snoc
    by (auto simp: sim_def same_book_def sendBookUpdate_def announced_def intro!: exI [of _ "us @ [mk_update MU_CANCEL oid (bk_symbol b) sd p 0]"])
qed

lemma sim_read_order: "sim {} Q Q' b b' \<Longrightarrow> read_order i b' = read_order i b"
  using pool_rel_live [of "same_order {}" "bk_order_pool b" "bk_order_pool b'" i]
  by (cases "orders_of b i"; cases "orders_of b' i") (auto simp: sim_def same_book_def read_order_def)

lemma sim_read_level: "sim X Q Q' b b' \<Longrightarrow> read_level l b' = read_level l b"
  by (simp add: sim_def same_book_def read_level_def)

lemma sim_write_order:
  assumes "sim X Q Q' b b'" and "\<And>ord ord'. read_order i b = Inr ord \<Longrightarrow> same_order X ord ord' \<Longrightarrow> same_order X (f ord) (g ord')"
  shows "rel_sum (=) (sim X Q Q') (write_order i f b) (write_order i g b')"
  using pool_rel_live [of "same_order X" "bk_order_pool b" "bk_order_pool b'" i] assms
  by (auto simp: sim_def same_book_def write_order_def read_order_def pool_rel_write option_rel_Some1 split: option.splits)

lemma sim_write_level: "sim X Q Q' b b' \<Longrightarrow> rel_sum (=) (sim X Q Q') (write_level l f b) (write_level l f b')"
  by (auto simp: sim_def same_book_def write_level_def read_level_def split: option.splits)

lemma sim_write_same: "sim {} Q Q' b b' \<Longrightarrow> rel_sum (=) (sim {} Q Q') (write_order i f b) (write_order i f b')"
  by (rule sim_write_order) simp_all

text \<open>A step that reads what both books agree on.\<close>

lemma rbind_same:
  assumes "r' = r" and "\<And>x. r = Inr x \<Longrightarrow> rel_sum (=) S (f x) (g x)"
  shows "rel_sum (=) S (rbind r f) (rbind r' g)"
  using assms by (cases r) auto

text \<open>Lists, levels and the index.\<close>

lemma sim_unlink:
  assumes "sim {} Q Q' b b'"
  shows "rel_sum (=) (sim {} Q Q') (unlink level order b) (unlink level order b')"
  unfolding unlink_def
  by (auto split: option.splits
      intro!: rbind_same [OF sim_read_order] rbind_rel [of "sim {} Q Q'"] sim_write_level sim_write_same assms)

lemma sim_set_levels: "sim X Q Q' b b' \<Longrightarrow> sim X Q Q' (set_levels bid m b) (set_levels bid m b')"
  by (simp add: sim_def same_book_def set_levels_def)

lemma sim_level_pool: "sim X Q Q' b b' \<Longrightarrow> sim X Q Q' (b\<lparr>bk_level_pool := lp\<rparr>) (b'\<lparr>bk_level_pool := lp\<rparr>)"
  by (simp add: sim_def same_book_def)

lemma sim_index: "sim X Q Q' b b' \<Longrightarrow> sim X Q Q' (b\<lparr>bk_order_index := m\<rparr>) (b'\<lparr>bk_order_index := m\<rparr>)"
  by (simp add: sim_def same_book_def)

lemma sim_order_pool: "sim Y Q Q' b b' \<Longrightarrow> pool_rel (same_order X) op op' \<Longrightarrow> sim X Q Q' (b\<lparr>bk_order_pool := op\<rparr>) (b'\<lparr>bk_order_pool := op'\<rparr>)"
  by (simp add: sim_def same_book_def)

lemma sim_drop_level:
  assumes "sim X Q Q' b b'"
  shows "rel_sum (=) (sim X Q Q') (drop_level_if_empty bid price level b) (drop_level_if_empty bid price level b')"
proof -
  let ?f = "\<lambda>b. set_levels bid (smap_erase price (levels bid b)) b"
  have s: "sim X Q Q' (?f b) (?f b')" using sim_set_levels [OF assms] sim_fields(2) [OF assms] by simp
  have "rel_sum (=) (sim X Q Q') (rbind (deallocate level (bk_level_pool (?f b))) (\<lambda>lp. Inr ((?f b)\<lparr>bk_level_pool := lp\<rparr>)))
      (rbind (deallocate level (bk_level_pool (?f b'))) (\<lambda>lp. Inr ((?f b')\<lparr>bk_level_pool := lp\<rparr>)))"
    using sim_level_pool [OF s] sim_fields(5) [OF s] by (cases "deallocate level (bk_level_pool (?f b))") simp_all
  then show ?thesis
    using assms sim_read_level [OF assms, of level] by (cases "read_level level b") (simp_all add: drop_level_if_empty_def Let_def)
qed

lemma sim_find_or_create_level:
  assumes "sim X Q Q' b b'"
  shows "rel_sum (=) (rel_prod (=) (sim X Q Q')) (find_or_create_level bid price b) (find_or_create_level bid price b')"
  using assms sim_fields(2,5) [OF assms] sim_set_levels [OF sim_level_pool [OF assms]]
  by (cases "allocate (mk_level price) (bk_level_pool b)") (auto simp: find_or_create_level_def split: option.splits prod.splits)

lemma sim_append_tail:
  assumes "sim X Q Q' b b'"
  shows "rel_sum (=) (sim X Q Q') (append_tail level order b) (append_tail level order b')"
  unfolding append_tail_def
  by (auto split: option.splits
      intro!: rbind_same [OF sim_read_level [OF assms]] rbind_rel [of "sim X Q Q'"] sim_write_order sim_write_level same_order_links assms)

text \<open>Whatever the missing constructor does, only the contents of the new order depend on it.\<close>

lemma sim_restOrder:
  assumes s: "sim {} Q Q' b b'"
  shows "rel_sum (=) (sim {oid} Q Q') (restOrder cid oid ot sd p oq q ts b) (stale_restOrder new_order cid oid sd p q ts b')"
proof -
  have "pool_rel (same_order {oid}) (bk_order_pool b) (bk_order_pool b')" using sim_weaken [OF s] by (simp add: sim_def same_book_def)
  moreover have "same_order {oid} (mk_order oid cid sy ot sd p oq q ts) (new_order oid cid sd p q ts)" for sy
    by (simp add: same_order_def mk_order_def mk_info_def OrderInfo.defs BookOrder.defs)
  ultimately have alloc: "rel_sum (=) (rel_prod (=) (pool_rel (same_order {oid})))
      (allocate (mk_order oid cid (bk_symbol b) ot sd p oq q ts) (bk_order_pool b)) (allocate (new_order oid cid sd p q ts) (bk_order_pool b'))"
    by (rule pool_rel_allocate)
  have fin: "rel_sum (=) (sim {oid} Q Q') (rbind (append_tail l i c) (\<lambda>c. Inr (c\<lparr>bk_order_index := (bk_order_index c)(oid \<mapsto> i)\<rparr>)))
      (rbind (append_tail l i c') (\<lambda>c. Inr (c\<lparr>bk_order_index := (bk_order_index c)(oid \<mapsto> i)\<rparr>)))" if "sim {oid} Q Q' c c'" for l i c c'
    by (rule rbind_rel [OF sim_append_tail [OF that]]) (simp add: sim_fields(3) sim_index)
  show ?thesis
    unfolding restOrder_def stale_restOrder_def
    by (rule rbind_rel [OF alloc], clarsimp, rule rbind_rel [OF sim_find_or_create_level [OF sim_order_pool [OF s]]], assumption, clarsimp)
      (rule fin)
qed

lemma stale_removeOrder_same: "stale_removeOrder = removeOrder"
  by (simp add: fun_eq_iff stale_removeOrder_def removeOrder_def)

lemma sim_removeOrder:
  assumes s: "sim {} Q Q' b b'"
  shows "rel_sum (=) (sim {} Q Q') (removeOrder order b) (removeOrder order b')"
proof -
  have fin: "rel_sum (=) (sim {} Q Q')
      (rbind (read_order order c) (\<lambda>ord. rbind (deallocate order (bk_order_pool c)) (\<lambda>op.
         Inr (c\<lparr>bk_order_index := (bk_order_index c)(bo_order_id ord := None), bk_order_pool := op\<rparr>))))
      (rbind (read_order order c') (\<lambda>ord. rbind (deallocate order (bk_order_pool c')) (\<lambda>op.
         Inr (c'\<lparr>bk_order_index := (bk_order_index c')(bo_order_id ord := None), bk_order_pool := op\<rparr>))))"
    if c: "sim {} Q Q' c c'" for c c'
  proof (rule rbind_same [OF sim_read_order [OF c]], rule rbind_rel)
    show "rel_sum (=) (pool_rel (same_order {})) (deallocate order (bk_order_pool c)) (deallocate order (bk_order_pool c'))"
      using c by (intro pool_rel_deallocate) (simp add: sim_def same_book_def)
    show "rel_sum (=) (sim {} Q Q') (Inr (c\<lparr>bk_order_index := (bk_order_index c)(bo_order_id ord := None), bk_order_pool := op\<rparr>))
        (Inr (c'\<lparr>bk_order_index := (bk_order_index c')(bo_order_id ord := None), bk_order_pool := op'\<rparr>))"
      if "pool_rel (same_order {}) op op'" for ord op op'
      using sim_order_pool [OF sim_index [OF c] that] sim_fields(3) [OF c] by simp
  qed
  show ?thesis
    unfolding removeOrder_def Let_def sim_fields(2) [OF s]
    by (auto split: option.splits intro!: rbind_same [OF sim_read_order] rbind_rel [OF sim_unlink] rbind_rel [OF sim_drop_level] fin s)
qed

section \<open>Matching\<close>

lemma sim_fill_node:
  assumes s: "sim {} Q Q' b b'"
  shows "rel_sum (=) (rel_prod (=) (sim {} Q Q')) (fill_node cid oid sd lp node leaves b) (stale_fill_node cid oid sd lp node leaves b')"
proof -
  have fin: "rel_sum (=) (rel_prod (=) (sim {} Q Q'))
      (rbind (removeOrder node c) (\<lambda>b. Inr (l, sendBookUpdate MU_CANCEL i sd' lp 0 b))) (rbind (removeOrder node c') (\<lambda>b. Inr (l, b)))"
    if "sim {} Q Q' c c'" for c c' l i sd'
    by (rule rbind_rel [OF sim_removeOrder [OF that]]) (simp add: sim_sendBookUpdate(2))
  show ?thesis
    unfolding fill_node_def stale_fill_node_def stale_removeOrder_same Let_def
    by (rule rbind_same [OF sim_read_order [OF s]], rule rbind_rel [OF sim_write_same [OF s]], rule rbind_same [OF sim_read_order], assumption)
      (auto simp: sim_fields(1) sendResponse_def [of _ b] intro!: fin sim_sendBookUpdate(1) sim_sendResponse)
qed

lemma sim_match_level:
  "sim {} Q Q' b b' \<Longrightarrow> rel_sum (=) (rel_prod (=) (sim {} Q Q')) (match_level cid oid sd lp fuel node leaves b)
     (stale_match_level cid oid sd lp fuel node leaves b')"
proof (induction cid oid sd lp fuel node leaves b arbitrary: b' rule: match_level.induct)
  case (3 cid oid sd lp fuel node leaves b)
  show ?case
    unfolding match_level.simps stale_match_level.simps
  proof (rule rbind_same [OF sim_read_order [OF "3.prems"]], rule rbind_rel [of "rel_prod (=) (sim {} Q Q')"])
    fix n :: BookOrder
    show "rel_sum (=) (rel_prod (=) (sim {} Q Q'))
        (if bo_client_id n \<noteq> cid \<and> 0 < leaves then fill_node cid oid sd lp node leaves b else Inr (leaves, b))
        (if bo_client_id n \<noteq> cid \<and> 0 < leaves then stale_fill_node cid oid sd lp node leaves b' else Inr (leaves, b'))"
      using sim_fill_node [OF "3.prems"] "3.prems" by simp
    show "rel_sum (=) (rel_prod (=) (sim {} Q Q')) (case r of (leaves, b) \<Rightarrow> match_level cid oid sd lp fuel (bo_next n) leaves b)
        (case r' of (leaves, b) \<Rightarrow> stale_match_level cid oid sd lp fuel (bo_next n) leaves b)" if "rel_prod (=) (sim {} Q Q') r r'" for r r'
      using "3.IH" that by (auto split: prod.splits)
  qed
qed simp_all

lemma sim_match_levels:
  "sim {} Q Q' b b' \<Longrightarrow> rel_sum (=) (rel_prod (=) (sim {} Q Q')) (match_levels cid oid sd lim hl fuel it leaves b)
     (stale_match_levels cid oid sd lim hl fuel it leaves b')"
proof (induction cid oid sd lim hl fuel it leaves b arbitrary: b' rule: match_levels.induct)
  case (3 cid oid sd lim hl fuel lp level leaves b)
  have next_level: "rel_sum (=) (rel_prod (=) (sim {} Q Q'))
      (case r of (leaves, b) \<Rightarrow> match_levels cid oid sd lim hl fuel (smap_upper_bound (price_before (sd \<noteq> BUY)) lp (levels (sd \<noteq> BUY) b)) leaves b)
      (case r' of (leaves, b) \<Rightarrow> stale_match_levels cid oid sd lim hl fuel (smap_upper_bound (price_before (sd \<noteq> BUY)) lp (levels (sd \<noteq> BUY) b)) leaves b)"
    if "rel_prod (=) (sim {} Q Q') r r'" "0 < leaves" "\<not> beyond_limit sd hl lim lp" for r r'
    using "3.IH" that by (auto simp: sim_fields(2) split: prod.splits)
  show ?case
    using "3.prems" rbind_rel [OF sim_match_level [OF "3.prems"] next_level] sim_read_level [OF "3.prems", of level] sim_fields(4) [OF "3.prems"]
    by (cases "read_level level b") (auto simp: beyond_limit_def)
qed simp_all

lemma sim_matchIncoming:
  "sim {} Q Q' b b' \<Longrightarrow> rel_sum (=) (rel_prod (=) (sim {} Q Q')) (matchIncoming cid oid sd lim hl leaves b)
     (stale_matchIncoming cid oid sd lim hl leaves b')"
  using sim_match_levels unfolding matchIncoming_def stale_matchIncoming_def by (simp add: sim_fields(2))

section \<open>Order entry\<close>

text \<open>Matching and what follows it, in a new limit order and in a repriced one.\<close>

lemma sim_match_and_rest:
  assumes "sim {} Q Q' b b'"
  shows "rel_sum (=) (sim {oid} Q Q')
    (rbind (matchIncoming cid oid sd p True q b) (\<lambda>(leaves, b). if 0 < leaves then
       rbind (restOrder cid oid ot sd p q leaves now b) (\<lambda>b. Inr (sendBookUpdate MU_ADD oid sd p leaves b)) else Inr b))
    (rbind (stale_matchIncoming cid oid sd p True q b') (\<lambda>(leaves, b). if 0 < leaves then
       rbind (stale_restOrder new_order cid oid sd p leaves now b) (\<lambda>b. Inr (sendBookUpdate MU_ADD oid sd p leaves b)) else Inr b))"
proof (rule rbind_rel [OF sim_matchIncoming [OF assms]], goal_cases)
  case (1 r r')
  then obtain leaves c c' where r: "r = (leaves, c)" "r' = (leaves, c')" "sim {} Q Q' c c'" by (cases r; cases r') auto
  have "rel_sum (=) (sim {oid} Q Q') (rbind (restOrder cid oid ot sd p q leaves now c) (\<lambda>b. Inr (sendBookUpdate MU_ADD oid sd p leaves b)))
      (rbind (stale_restOrder new_order cid oid sd p leaves now c') (\<lambda>b. Inr (sendBookUpdate MU_ADD oid sd p leaves b)))"
    by (rule rbind_rel [OF sim_restOrder [OF r(3)]]) (simp add: sim_sendBookUpdate(1))
  then show ?case using r sim_weaken [OF r(3), of "{oid}"] by simp
qed

lemma sim_match_and_cancel:
  assumes "sim {} Q Q' b b'"
  shows "rel_sum (=) (sim {} Q Q')
    (rbind (matchIncoming cid oid sd p hl q b) (\<lambda>(leaves, b). if 0 < leaves then
       Inr (sendResponse (mk_response CANCELED cid (bk_symbol b) oid oid sd p (q - leaves) leaves) b) else Inr b))
    (rbind (stale_matchIncoming cid oid sd p hl q b') (\<lambda>(leaves, b). if 0 < leaves then
       Inr (sendResponse (mk_response CANCELED cid (bk_symbol b) oid oid sd p (q - leaves) leaves) b) else Inr b))"
  by (rule rbind_rel [OF sim_matchIncoming [OF assms]]) (auto simp: sim_fields(1) sim_sendResponse)

lemma sim_add_orders:
  assumes s: "sim {} Q Q' b b'"
  shows "rel_sum (=) (sim {oid} Q Q') (addLimitOrder now cid oid sd p q b) (stale_addLimitOrder new_order now cid oid sd p q b')"
    and "rel_sum (=) (sim {} Q Q') (addMarketOrder cid oid sd q b) (stale_addMarketOrder cid oid sd q b')"
    and "rel_sum (=) (sim {} Q Q') (addIOCOrder cid oid sd p q b) (stale_addIOCOrder cid oid sd p q b')"
  using sim_sendResponse [OF s] sim_sendResponse [OF sim_weaken [OF s]] sim_match_and_rest [OF sim_sendResponse [OF s]]
    sim_match_and_cancel [OF sim_sendResponse [OF s]]
  by (simp_all add: addLimitOrder_def stale_addLimitOrder_def addMarketOrder_def stale_addMarketOrder_def addIOCOrder_def
      stale_addIOCOrder_def Let_def sim_fields(1,3) [OF s])

lemma sim_find_own: "sim {} Q Q' b b' \<Longrightarrow> find_own cid oid b' = find_own cid oid b"
  by (simp add: find_own_def sim_fields(3) sim_read_order split: option.splits)

lemma sim_cancel_reject: "sim X Q Q' b b' \<Longrightarrow> sim X Q Q' (cancel_reject st cid oid b) (cancel_reject st cid oid b')"
  by (simp add: cancel_reject_def sim_fields(1) sim_sendResponse)

lemma sim_cancelOrder:
  assumes s: "sim {} Q Q' b b'" and pos: "\<And>i ord. find_own cid oid b = Inr (Some (i, ord)) \<Longrightarrow> bo_qty ord \<noteq> 0"
  shows "rel_sum (=) (sim {} Q Q') (cancelOrder cid oid b) (stale_cancelOrder cid oid b')"
  unfolding cancelOrder_def stale_cancelOrder_def stale_removeOrder_same Let_def
  by (rule rbind_same [OF sim_find_own [OF s]])
    (auto simp: sim_cancel_reject [OF s] sim_fields(1) pos split: option.splits
      intro!: rbind_rel [OF sim_removeOrder [OF s]] sim_sendBookUpdate(1) sim_sendResponse)

lemma sim_modifyOrder:
  assumes s: "sim {} Q Q' b b'" and own: "\<And>i ord. find_own cid oid b = Inr (Some (i, ord)) \<Longrightarrow> read_order i b = Inr ord \<and> bo_order_id ord = oid"
  shows "rel_sum (=) (sim {oid} Q Q') (modifyOrder now cid oid p q b) (stale_modifyOrder new_order now cid oid p q b')"
proof -
  note w = sim_weaken [OF s, of "{oid}"]
  have reprice: "rel_sum (=) (sim {oid} Q Q')
      (rbind (removeOrder i b) (\<lambda>b. rbind (matchIncoming cid oid sd p True q (sendResponse (mk_response MODIFIED cid (bk_symbol b) oid oid sd p 0 q) b))
        (\<lambda>(leaves, b). if 0 < leaves then rbind (restOrder cid oid ot sd p q leaves now b) (\<lambda>b. Inr (sendBookUpdate MU_ADD oid sd p leaves b)) else Inr b)))
      (rbind (removeOrder i b') (\<lambda>b. rbind (stale_matchIncoming cid oid sd p True q (sendResponse (mk_response MODIFIED cid (bk_symbol b) oid oid sd p 0 q) b))
        (\<lambda>(leaves, b). if 0 < leaves then rbind (stale_restOrder new_order cid oid sd p leaves now b) (\<lambda>b. Inr (sendBookUpdate MU_ADD oid sd p leaves b)) else Inr b)))"
    for i sd ot
    by (rule rbind_rel [OF sim_removeOrder [OF s]]) (simp only: sim_fields(1) sim_match_and_rest [OF sim_sendResponse])
  have told: "sim {oid} Q Q' (sendBookUpdate MU_MODIFY oid sd p' q (sendResponse (mk_response MODIFIED cid (bk_symbol c) oid oid sd p' 0 q) c))
      (sendBookUpdate MU_MODIFY oid sd p' q (sendResponse (mk_response MODIFIED cid (bk_symbol c') oid oid sd p' 0 q) c'))" if "sim {oid} Q Q' c c'" for c c' sd p'
    using that by (simp add: sim_fields(1) sim_sendResponse sim_sendBookUpdate(1))
  have shrink: "rel_sum (=) (sim {oid} Q Q')
      (rbind (write_order i (\<lambda>ord. ord\<lparr>bo_qty := q, bo_original_qty := q\<rparr>) b) (\<lambda>b.
        Inr (sendBookUpdate MU_MODIFY oid sd p' q (sendResponse (mk_response MODIFIED cid (bk_symbol b) oid oid sd p' 0 q) b))))
      (rbind (write_order i (\<lambda>ord. ord\<lparr>bo_qty := q\<rparr>) b') (\<lambda>b.
        Inr (sendBookUpdate MU_MODIFY oid sd p' q (sendResponse (mk_response MODIFIED cid (bk_symbol b) oid oid sd p' 0 q) b))))"
    if "read_order i b = Inr ord" "bo_order_id ord = oid" for i ord sd p'
    by (rule rbind_rel [OF sim_write_order [OF w]]) (use that in \<open>simp_all add: same_order_def told\<close>)
  have grow: "rel_sum (=) (sim {oid} Q Q')
      (rbind (removeOrder i b) (\<lambda>b. rbind (restOrder cid oid ot sd p' q q now b) (\<lambda>b.
        Inr (sendBookUpdate MU_MODIFY oid sd p' q (sendResponse (mk_response MODIFIED cid (bk_symbol b) oid oid sd p' 0 q) b)))))
      (rbind (removeOrder i b') (\<lambda>b. rbind (stale_restOrder new_order cid oid sd p' q now b) (\<lambda>b.
        Inr (sendBookUpdate MU_MODIFY oid sd p' q (sendResponse (mk_response MODIFIED cid (bk_symbol b) oid oid sd p' 0 q) b)))))" for i ot sd p'
    by (rule rbind_rel [OF sim_removeOrder [OF s]], rule rbind_rel [OF sim_restOrder], assumption) (simp add: told)
  show ?thesis
    unfolding modifyOrder_def stale_modifyOrder_def stale_removeOrder_same
  proof (rule rbind_same [OF sim_find_own [OF s]], goal_cases)
    case (1 r)
    then show ?case
      using own sim_cancel_reject [OF w] sim_sendResponse [OF w] reprice shrink grow
      by (cases r) (auto simp: Let_def sim_fields(1) [OF s])
  qed
qed

section \<open>Properties\<close>

lemma sim_start:
  assumes "represents b a"
  shows "sim {} Q (bk_update_queue b) (b\<lparr>bk_update_queue := Q\<rparr>) b"
proof -
  have "pool_inv (bk_order_pool b)" using assms by (auto simp: represents_def book_rel_def pools_ok_def)
  then have "pool_rel (same_order {}) (bk_order_pool b) (bk_order_pool b)"
    by (auto simp: pool_rel_def pool_inv_def pool_size_def block_rel_def list_all2_same)
  then show ?thesis by (auto simp: sim_def same_book_def intro!: exI [of _ "[]"])
qed

lemma find_own_facts:
  assumes "represents b a" and "sound a" and "find_own cid oid b = Inr (Some (i, ord))"
  shows "read_order i b = Inr ord \<and> bo_order_id ord = oid" and "bo_qty ord \<noteq> 0"
proof -
  have o: "own_order cid oid a = Some (OrderInfo.truncate ord)" "orders_of b i = Some ord"
    using assms(3) by (auto intro: find_own_cases [OF assms(1), of cid oid])
  have "bo_order_id (OrderInfo.truncate ord) = oid" "bo_qty (OrderInfo.truncate ord) \<noteq> 0"
    using own_orderD [OF o(1)] own_order_side(2) [OF conjunct1 [OF assms(2)] o(1)] by (simp_all add: order_ok_def)
  then show "read_order i b = Inr ord \<and> bo_order_id ord = oid" "bo_qty ord \<noteq> 0"
    using o(2) by (simp_all add: read_order_def OrderInfo.truncate_def)
qed

text \<open>
  C14 On every book of the running program each method of the older copy does what the current one does,
  but for the removal notices of filled orders. Matching, market and IOC orders and cancellations end with
  the same remainder and the same book, responses included; a limit order and a modification end with the
  same error, or with a book that differs at most in the contents of the order of the request, which the
  missing constructor fills in. The updates sent are those of the current method without the
  CANCEL notices of quantity zero. Nothing is assumed about the constructor.
\<close>

theorem stale_copy_only_omits_removals:
  assumes "reachable b"
  shows "let Q = bk_update_queue b in
    rel_sum (=) (rel_prod (=) (sim {} Q Q)) (matchIncoming cid oid sd p hl q b) (stale_matchIncoming cid oid sd p hl q b) \<and>
    rel_sum (=) (sim {} Q Q) (addMarketOrder cid oid sd q b) (stale_addMarketOrder cid oid sd q b) \<and>
    rel_sum (=) (sim {} Q Q) (addIOCOrder cid oid sd p q b) (stale_addIOCOrder cid oid sd p q b) \<and>
    rel_sum (=) (sim {} Q Q) (cancelOrder cid oid b) (stale_cancelOrder cid oid b) \<and>
    rel_sum (=) (sim {oid} Q Q) (addLimitOrder now cid oid sd p q b) (stale_addLimitOrder new_order now cid oid sd p q b) \<and>
    rel_sum (=) (sim {oid} Q Q) (modifyOrder now cid oid p q b) (stale_modifyOrder new_order now cid oid p q b)"
proof -
  obtain a where a: "represents b a" "sound a" using reachable_sound [OF assms] by blast
  have s: "sim {} (bk_update_queue b) (bk_update_queue b) b b" using sim_start [OF a(1), of "bk_update_queue b"] by simp
  note own = find_own_facts [OF a]
  show ?thesis
    unfolding Let_def
    by (intro conjI sim_matchIncoming sim_add_orders sim_cancelOrder sim_modifyOrder s own)
qed

theorem stale_copy_only_omits_removals_witness:
  "\<exists>b. reachable b \<and> bk_order_index b 11 \<noteq> None \<and>
     rel_sum (=) (sim {} (bk_update_queue b) (bk_update_queue b)) (cancelOrder 1 11 b) (stale_cancelOrder 1 11 b) \<and>
     rel_sum (=) (sim {11} (bk_update_queue b) (bk_update_queue b)) (modifyOrder 5 1 11 106 7 b)
       (stale_modifyOrder (\<lambda>oid cid sd p q ts. BookOrder_default) 5 1 11 106 7 b)"
proof -
  obtain b where b: "represents b sample_book" "reachable b" using sample_exists by blast
  have "lookup_order 11 sample_book \<noteq> None" by code_simp
  then have "bk_order_index b 11 \<noteq> None" using represents_lookup_None [OF b(1)] by simp
  then show ?thesis
    using stale_copy_only_omits_removals [OF b(2), of 1 11 BUY 106 True 7 5 "\<lambda>oid cid sd p q ts. BookOrder_default"] b(2)
    unfolding Let_def by blast
qed

text \<open>What matching announces about the orders it meets.\<close>

lemma match_orders_announces:
  assumes "match_orders sy cid oid sd beyond leaves os = (os', l', rs, us)"
  shows "u \<in> set us \<Longrightarrow> upd_type u = MU_TRADE \<or> upd_type u = MU_CANCEL \<and> upd_qty u = 0 \<or>
      upd_type u = MU_MODIFY \<and> upd_order_id u \<in> bo_order_id ` set os'"
    and "i \<in> bo_order_id ` set os \<Longrightarrow> i \<notin> bo_order_id ` set os' \<Longrightarrow> \<exists>u \<in> set us. upd_type u = MU_CANCEL \<and> upd_order_id u = i"
  using assms
proof (induction os arbitrary: leaves os' rs us)
  case (Cons r os)
  case 1
  then show ?case
    using Cons.IH(1) by (fastforce simp: Let_def after_fill_def fill_updates_def split: if_splits prod.splits)
next
  case (Cons r os)
  case 2
  then show ?case
    using Cons.IH(2) by (fastforce simp: Let_def after_fill_def fill_updates_def split: if_splits prod.splits)
qed simp_all

lemma mirror_untouched:
  "\<forall>u \<in> set us. upd_order_id u = i \<longrightarrow> upd_type u = MU_TRADE \<Longrightarrow> fold update_book us m i = m i"
  by (induction us arbitrary: m) (auto simp: update_book_def split: MarketUpdateType.splits option.splits)

lemma mirror_dropped:
  assumes "\<forall>u \<in> set us. upd_order_id u = i \<longrightarrow> upd_type u = MU_TRADE \<or> upd_type u = MU_CANCEL"
    and "m i = None \<or> (\<exists>u \<in> set us. upd_type u = MU_CANCEL \<and> upd_order_id u = i)"
  shows "fold update_book us m i = None"
  using assms
proof (induction us arbitrary: m)
  case (Cons u us)
  have "update_book u m i = None \<or> (\<exists>v \<in> set us. upd_type v = MU_CANCEL \<and> upd_order_id v = i)"
    using Cons.prems by (auto simp: update_book_def split: MarketUpdateType.splits option.splits)
  then show ?case using Cons.IH Cons.prems(1) by simp
qed simp

text \<open>A matching run of the older copy sends the updates of the specification that are not removal notices.\<close>

lemma stale_matchIncoming_ok:
  assumes rep: "represents b a" and m: "match_book cid oid sd p hl q a = (leaves, a', rs, us)"
  obtains b' where "stale_matchIncoming cid oid sd p hl q b = Inr (leaves, b')"
    and "bk_order_index b' i = None \<longleftrightarrow> lookup_order i a' = None" and "bk_update_queue b' = push_all (filter announced us) (bk_update_queue b)"
proof -
  let ?Q = "new_LFQueue (length us + 1) BookUpdate_default"
  have "b\<lparr>bk_update_queue := ?Q\<rparr> = b\<lparr>bk_response_queue := bk_response_queue b, bk_update_queue := ?Q\<rparr>" by (cases b) simp
  then have "represents (b\<lparr>bk_update_queue := ?Q\<rparr>) a" using rep represents_queues by metis
  then obtain c where c: "matchIncoming cid oid sd p hl q (b\<lparr>bk_update_queue := ?Q\<rparr>) = Inr (leaves, c)" "represents c a'"
    "effect (b\<lparr>bk_update_queue := ?Q\<rparr>) rs us c"
    using matchIncoming_ok [OF _ m] by blast
  obtain b' where b': "stale_matchIncoming cid oid sd p hl q b = Inr (leaves, b')" "sim {} ?Q (bk_update_queue b) c b'"
    using sim_matchIncoming [OF sim_start [OF rep, of ?Q], of cid oid sd p hl q] c(1) by (auto elim!: rel_sum.cases)
  then obtain vs where vs: "bk_update_queue c = push_all vs ?Q" "bk_update_queue b' = push_all (filter announced vs) (bk_update_queue b)"
    by (auto simp: sim_def)
  have e: "push_all vs ?Q = push_all us ?Q" using vs(1) c(3) by (simp add: effect_def)
  then have "length vs = length us" by (metis add_left_imp_eq push_all_num)
  then have "contents (push_all vs ?Q) = vs" "contents (push_all us ?Q) = us" by (simp_all add: push_all_contents)
  then have "vs = us" using e by simp
  then show ?thesis
    using that b' vs(2) represents_lookup_None [OF c(2)] sim_fields(3) [OF b'(2)] by simp
qed

text \<open>
  C34 In the older copy a filled order stays in the market data: whatever book of the running program an order
  is matched against, and whatever other order it fills completely, both copies take that order out of the
  book. The updates of the current copy then leave no entry for it in the mirror of the snapshot service;
  those of the older copy leave the entry that the mirror had, whatever it was.
\<close>

theorem stale_copy_leaves_filled_order_in_snapshot:
  assumes "reachable b" and "bk_order_index b i \<noteq> None"
    and "stale_matchIncoming cid oid sd p hl q b = Inr (leaves, b')" and "bk_order_index b' i = None"
  shows "\<exists>c us us'. matchIncoming cid oid sd p hl q b = Inr (leaves, c) \<and> bk_order_index c i = None \<and>
    bk_update_queue c = push_all us (bk_update_queue b) \<and> bk_update_queue b' = push_all us' (bk_update_queue b) \<and>
    (\<forall>mirror. fold update_book us mirror i = None) \<and> (\<forall>mirror. fold update_book us' mirror i = mirror i)"
proof -
  obtain a where a: "represents b a" using reachable_sound [OF assms(1)] by blast
  obtain l a' rs us where m: "match_book cid oid sd p hl q a = (l, a', rs, us)" using prod_cases4 by blast
  obtain c where c: "matchIncoming cid oid sd p hl q b = Inr (l, c)" "represents c a'" "effect b rs us c"
    using matchIncoming_ok [OF a m] by blast
  have st: "l = leaves" "lookup_order i a' = None" "bk_update_queue b' = push_all (filter announced us) (bk_update_queue b)"
    using assms(3,4) by (auto intro: stale_matchIncoming_ok [OF a m, of i])
  obtain os where os: "match_orders (ab_symbol a) cid oid sd (beyond_limit sd hl p) q (side_orders (sd \<noteq> BUY) a) = (os, l, rs, us)"
    "a' = set_side (sd \<noteq> BUY) os a"
    by (rule match_book_cases [OF m])
  have i: "i \<in> bo_order_id ` set (side_orders (sd \<noteq> BUY) a)" "i \<notin> bo_order_id ` set os"
    using assms(2) represents_lookup_None [OF a, of i] st(2) os(2)
    by (cases "sd = BUY"; auto simp: lookup_None_iff all_orders_def side_orders_def set_side_def)+
  have "fold update_book us mirror i = None" for mirror
    using match_orders_announces(1) [OF os(1)] match_orders_announces(2) [OF os(1) i] i(2) by (intro mirror_dropped) blast+
  moreover have "fold update_book (filter announced us) mirror i = mirror i" for mirror
    using match_orders_announces(1) [OF os(1)] i(2) by (intro mirror_untouched) (auto simp: announced_def)
  ultimately show ?thesis
    using c st represents_lookup_None [OF c(2), of i] by (auto simp: effect_def)
qed

theorem stale_copy_leaves_filled_order_in_snapshot_witness:
  "\<exists>b b' us'. reachable b \<and> bk_order_index b 11 \<noteq> None \<and> stale_matchIncoming 9 99 SELL 100 True 12 b = Inr (0, b') \<and>
     bk_order_index b' 11 = None \<and> bk_update_queue b' = push_all us' (bk_update_queue b) \<and>
     fold update_book us' [11 \<mapsto> \<lparr>se_order_id = 11, se_side = BUY, se_price = 100, se_qty = 10\<rparr>] 11 =
       Some \<lparr>se_order_id = 11, se_side = BUY, se_price = 100, se_qty = 10\<rparr>"
proof -
  obtain b where b: "represents b sample_book" "reachable b" using sample_exists by blast
  let ?m = "match_book 9 99 SELL 100 True 12 sample_book"
  have f: "lookup_order 11 sample_book \<noteq> None" "lookup_order 11 (fst (snd ?m)) = None" "fst ?m = 0" by code_simp+
  obtain a' rs us where m: "?m = (0, a', rs, us)" using f(3) by (metis prod.collapse)
  obtain b' where b': "stale_matchIncoming 9 99 SELL 100 True 12 b = Inr (0, b')" "bk_order_index b' 11 = None"
    using stale_matchIncoming_ok [OF b(1) m, of 11] f(2) m by auto
  have i: "bk_order_index b 11 \<noteq> None" using f(1) represents_lookup_None [OF b(1)] by simp
  obtain us' where "bk_update_queue b' = push_all us' (bk_update_queue b)" "\<forall>mirror. fold update_book us' mirror 11 = mirror 11"
    using stale_copy_leaves_filled_order_in_snapshot [OF b(2) i b'] by blast
  then show ?thesis using b(2) b' i by (intro exI [of _ b] exI [of _ b'] exI [of _ us']) simp
qed


end
