(* ===== verification/MainProgram.thy ===== *)
theory MainProgram
  imports System
begin

text \<open>
  What the program tells its caller: the messages that \<open>main\<close> writes to standard error and its exit status, on every
  path through exchange_main.cpp, and that no line of the input file goes unnoticed.
\<close>

section \<open>Standard error and exit status\<close>

definition newline :: string where "newline = [CHR 0x0A]"

text \<open>A line that is no order is reported unless it is empty or a comment.\<close>

definition is_reported :: "string \<Rightarrow> bool" where
  "is_reported line \<longleftrightarrow> line \<noteq> [] \<and> hd line \<noteq> CHR ''#''"

definition skip_message :: "string \<Rightarrow> string" where
  "skip_message line = ''skipping malformed line: '' @ line @ newline"

text \<open>The messages of the reading loop, up to the exception that ends it, if there is one.\<close>

fun read_messages :: "string list \<Rightarrow> string" where
  "read_messages [] = []"
| "read_messages (line # lines) =
     (case parseLine line of
        Inl e \<Rightarrow> []
      | Inr (Some req) \<Rightarrow> read_messages lines
      | Inr None \<Rightarrow> (if is_reported line then skip_message line else []) @ read_messages lines)"

definition output_message :: "string list \<Rightarrow> (string \<Rightarrow> bool) \<Rightarrow> string" where
  "output_message argv can_open =
     (if length argv \<ge> 3 \<and> \<not> can_open (argv ! 2)
      then ''could not open output file '' @ argv ! 2 @ '', writing to stdout instead'' @ newline else [])"

text \<open>
  What \<open>main\<close> itself writes to standard error, and its status, when no assertion ends the process in a
  thread: the status is \<open>None\<close> when an exception of a number conversion ends the program. The lines that
  \<open>createAndStartThread\<close> and the destructor of a \<open>Logger\<close> write to the same stream, with the thread handle and
  the wall clock in them, are not part of it. The first element of \<open>argv\<close> is the
  name of the program, \<open>files\<close> gives the lines of the files that can be read and \<open>can_open\<close> tells which output files can
  be opened.
\<close>

record Outcome =
  out_stderr :: string
  out_status :: "int option"

definition main_outcome :: "string list \<Rightarrow> (string \<rightharpoonup> string list) \<Rightarrow> (string \<Rightarrow> bool) \<Rightarrow> Outcome" where
  "main_outcome argv files can_open =
     (let said = (if length argv < 2 then [] else case files (argv ! 1) of None \<Rightarrow> [] | Some lines \<Rightarrow> read_messages lines) in
      case main_begin argv files of
        Inl e \<Rightarrow> \<lparr>out_stderr = said, out_status = None\<rparr>
      | Inr (Exit_1 message) \<Rightarrow> \<lparr>out_stderr = said @ message @ newline, out_status = Some 1\<rparr>
      | Inr (Goes_on orders symbols) \<Rightarrow> \<lparr>out_stderr = said @ output_message argv can_open, out_status = Some 0\<rparr>)"

section \<open>Every line is accounted for\<close>

text \<open>The lines that do not throw, those that are reported, and the orders of the others.\<close>

definition converts :: "string \<Rightarrow> bool" where
  "converts line \<longleftrightarrow> (case parseLine line of Inl e \<Rightarrow> False | Inr r \<Rightarrow> True)"

definition malformed :: "string \<Rightarrow> bool" where
  "malformed line \<longleftrightarrow> parseLine line = Inr None \<and> line \<noteq> [] \<and> hd line \<noteq> CHR ''#''"

definition parsed_orders :: "string list \<Rightarrow> EngineOrderRequest list" where
  "parsed_orders = List.map_filter (\<lambda>line. case parseLine line of Inr (Some req) \<Rightarrow> Some req | _ \<Rightarrow> None)"

lemma read_messages_lines: "read_messages lines = concat (map skip_message (filter malformed (takeWhile converts lines)))"
  by (induction lines) (auto simp: converts_def malformed_def is_reported_def split: sum.splits option.splits)

lemma read_orders_lines:
  "list_all converts lines \<Longrightarrow> read_orders lines = Inr (parsed_orders lines, filter malformed lines)"
  "\<not> list_all converts lines \<Longrightarrow> \<exists>e. read_orders lines = Inl e"
proof (induction lines)
  case (Cons line lines)
  case 1
  then show ?case using Cons.IH(1)
    by (auto simp: converts_def malformed_def parsed_orders_def List.map_filter_simps split: sum.splits option.splits)
next
  case (Cons line lines)
  case 2
  then show ?case using Cons.IH by (cases "list_all converts lines") (auto simp: converts_def split: sum.splits)
qed (simp_all add: parsed_orders_def List.map_filter_simps)

lemma main_begin_lines:
  assumes "2 \<le> length argv" and "files (argv ! 1) = Some lines"
  shows "list_all converts lines \<Longrightarrow> main_begin argv files = Inr (if parsed_orders lines = [] then Exit_1 (''no valid orders found in '' @ argv ! 1)
      else Goes_on (parsed_orders lines) (symbols_of (parsed_orders lines)))"
    and "\<not> list_all converts lines \<Longrightarrow> \<exists>e. main_begin argv files = Inl e"
  using assms read_orders_lines [of lines] by (auto simp: main_begin_def main_orders_def)

text \<open>
  C30 No line of the input goes unnoticed. \<open>main\<close> writes to standard error one message for every line that is neither
  an order nor empty nor a comment, in the order of the file and up to the first line with a number that
  cannot be converted. Without such a line the program submits the orders of all other lines in the
  order of the file and ends with status 0, or with status 1 and a message when there is none; with such
  a line it ends by an exception and says nothing more.
\<close>

theorem every_line_is_accounted_for:
  assumes "2 \<le> length argv" and "files (argv ! 1) = Some lines"
  shows "(if list_all converts lines then
       main_begin argv files = Inr (if parsed_orders lines = [] then Exit_1 (''no valid orders found in '' @ argv ! 1)
         else Goes_on (parsed_orders lines) (symbols_of (parsed_orders lines)))
     else \<exists>e. main_begin argv files = Inl e) \<and>
    out_status (main_outcome argv files can_open) =
      (if list_all converts lines then Some (if parsed_orders lines = [] then 1 else 0) else None) \<and>
    out_stderr (main_outcome argv files can_open) =
      concat (map (\<lambda>line. ''skipping malformed line: '' @ line @ [CHR 0x0A])
        (filter (\<lambda>line. parseLine line = Inr None \<and> line \<noteq> [] \<and> hd line \<noteq> CHR ''#'') (takeWhile converts lines))) @
      (if \<not> list_all converts lines then []
       else if parsed_orders lines = [] then ''no valid orders found in '' @ argv ! 1 @ [CHR 0x0A]
       else if length argv < 3 \<or> can_open (argv ! 2) then []
       else ''could not open output file '' @ argv ! 2 @ '', writing to stdout instead'' @ [CHR 0x0A])"
proof -
  have said: "read_messages lines = concat (map (\<lambda>line. ''skipping malformed line: '' @ line @ [CHR 0x0A])
      (filter (\<lambda>line. parseLine line = Inr None \<and> line \<noteq> [] \<and> hd line \<noteq> CHR ''#'') (takeWhile converts lines)))"
    by (simp add: read_messages_lines skip_message_def [abs_def] malformed_def [abs_def] newline_def)
  note starts = main_begin_lines [of argv files lines, OF assms]
  show ?thesis
  proof (cases "list_all converts lines")
    case True
    then show ?thesis using assms starts(1) by (auto simp: main_outcome_def said output_message_def newline_def)
  next
    case False
    then obtain e where "main_begin argv files = Inl e" using starts(2) by blast
    then show ?thesis using assms False by (simp add: main_outcome_def said)
  qed
qed

text \<open>An order, a comment, an empty line, a line without all fields and a line with an unknown type.\<close>

definition sample_lines :: "string list" where
  "sample_lines = [''# sample'', ''LIMIT,1,ACME,42,BUY,100,10'', ''LIMIT,1,ACME,43'', [], ''STOP,1,ACME,44,BUY,100,10'']"

lemma sample_lines_parse:
  "parseLine ''# sample'' = Inr None" "parseLine ''LIMIT,1,ACME,43'' = Inr None" "parseLine [] = Inr None"
  "parseLine ''STOP,1,ACME,44,BUY,100,10'' = Inr None"
  "parseLine ''LIMIT,1,ACME,42,BUY,100,10'' = Inr (Some (sample_line_request\<lparr>req_recv_time := 0\<rparr>))"
proof -
  show "parseLine ''# sample'' = Inr None" "parseLine [] = Inr None" by (simp_all add: parseLine_def)
  show "parseLine ''LIMIT,1,ACME,43'' = Inr None" by code_simp
  show "parseLine ''STOP,1,ACME,44,BUY,100,10'' = Inr None" by code_simp
  have "csv_line sample_line_request = ''LIMIT,1,ACME,42,BUY,100,10''" by code_simp
  then show "parseLine ''LIMIT,1,ACME,42,BUY,100,10'' = Inr (Some (sample_line_request\<lparr>req_recv_time := 0\<rparr>))"
    using parseLine_csv [of sample_line_request] by (simp add: sample_line_request_def)
qed

lemma sample_lines_read: "list_all converts sample_lines" "parsed_orders sample_lines \<noteq> []"
  "filter (\<lambda>line. parseLine line = Inr None \<and> line \<noteq> [] \<and> hd line \<noteq> CHR ''#'') (takeWhile converts sample_lines) =
    [''LIMIT,1,ACME,43'', ''STOP,1,ACME,44,BUY,100,10'']"
  using sample_lines_parse by (auto simp: sample_lines_def converts_def parsed_orders_def List.map_filter_simps)

theorem every_line_is_accounted_for_witness:
  "out_status (main_outcome [''exchange_main'', ''in.csv''] [''in.csv'' \<mapsto> sample_lines] (\<lambda>_. True)) = Some 0 \<and>
   out_stderr (main_outcome [''exchange_main'', ''in.csv''] [''in.csv'' \<mapsto> sample_lines] (\<lambda>_. True)) =
     ''skipping malformed line: LIMIT,1,ACME,43'' @ [CHR 0x0A] @ ''skipping malformed line: STOP,1,ACME,44,BUY,100,10'' @ [CHR 0x0A]"
  using every_line_is_accounted_for [of "[''exchange_main'', ''in.csv'']" "[''in.csv'' \<mapsto> sample_lines]" sample_lines "\<lambda>_. True"] sample_lines_read
  by (auto split: if_splits)

end
