(* ===== verification/Spec2Isabelle.thy ===== *)
theory Spec2Isabelle
  imports OrderProperties Benchmark TestSuite QueueConcurrency LoggerLife StaleBook MainProgram
begin

text \<open>
  A verification of the matching engine under src/: an exchange in C++ with one limit order book per
  symbol, price-time priority, LIMIT, MARKET, IOC, CANCEL and MODIFY requests, a gateway that sequences
  requests by receive time, one matching thread per symbol and a market data feed with snapshots.

  \<^bold>\<open>The parts and how they interact.\<close> \<open>exchange_main.cpp\<close> reads orders from a file, builds the
  \<open>MatchingCore\<close> for the symbols it has seen, wires the \<open>OrderGatewayServer\<close> and the \<open>MarketDataFeed\<close> to
  its queues, submits every order and prints responses and updates. \<open>submit\<close> stamps a request and puts
  it into the inbox; the gateway thread moves the inbox into the \<open>RequestSequencer\<close>, which sorts by receive
  time and calls \<open>routeRequest\<close>; that writes the request to the queue of its symbol. A matching thread
  takes requests off its queue, validates them and calls the \<open>SymbolOrderBook\<close>, which writes responses
  and book updates to the two outgoing queues of the symbol. The gateway drains the responses into a
  callback, the feed drains the updates into its subscribers and into the queue of the
  \<open>BookSnapshotService\<close>, which mirrors all books. All queues are \<open>LFQueue\<close> ring buffers, all orders and
  price levels live in \<open>MemPool\<close> blocks.

  \<^bold>\<open>Theories.\<close>
  \<^item> \<open>Prelude\<close>: errors (each \<open>ASSERT\<close> of Common/macros.h, undefined pointer accesses, exhausted fuel), the
    result type and shared lemmas. \<open>Types\<close>: Common/types.h and the message structs with their text forms.
  \<^item> \<open>LFQueue\<close>: Common/lock_free_queue.h, the locales \<open>fifo\<close> and \<open>bounded_fifo\<close> for what producers and
    consumers rely on, and the drain loop that four components share. \<open>QueueConcurrency\<close>: the same queue
    with a producer and a consumer that interleave at every memory access, and what two producers do to
    each other. \<open>MemPool\<close>: Common/memory_pool.h
    with the locale \<open>allocator\<close>. \<open>StdMap\<close>: the operations of \<open>std::map\<close> the book uses, with the locale
    \<open>map_order\<close> for its comparison.
  \<^item> \<open>OrderBook\<close>: matcher/order_book.cpp, order_book.h and book_order.h at pointer level: pools, intrusive
    lists, price maps, id index, and every operation of the class.
  \<^item> \<open>BookSpec\<close>: the abstract book (two priority-ordered lists of orders) and what each request does to it.
    \<open>BookMatching\<close>: matching as a greedy allocation. \<open>BookInvariant\<close>: every request keeps the abstract
    book sound.
  \<^item> \<open>BookHeap\<close>, \<open>BookRefinement\<close>, \<open>BookView\<close>, \<open>BookOps\<close>: the representation of an abstract book by linked
    blocks, and that every pointer-level operation implements its specification.
  \<^item> \<open>MatchingCore\<close>: matcher/matching_core.h, the locale \<open>refining_machine\<close> that lifts one refined step to
    runs, and the reachable books. \<open>BookProperties\<close>, \<open>OrderProperties\<close>: what books and requests guarantee.
  \<^item> \<open>Gateway\<close>: order_server/request_sequencer.h and order_server.h, with the locale \<open>request_sort\<close> for the
    promise of \<open>std::sort\<close>. \<open>MarketData\<close>: market_data/market_data_feed.h and book_snapshot_service.h.
    \<open>Csv\<close>: the input half of exchange_main.cpp. \<open>Logging\<close>: Common/logging.h. \<open>LoggerLife\<close>: its background
    thread and its destructor.
  \<^item> \<open>System\<close>: the objects of \<open>main\<close> wired together, the steps of all threads, runs of arbitrary
    interleavings, and the rest of \<open>main\<close>. \<open>SystemInvariant\<close>: the invariant of these runs. \<open>Lifecycle\<close>:
    Common/threads.h, and the \<open>start\<close>, \<open>stop\<close> and \<open>run\<close> methods with the position of every thread in its
    loop; its programs are runs of \<open>System\<close>. \<open>MainProgram\<close>: what \<open>main\<close> writes to standard error and its exit
    status.
  \<^item> \<open>Capacity\<close>: how many messages requests can cause, and that the queues and pools of the source are
    large enough for 8191 requests. \<open>Completion\<close>: within that limit the pending work of any run can be
    finished. \<open>Clock\<close>: books without their time stamps. \<open>Messages\<close>: the form and the origin of responses
    and updates.
  \<^item> \<open>TestSuite\<close>: tests/test_order_book.cpp, the harness as steps on the matching core and the tests as
    data. \<open>Benchmark\<close>: benchmarks/benchmark_main.cpp, its orders, its counters and its polling loop as a
    client of the gateway, and its summary. \<open>StaleBook\<close>: market_data/order_book.cpp, an older copy of the
    book that the build leaves out, with the constructor it calls and the repository no longer has as a
    parameter, compared method by method with the current one. The properties that span components are
    below.

  \<^bold>\<open>State and operations.\<close> Classes are records with the fields of the source; a method is a definition of
  the same name that takes the state and returns the new one, as \<open>error + state\<close> where the code can end
  the process. Identifiers and quantities are 64-bit words; prices and times are integers, since the
  code only compares and copies them (the snapshot timer subtracts two clock readings). A pointer
  into a pool is the index of its block, \<open>None\<close> is the null pointer. The clock is an argument. Log
  calls have no effect on the other components and are left out of them.

  \<^bold>\<open>What is shown.\<close> Every reachable book is well formed, and a request on the pointer-level book
  implements the abstract specification or stops on an exhausted pool; matching is price-time priority
  and conserves quantity; each order type, cancel and modify keeps its promises; the queue is a
  first-in first-out channel while it has room; the sequencer routes by receive time within one flush;
  the snapshot mirrors the book. The two processes of a queue interleave safely while no write starts on a full
  queue. For the running system, every interleaving without queue overflow gives
  each symbol the effects of a sequential run of its routed requests, no step touches freed memory, the
  snapshot catches up with the book, and a quiet program has answered every order. A stopped program comes
  to an end, with at most one more request processed per symbol; closing a logger ends and loses no line
  that its queue had room for. On inputs of fewer than 8192 orders nothing is left to assume: no interleaving
  overflows a request, response, update or snapshot queue or exhausts a pool, and every state can go on to a quiet one; \<open>n\<close> requests cause at most \<open>5 n\<close> responses and
  \<open>5 n\<close> updates. Messages are well formed and belong to submitted orders, the clock decides nothing, the
  test program passes under every schedule and the benchmark counts every order once, as long as no queue
  overflows, which fewer than 8192 orders cannot cause. Every line of the
  input is an order, a reported line or passed over as a comment, up to the first number that cannot be
  converted. Each method of the older copy of the book does what the current one does, but for the removal
  notices of filled orders, which leaves these in the snapshots. Several theorems show
  where the code does not keep its documentation: lost updates on overflow, the pool that gives up one
  block early, a phantom snapshot entry after a repriced order fills completely, invalid sides,
  unordered equal receive times, uncaught exceptions on malformed numbers, log lines lost between
  producers.

  \<^bold>\<open>Bounds and fuel.\<close> The loops over pool blocks, list nodes, price levels and queue elements carry fuel:
  the pool size for the free-block search and for the nodes of a level, the number of price levels for the
  outer matching loop, the element count for a drain. The fuel is always enough: the refinement theorems allow no error but the
  exhausted pool, and the drain lemmas show the complete result. Queue, pool and buffer sizes are
  arguments; the constants of the source are the definitions \<open>SYMBOL_QUEUE_SIZE\<close>, \<open>MAX_RESTING_ORDERS\<close>,
  \<open>MAX_PRICE_LEVELS\<close>, \<open>SNAPSHOT_QUEUE_SIZE\<close>, \<open>MAX_PENDING_GATEWAY_REQUESTS\<close> and \<open>LOG_QUEUE_SIZE\<close>.

  \<^bold>\<open>Not modelled.\<close> Setting the affinity of a thread (a parameter), sleeping and the clock (Common/time.h)
  belong to the operating system. The steps of the running system are atomic; \<open>QueueConcurrency\<close> justifies
  this for the queues under sequentially consistent memory accesses, weaker orders are not modelled. The queues of the
  loggers are not part of the running system: the log calls of the other components are left out, and
  their lines can be lost when a log queue is full or has several producers.
  \<open>stop\<close> joins no thread, so the destructors at the end of \<open>main\<close> may run beside threads that have not left their
  loops; runs end before that. Opening files is I/O. The walk order of an \<open>unordered_map\<close> is
  unspecified, so snapshots are sets. The tests sleep until the
  engine has come to rest, which is an assumption of their theorem; the benchmark computes its mean and
  percentile indices in floating point: the mean and the throughput are left out, the indices and the
  random numbers are parameters. The directory build/ is generated.
\<close>

section \<open>The running exchange\<close>

definition demo_events :: "event list" where
  "demo_events = [Submit 1 demo_request, Sequence, Route, Match ''A'' 10, Publish 0, Apply, Respond 0]"

lemma demo_run:
  obtains ex where "exchange_run 8 (sort_key req_recv_time) [''A''] [tag (1, demo_request)] [tag (1, demo_request)] ex"
    and "quiet [''A''] ex" and "num_elements (fd_snapshot_feed (ex_feed ex)) = 0"
    and "ex_response_lines ex = [EngineOrderResponse_toString (mk_response ACCEPTED 1 ''A'' 7 7 BUY 5 0 9)]"
proof -
  let ?ex = "mk_exchange 2 2 2 2 [''A'']"
  let ?run = "run_events 8 (sort_key req_recv_time) [''A''] demo_events ([], [], ?ex)"
  have "map_option (\<lambda>(subs, log, ex). (subs, log, quiet [''A''] ex, num_elements (fd_snapshot_feed (ex_feed ex)), ex_response_lines ex)) ?run =
      Some ([tag (1, demo_request)], [tag (1, demo_request)], True, 0,
        [EngineOrderResponse_toString (mk_response ACCEPTED 1 ''A'' 7 7 BUY 5 0 9)])"
    by code_simp
  then obtain ex where ex: "?run = Some ([tag (1, demo_request)], [tag (1, demo_request)], ex)" "quiet [''A''] ex"
    "num_elements (fd_snapshot_feed (ex_feed ex)) = 0"
    "ex_response_lines ex = [EngineOrderResponse_toString (mk_response ACCEPTED 1 ''A'' 7 7 BUY 5 0 9)]"
    by (auto split: prod.splits)
  have "exchange_run 8 (sort_key req_recv_time) [''A''] [] [] ?ex" by (rule exchange_run.start) simp_all
  then show ?thesis using that run_events_run [OF _ ex(1)] ex(2-4) by blast
qed

text \<open>
  C2 Every interleaving of the threads is equivalent to a sequential run, symbol by symbol: as long as
  no queue overflows, the book of a symbol, the responses that were delivered or are still queued for
  it and the market updates that were published or are still queued are those of processing a prefix of
  its routed requests one after the other, starting from the empty book; the rest of its routed
  requests is its request queue.
\<close>

theorem exchange_is_sequential_per_symbol:
  assumes "distinct symbols" and "sort_contract srt" and "exchange_run cap srt symbols subs log ex"
  shows "\<exists>delivered published. ex_response_lines ex = map EngineOrderResponse_toString delivered \<and>
    ex_update_lines ex = map BookUpdate_toString published \<and>
    (\<forall>sy \<in> set symbols. \<exists>ctx hist a. mc_contexts (ex_core ex) sy = Some ctx \<and> represents (ctx_book ctx) a \<and>
       map snd hist @ contents (ctx_request_queue ctx) = for_symbol sy log \<and>
       spec_all (\<lambda>(now, req). spec_request now req) hist (empty_abook sy) =
         (a, filter (\<lambda>r. rsp_symbol r = sy) delivered @ contents (bk_response_queue (ctx_book ctx)),
          filter (\<lambda>u. upd_symbol u = sy) published @ contents (bk_update_queue (ctx_book ctx))))"
proof -
  obtain D P A where inv: "exchange_inv symbols subs log D P A ex" using exchange_run_inv [OF assms] by blast
  have "\<exists>ctx hist a. mc_contexts (ex_core ex) sy = Some ctx \<and> represents (ctx_book ctx) a \<and>
      map snd hist @ contents (ctx_request_queue ctx) = for_symbol sy log \<and>
      sequential sy hist a (of_symbol sy D @ contents (bk_response_queue (ctx_book ctx)))
        (updates_of sy P @ contents (bk_update_queue (ctx_book ctx)))" if "sy \<in> set symbols" for sy
    using symbol_inv_sequential [OF inv that] by metis
  then show ?thesis
    using inv unfolding sequential_def
    by (intro exI [of _ D] exI [of _ P]) (simp add: exchange_inv_def feed_inv_def)
qed

theorem exchange_is_sequential_per_symbol_witness:
  "\<exists>ex ctx hist a rs us. exchange_run 8 (sort_key req_recv_time) [''A''] [tag (1, demo_request)] [tag (1, demo_request)] ex \<and>
     mc_contexts (ex_core ex) ''A'' = Some ctx \<and> represents (ctx_book ctx) a \<and>
     map snd hist @ contents (ctx_request_queue ctx) = [tag (1, demo_request)] \<and>
     spec_all (\<lambda>(now, req). spec_request now req) hist (empty_abook ''A'') = (a, rs, us)"
proof -
  obtain ex where ex: "exchange_run 8 (sort_key req_recv_time) [''A''] [tag (1, demo_request)] [tag (1, demo_request)] ex"
    using demo_run by blast
  have "for_symbol ''A'' [tag (1, demo_request)] = [tag (1, demo_request)]" by code_simp
  then show ?thesis
    using exchange_is_sequential_per_symbol [OF _ sort_key_contract ex] ex by fastforce
qed

text \<open>
  C12 The only way a step of the running exchange can end the process is an exhausted memory pool: with
  distinct symbols no thread ever follows a dangling queue pointer, reads an empty queue or touches
  freed memory, in any interleaving without queue overflow.
\<close>

theorem exchange_only_fails_on_full_pool:
  assumes "distinct symbols" and "sort_contract srt" and "exchange_run cap srt symbols subs log ex"
    and "exchange_step cap srt ev ex = Inl e"
  shows "e = PoolOutOfSpace"
  using exchange_run_inv [OF assms(1-3)] exchange_step_error [OF _ assms(4)] by blast

theorem exchange_only_fails_on_full_pool_witness:
  "\<exists>e. exchange_step 8 (sort_key req_recv_time) (Match ''A'' 10)
      (route_step (sequence_step 8 (sort_key req_recv_time) (submit_step 1 demo_request (mk_exchange 2 1 1 2 [''A''])))) = Inl e \<and>
     e = PoolOutOfSpace"
proof -
  let ?srt = "sort_key req_recv_time" and ?ex = "mk_exchange 2 1 1 2 [''A'']"
  let ?run = "run_events 8 ?srt [''A''] [Submit 1 demo_request, Sequence, Route] ([], [], ?ex)"
  have "map_option (\<lambda>_. ()) ?run = Some ()" by code_simp
  then obtain subs log where run: "?run = Some (subs, log, route_step (sequence_step 8 ?srt (submit_step 1 demo_request ?ex)))"
    by (auto split: if_splits)
  have "exchange_run 8 ?srt [''A''] [] [] ?ex" by (rule exchange_run.start) simp_all
  note r = run_events_run [OF this run]
  have "\<not> isl (exchange_step 8 ?srt (Match ''A'' 10) (route_step (sequence_step 8 ?srt (submit_step 1 demo_request ?ex)))) \<longleftrightarrow> False"
    by code_simp
  then obtain e where e: "exchange_step 8 ?srt (Match ''A'' 10) (route_step (sequence_step 8 ?srt (submit_step 1 demo_request ?ex))) = Inl e"
    by (auto simp: isl_def)
  then show ?thesis using exchange_only_fails_on_full_pool [OF _ sort_key_contract r e] by simp
qed

text \<open>
  C7 Market data catches up with the book: in a run without queue overflow, when the update queue of a symbol and the snapshot queue are
  empty, the snapshot of the symbol holds exactly the orders that rest in its book, with side, price and
  open quantity, provided that no processed request repriced an order away.
\<close>

theorem snapshot_catches_up_with_book:
  assumes "distinct symbols" and "sort_contract srt" and "exchange_run cap srt symbols subs log ex" and "sy \<in> set symbols"
    and "mc_contexts (ex_core ex) sy = Some ctx" and "num_elements (bk_update_queue (ctx_book ctx)) = 0"
    and "num_elements (fd_snapshot_feed (ex_feed ex)) = 0"
  shows "\<exists>hist a. map snd hist @ contents (ctx_request_queue ctx) = for_symbol sy log \<and> represents (ctx_book ctx) a \<and>
    (never_repriced_away hist (empty_abook sy) \<longrightarrow>
       snapshotFor sy (ex_snapshots ex) = entry_of ` set (all_orders a))"
proof -
  obtain D P A where inv: "exchange_inv symbols subs log D P A ex" using exchange_run_inv [OF assms(1-3)] by blast
  obtain hist a where h: "map snd hist @ contents (ctx_request_queue ctx) = for_symbol sy log"
    "sequential sy hist a (of_symbol sy D @ contents (bk_response_queue (ctx_book ctx))) (updates_of sy P)" "represents (ctx_book ctx) a"
    using symbol_inv_sequential [OF inv assms(4)] assms(5,6) by (metis append_Nil2 contents_empty option.inject)
  have "contents (fd_snapshot_feed (ex_feed ex)) = []" using assms(7) by (simp add: contents_empty)
  then have "mirrored sy (ex_snapshots ex) = fold update_book (updates_of sy P) Map.empty"
    using inv by (simp add: exchange_inv_def feed_inv_def)
  then show ?thesis using h snapshot_of_history [OF h(2)] by blast
qed

theorem snapshot_catches_up_with_book_witness:
  "\<exists>ex ctx a. exchange_run 8 (sort_key req_recv_time) [''A''] [tag (1, demo_request)] [tag (1, demo_request)] ex \<and>
     mc_contexts (ex_core ex) ''A'' = Some ctx \<and> represents (ctx_book ctx) a \<and>
     snapshotFor ''A'' (ex_snapshots ex) = entry_of ` set (all_orders a)"
proof -
  obtain ex where ex: "exchange_run 8 (sort_key req_recv_time) [''A''] [tag (1, demo_request)] [tag (1, demo_request)] ex"
    "quiet [''A''] ex" "num_elements (fd_snapshot_feed (ex_feed ex)) = 0"
    using demo_run by blast
  obtain ctx where ctx: "mc_contexts (ex_core ex) ''A'' = Some ctx"
    using exchange_run_inv [OF _ sort_key_contract ex(1)] by (auto elim!: symbol_inv_sequential [where sy = "''A''"])
  then have n: "num_elements (bk_update_queue (ctx_book ctx)) = 0" "contents (ctx_request_queue ctx) = []"
    using ex(2) by (simp_all add: quiet_def contents_empty)
  have d: "distinct [''A'']" "''A'' \<in> set [''A'']" by simp_all
  have one: "for_symbol ''A'' [tag (1, demo_request)] = [tag (1, demo_request)]" by code_simp
  obtain hist a where h: "map snd hist = [tag (1, demo_request)]" "represents (ctx_book ctx) a"
    "never_repriced_away hist (empty_abook ''A'') \<longrightarrow> snapshotFor ''A'' (ex_snapshots ex) = entry_of ` set (all_orders a)"
    using snapshot_catches_up_with_book [OF d(1) sort_key_contract ex(1) d(2) ctx n(1) ex(3)] unfolding n(2) one append_Nil2 by metis
  then have "never_repriced_away hist (empty_abook ''A'')"
    by (auto simp: repriced_away_def Let_def tag_def demo_request_def)
  then show ?thesis using h(2,3) ex(1) ctx by blast
qed

text \<open>
  C8 The program answers every order of its input: when a run without queue overflow of the exchange that \<open>main\<close> builds for the
  symbols of the parsed orders has submitted exactly these orders and has gone quiet, every order was
  routed exactly once, no response is a refusal for an unknown symbol, and the report lists, for each
  symbol, the responses and book updates of processing its orders one after the other in routing order.
\<close>

theorem quiet_program_has_answered_every_order:
  assumes "main_begin argv files = Inr (Goes_on orders symbols)" and "sort_contract srt"
    and "exchange_run cap srt symbols (concat (map submitted_by (main_submissions nows orders))) log ex"
    and "length nows = length orders" and "quiet symbols ex"
  shows "mset log = mset (concat (map submitted_by (main_submissions nows orders))) \<and>
    (\<exists>delivered published. report orders symbols ex =
       ''orders read: '' @ show_nat (length orders) @ '', symbols: '' @ comma_separated symbols
       @ [CHR 0x0A, CHR 0x0A] @ ''--- responses ---'' @ [CHR 0x0A]
       @ concat (map (\<lambda>r. EngineOrderResponse_toString r @ [CHR 0x0A]) delivered)
       @ [CHR 0x0A] @ ''--- book updates ---'' @ [CHR 0x0A]
       @ concat (map (\<lambda>u. BookUpdate_toString u @ [CHR 0x0A]) published) \<and>
     (\<forall>r \<in> set delivered. rsp_symbol r \<in> set symbols) \<and>
     (\<forall>sy \<in> set symbols. \<exists>hist a. map snd hist = for_symbol sy log \<and>
        spec_all (\<lambda>(now, req). spec_request now req) hist (empty_abook sy) =
          (a, filter (\<lambda>r. rsp_symbol r = sy) delivered, filter (\<lambda>u. upd_symbol u = sy) published)))"
proof -
  note subs = submitted_main [of nows orders]
  have sys: "distinct symbols" "set symbols = req_symbol ` set orders"
    using main_begin_symbols(1) [OF assms(1)] symbols_of_ok [of orders] by auto
  obtain D P A where inv: "exchange_inv symbols (map2 (\<lambda>now req. tag (now, req)) nows orders) log D P A ex"
    using exchange_run_inv [OF sys(1) assms(2,3)] unfolding subs by blast
  have log: "mset log = mset (map2 (\<lambda>now req. tag (now, req)) nows orders)"
    using inv assms(5) by (simp add: exchange_inv_def gateway_inv_def quiet_def)
  have "req_symbol r \<in> set symbols" if "r \<in> set log" for r
  proof -
    have "r \<in> set (map2 (\<lambda>now req. tag (now, req)) nows orders)" using that log mset_eq_setD by metis
    then show ?thesis unfolding sys(2) by (auto simp: tag_def dest: set_zip_rightD)
  qed
  then have "filter (\<lambda>r. req_symbol r \<notin> set symbols) log = []" by (auto simp: filter_empty_conv)
  then have "filter (\<lambda>r. rsp_symbol r \<notin> set symbols) D = []" using inv by (simp add: exchange_inv_def core_inv_def)
  then have known: "\<forall>r \<in> set D. rsp_symbol r \<in> set symbols" by (auto simp: filter_empty_conv)
  have seq: "\<exists>hist a. map snd hist = for_symbol sy log \<and> sequential sy hist a (of_symbol sy D) (updates_of sy P)" if "sy \<in> set symbols" for sy
    using symbol_inv_sequential [OF inv that] quiet_contents [OF assms(5) that] by (metis append_Nil2)
  have "report orders symbols ex = ''orders read: '' @ show_nat (length orders) @ '', symbols: '' @ comma_separated symbols
       @ [CHR 0x0A, CHR 0x0A] @ ''--- responses ---'' @ [CHR 0x0A]
       @ concat (map (\<lambda>r. EngineOrderResponse_toString r @ [CHR 0x0A]) D)
       @ [CHR 0x0A] @ ''--- book updates ---'' @ [CHR 0x0A]
       @ concat (map (\<lambda>u. BookUpdate_toString u @ [CHR 0x0A]) P)"
    using inv by (simp add: report_def exchange_inv_def feed_inv_def comp_def)
  then show ?thesis using log known seq unfolding sequential_def subs by blast
qed

theorem quiet_program_has_answered_every_order_witness:
  "\<exists>log ex. exchange_run 8 (sort_key req_recv_time) [''A''] [tag (1, demo_request)] log ex \<and> quiet [''A''] ex \<and>
     mset log = {#tag (1, demo_request)#}"
proof -
  obtain ex where ex: "exchange_run 8 (sort_key req_recv_time) [''A''] [tag (1, demo_request)] [tag (1, demo_request)] ex" "quiet [''A''] ex"
    using demo_run by blast
  have "exchange_run 8 (sort_key req_recv_time) [''A''] (concat (map submitted_by (main_submissions [1] [demo_request]))) [tag (1, demo_request)] ex"
    using ex(1) by (simp add: submitted_main)
  then show ?thesis
    using quiet_program_has_answered_every_order [OF demo_input sort_key_contract _ _ ex(2)] ex by (auto simp: submitted_main)
qed

text \<open>
  C11 Every message of the exchange is well formed and belongs to a submitted order: in every interleaving
  of the threads without queue overflow, each line given to the response callback is the text of a
  response with a status, whose fills have a quantity and a price, whose refusals carry no market order
  id, and whose symbol, client and order id are those of one submitted request; each line given to the
  update callback is the text of an update with a type, a positive price and, unless it is a
  cancellation, a quantity, for the symbol and order id of one submitted request.
\<close>

theorem messages_are_well_formed:
  assumes "distinct symbols" and "sort_contract srt" and "exchange_run cap srt symbols subs log ex"
  shows "\<exists>responses updates. ex_response_lines ex = map EngineOrderResponse_toString responses \<and>
    ex_update_lines ex = map BookUpdate_toString updates \<and>
    (\<forall>r \<in> set responses. well_formed_response r \<and>
      (\<exists>q \<in> set subs. req_symbol q = rsp_symbol r \<and> req_client_id q = rsp_client_id r \<and> req_order_id q = rsp_client_order_id r)) \<and>
    (\<forall>u \<in> set updates. well_formed_update u \<and> (\<exists>q \<in> set subs. req_symbol q = upd_symbol u \<and> req_order_id q = upd_order_id u))"
proof -
  obtain D P A where inv: "exchange_inv symbols subs log D P A ex" using exchange_run_inv [OF assms] by blast
  have lines: "ex_response_lines ex = map EngineOrderResponse_toString D" "ex_update_lines ex = map BookUpdate_toString P"
    using inv by (simp_all add: exchange_inv_def feed_inv_def)
  show ?thesis
    using exchange_messages [OF inv] routed_were_submitted [OF inv] lines
    by (intro exI [of _ D] exI [of _ P]) (fastforce simp: request_key_def response_key_def)
qed

theorem messages_are_well_formed_witness:
  "\<exists>ex r. exchange_run 8 (sort_key req_recv_time) [''A''] [tag (1, demo_request)] [tag (1, demo_request)] ex \<and>
     ex_response_lines ex = [EngineOrderResponse_toString r] \<and> well_formed_response r \<and>
     rsp_symbol r = ''A'' \<and> rsp_client_id r = 1 \<and> rsp_client_order_id r = 7"
proof -
  obtain ex where ex: "exchange_run 8 (sort_key req_recv_time) [''A''] [tag (1, demo_request)] [tag (1, demo_request)] ex"
    "ex_response_lines ex = [EngineOrderResponse_toString (mk_response ACCEPTED 1 ''A'' 7 7 BUY 5 0 9)]"
    using demo_run by blast
  have t: "req_symbol (tag (1, demo_request)) = ''A''" "req_client_id (tag (1, demo_request)) = 1" "req_order_id (tag (1, demo_request)) = 7"
    by (simp_all add: tag_def demo_request_def)
  have "distinct [''A'']" by simp
  then obtain rs where rs: "ex_response_lines ex = map EngineOrderResponse_toString rs"
    "\<forall>r \<in> set rs. well_formed_response r \<and> (\<exists>q \<in> set [tag (1, demo_request)]. req_symbol q = rsp_symbol r \<and>
       req_client_id q = rsp_client_id r \<and> req_order_id q = rsp_client_order_id r)"
    using messages_are_well_formed [OF _ sort_key_contract ex(1)] by blast
  then obtain r where "rs = [r]" using ex(2) by (metis Cons_eq_map_D list.map_disc_iff)
  then show ?thesis using rs ex(1) t by (intro exI [of _ ex] exI [of _ r]) simp
qed

text \<open>
  C32 The polling loop of \<open>main\<close> ends: when the number of responses never decreases and is bounded, fifteen
  polls per response and fifteen more are enough for it to stop.
\<close>

theorem main_wait_ends:
  assumes "sorted sizes" and "\<forall>n \<in> set sizes. n \<le> limit" and "15 * limit + 15 \<le> length sizes"
  shows "\<exists>k. wait_idle 0 0 sizes = Some k"
  using wait_idle_ends [of 0 sizes limit 0] assms by simp

theorem main_wait_ends_witness: "\<exists>k. wait_idle 0 0 (replicate 5 0 @ replicate 25 1) = Some k"
  using main_wait_ends [of "replicate 5 0 @ replicate 25 1" 1] by (simp add: sorted_append)

end
